(* ===== verification/Prelude.thy ===== *)
theory Prelude
  imports Main "HOL-Library.Word"
begin

section \<open>Shared vocabulary of the mymuduo model\<close>

text \<open>
  What every component of the model uses: the ways a C++ operation of the library can fail,
  results that carry such a failure, decimal printing as done by the \<open>printf\<close> family, the
  list operations that stand for \<open>std::copy\<close> and \<open>std::vector::resize\<close>, and a few facts
  about 64-bit words.
\<close>

text \<open>Collections that later theories fill: \<open>frame_rules\<close> says what an operation leaves alone,
  \<open>setter_defs\<close> holds the definitions of plain setters.\<close>

named_theorems frame_rules
named_theorems setter_defs

subsection \<open>Faults and results\<close>

text \<open>
  A fault ends the process or makes the rest of the run meaningless: \<open>FatalExit\<close> is the
  \<open>exit(-1)\<close> of \<open>LOG_FATAL\<close> (Logger.h); \<open>BadFunctionCall\<close>, \<open>LengthError\<close> and \<open>SystemError\<close> are
  exceptions that the standard library throws and nobody catches, \<open>Terminate\<close> is its
  \<open>std::terminate\<close>; the others are undefined behaviour of C++.
\<close>

datatype fault =
    FatalExit
  | BadFunctionCall
  | LengthError
  | SystemError
  | Terminate
  | HeapOverflow
  | HeapOverread
  | StackOverread
  | NullDeref
  | UseAfterFree
  | SignedOverflow
  | DivideByZero

type_synonym 'a res = "fault + 'a"

definition rbind :: "'a res \<Rightarrow> ('a \<Rightarrow> 'b res) \<Rightarrow> 'b res" where
  "rbind m f = (case m of Inl e \<Rightarrow> Inl e | Inr x \<Rightarrow> f x)"

lemma rbind_Inr [simp]: "rbind (Inr x) f = f x"
  by (simp add: rbind_def)

lemma rbind_Inl [simp]: "rbind (Inl e) f = Inl e"
  by (simp add: rbind_def)

lemma rbind_eq_Inr: "rbind m f = Inr y \<longleftrightarrow> (\<exists>x. m = Inr x \<and> f x = Inr y)"
  by (cases m) auto

lemma rbind_InrE:
  assumes "rbind m f = Inr y"
  obtains x where "m = Inr x" and "f x = Inr y"
  using assms by (auto simp: rbind_eq_Inr)

lemma rbind_assoc: "rbind (rbind m f) g = rbind m (\<lambda>x. rbind (f x) g)"
  by (cases m) auto

text \<open>\<open>for (const auto& x : xs) f(x);\<close> over a state: stops at the first fault.\<close>

fun foldr_res :: "('a \<Rightarrow> 's \<Rightarrow> 's res) \<Rightarrow> 'a list \<Rightarrow> 's \<Rightarrow> 's res" where
  "foldr_res f [] s = Inr s"
| "foldr_res f (x # xs) s = rbind (f x s) (foldr_res f xs)"

lemma foldr_res_append:
  "foldr_res f (xs @ ys) s = rbind (foldr_res f xs s) (foldr_res f ys)"
proof (induction xs arbitrary: s)
  case Nil
  then show ?case by simp
next
  case (Cons x xs)
  then show ?case by (cases "f x s") simp_all
qed

text \<open>A property that every iteration keeps is kept by the loop.\<close>

lemma foldr_res_inv:
  assumes "foldr_res f xs s = Inr s'" and "P s"
    and "\<And>x t t'. x \<in> set xs \<Longrightarrow> P t \<Longrightarrow> f x t = Inr t' \<Longrightarrow> P t'"
  shows "P s'"
  using assms
proof (induction xs arbitrary: s)
  case Nil
  then show ?case by simp
next
  case (Cons x xs)
  from Cons.prems(1) obtain t where t: "f x s = Inr t" "foldr_res f xs t = Inr s'"
    by (auto simp: rbind_eq_Inr)
  show ?case
    by (rule Cons.IH [OF t(2)]) (use Cons.prems t in auto)
qed

text \<open>The C string in a \<open>std::string\<close>: up to the first zero byte.\<close>

definition c_str :: "string \<Rightarrow> string" where
  "c_str s = takeWhile (\<lambda>c. c \<noteq> CHR 0x00) s"

lemma c_str_id [simp]: "CHR 0x00 \<notin> set s \<Longrightarrow> c_str s = s"
  by (auto simp: c_str_def takeWhile_eq_all_conv)

text \<open>A loop whose body never faults from states satisfying \<open>P\<close> does not fault.\<close>

lemma foldr_res_total:
  assumes "P s"
    and "\<And>x t. x \<in> set xs \<Longrightarrow> P t \<Longrightarrow> \<exists>t'. f x t = Inr t' \<and> P t'"
  shows "\<exists>s'. foldr_res f xs s = Inr s' \<and> P s'"
  using assms
proof (induction xs arbitrary: s)
  case Nil
  then show ?case by simp
next
  case (Cons x xs)
  from Cons.prems obtain t where t: "f x s = Inr t" "P t" by (meson list.set_intros(1))
  with Cons.IH [OF t(2)] Cons.prems(2) show ?case by simp
qed

subsection \<open>Decimal printing\<close>

text \<open>\<open>%u\<close> and \<open>%d\<close> of the \<open>printf\<close> family.\<close>

fun show_nat :: "nat \<Rightarrow> string" where
  "show_nat n = (if n < 10 then [char_of (48 + n)]
                 else show_nat (n div 10) @ [char_of (48 + n mod 10)])"

declare show_nat.simps [simp del]

definition show_int :: "int \<Rightarrow> string" where
  "show_int i = (if i < 0 then CHR ''-'' # show_nat (nat (- i)) else show_nat (nat i))"

definition digit_val :: "char \<Rightarrow> nat" where
  "digit_val c = of_char c - 48"

definition read_nat :: "string \<Rightarrow> nat" where
  "read_nat s = foldl (\<lambda>n c. 10 * n + digit_val c) 0 s"

lemma digit_val_char_of [simp]: "d < 10 \<Longrightarrow> digit_val (char_of (48 + d)) = d"
  by (simp add: digit_val_def)

text \<open>Printing loses nothing: the digits read back as the number.\<close>

lemma read_show_nat: "read_nat (show_nat n) = n"
proof (induction n rule: show_nat.induct)
  case (1 n)
  show ?case
  proof (cases "n < 10")
    case True
    then show ?thesis by (subst show_nat.simps) (simp add: read_nat_def)
  next
    case False
    with "1.IH" have "read_nat (show_nat (n div 10)) = n div 10" by simp
    with False show ?thesis
      by (subst show_nat.simps) (simp add: read_nat_def)
  qed
qed

lemma show_nat_inject [simp]: "show_nat m = show_nat n \<longleftrightarrow> m = n"
  by (metis read_show_nat)

lemma show_nat_not_Nil [simp]: "show_nat n \<noteq> []"
  by (subst show_nat.simps) simp

lemma show_nat_digits: "c \<in> set (show_nat n) \<Longrightarrow> c \<in> char_of ` {48 .. 57::nat}"
proof (induction n rule: show_nat.induct)
  case (1 n)
  show ?case
  proof (cases "n < 10")
    case True
    with "1.prems" show ?thesis by (subst (asm) show_nat.simps) auto
  next
    case False
    have last: "char_of (48 + n mod 10) \<in> char_of ` {48 .. 57::nat}"
      by (rule imageI) simp
    from False "1.prems" have "c \<in> set (show_nat (n div 10)) \<or> c = char_of (48 + n mod 10)"
      by (subst (asm) show_nat.simps) auto
    with "1.IH" [OF False] last show ?thesis by blast
  qed
qed

lemma digit_chars:
  assumes "c \<in> char_of ` {48 .. 57::nat}"
  shows "c \<noteq> CHR ''-'' \<and> c \<noteq> CHR ''#'' \<and> c \<noteq> CHR '':'' \<and> c \<noteq> CHR ''.''"
proof -
  from assms obtain k :: nat where k: "48 \<le> k" "k \<le> 57" "c = char_of k" by auto
  then have "of_char c = k" by simp
  with k(1,2) show ?thesis by auto
qed

lemma show_nat_no_sep:
  "CHR ''-'' \<notin> set (show_nat n)" "CHR ''#'' \<notin> set (show_nat n)"
  "CHR '':'' \<notin> set (show_nat n)" "CHR ''.'' \<notin> set (show_nat n)"
  using show_nat_digits digit_chars by blast+

lemma show_int_inject [simp]: "show_int i = show_int j \<longleftrightarrow> i = j"
proof
  assume eq: "show_int i = show_int j"
  have dash: "show_nat m \<noteq> CHR ''-'' # xs" "CHR ''-'' # xs \<noteq> show_nat m" for m xs
    by (metis list.set_intros(1) show_nat_no_sep(1))+
  show "i = j"
    using eq by (simp add: show_int_def dash split: if_splits)
qed simp

lemma show_nat_length:
  "n < 10 ^ k \<Longrightarrow> 0 < k \<Longrightarrow> length (show_nat n) \<le> k"
proof (induction n arbitrary: k rule: show_nat.induct)
  case (1 n)
  show ?case
  proof (cases "n < 10")
    case True
    with "1.prems" show ?thesis by (subst show_nat.simps) simp
  next
    case False
    from "1.prems"(2) obtain j where "k = Suc j" by (cases k) auto
    moreover from this "1.prems"(1) False have "0 < j" by (cases j) auto
    ultimately have j: "k = Suc j" "0 < j" .
    with "1.prems" have "n div 10 < 10 ^ j" by (simp add: less_mult_imp_div_less mult.commute)
    with "1.IH" [OF False] j have "length (show_nat (n div 10)) \<le> j" by simp
    with False j show ?thesis by (subst show_nat.simps) simp
  qed
qed

lemma show_int_length:
  assumes "\<bar>i\<bar> < 10 ^ k" "0 < k"
  shows "length (show_int i) \<le> Suc k"
proof -
  have "nat \<bar>i\<bar> < 10 ^ k" using assms(1) by (simp add: nat_less_iff)
  from show_nat_length [OF this assms(2)] show ?thesis
    by (cases "i < 0") (simp_all add: show_int_def)
qed

lemma show_nat_no_zero: "CHR 0x00 \<notin> set (show_nat n)"
proof
  assume "CHR 0x00 \<in> set (show_nat n)"
  from show_nat_digits [OF this] obtain k :: nat where "48 \<le> k" "k \<le> 57" "CHR 0x00 = char_of k" by auto
  then have "of_char (CHR 0x00) = k" by simp
  with \<open>48 \<le> k\<close> show False by simp
qed

lemma show_int_no_zero: "CHR 0x00 \<notin> set (show_int i)"
  by (simp add: show_int_def show_nat_no_zero)

lemma show_int_no_hash: "CHR ''#'' \<notin> set (show_int i)"
  by (simp add: show_int_def show_nat_no_sep)

lemma show_int_not_Nil [simp]: "show_int i \<noteq> []"
  by (simp add: show_int_def)

text \<open>\<open>snprintf(buf, n, ...)\<close> keeps at most \<open>n - 1\<close> characters.\<close>

definition snprintf_buf :: "nat \<Rightarrow> string \<Rightarrow> string" where
  "snprintf_buf n s = take (n - 1) s"

lemma snprintf_buf_id: "length s < n \<Longrightarrow> snprintf_buf n s = s"
  by (simp add: snprintf_buf_def)

subsection \<open>Memory as lists\<close>

text \<open>Overwriting part of a block, moving a part of it, and \<open>resize\<close>.\<close>

definition write_at :: "'a list \<Rightarrow> nat \<Rightarrow> 'a list \<Rightarrow> 'a list" where
  "write_at v i d = take i v @ d @ drop (i + length d) v"

definition move_to :: "'a list \<Rightarrow> nat \<Rightarrow> nat \<Rightarrow> nat \<Rightarrow> 'a list" where
  "move_to v src n dst = write_at v dst (take n (drop src v))"

definition resize_to :: "'a \<Rightarrow> nat \<Rightarrow> 'a list \<Rightarrow> 'a list" where
  "resize_to z n v = take n v @ replicate (n - length v) z"

lemma length_write_at [simp]:
  "i + length d \<le> length v \<Longrightarrow> length (write_at v i d) = length v"
  by (simp add: write_at_def)

lemma length_move_to [simp]:
  "src + n \<le> length v \<Longrightarrow> dst + n \<le> length v \<Longrightarrow> length (move_to v src n dst) = length v"
  by (simp add: move_to_def)

lemma length_resize_to [simp]: "length (resize_to z n v) = n"
  by (simp add: resize_to_def)

lemma take_resize_to: "k \<le> length v \<Longrightarrow> k \<le> n \<Longrightarrow> take k (resize_to z n v) = take k v"
  by (simp add: resize_to_def min_def)

text \<open>The slice \<open>[i, j)\<close> of a block.\<close>

definition slice :: "nat \<Rightarrow> nat \<Rightarrow> 'a list \<Rightarrow> 'a list" where
  "slice i j v = take (j - i) (drop i v)"

lemma length_slice [simp]: "j \<le> length v \<Longrightarrow> length (slice i j v) = j - i"
  by (simp add: slice_def)

lemma slice_write_at:
  assumes "i \<le> w" "w + length d \<le> length v"
  shows "slice i (w + length d) (write_at v w d) = slice i w v @ d"
proof -
  have "drop i (write_at v w d) = drop i (take w v) @ d @ drop (w + length d) v"
    using assms by (simp add: write_at_def)
  then show ?thesis using assms by (simp add: slice_def drop_take)
qed

lemma slice_move_to:
  assumes "src + n \<le> length v" "dst + n \<le> length v"
  shows "slice dst (dst + n) (move_to v src n dst) = slice src (src + n) v"
  using assms by (simp add: slice_def move_to_def write_at_def)

lemma slice_resize_to:
  assumes "j \<le> length v" "j \<le> n"
  shows "slice i j (resize_to z n v) = slice i j v"
proof -
  have "slice i j u = drop i (take j u)" for u :: "'a list"
    by (simp add: slice_def drop_take)
  then show ?thesis using assms by (simp add: take_resize_to)
qed

lemma slice_append:
  assumes "i \<le> j" "j \<le> k" shows "slice i j v @ slice j k v = slice i k v"
proof -
  have "take (k - i) (drop i v) = take ((j - i) + (k - j)) (drop i v)" using assms by simp
  also have "\<dots> = take (j - i) (drop i v) @ take (k - j) (drop (j - i) (drop i v))"
    by (rule take_add)
  finally show ?thesis using assms by (simp add: slice_def)
qed

lemma drop_slice: "drop k (slice i j v) = slice (i + k) j v"
  by (simp add: slice_def drop_take add.commute)

lemma slice_same [simp]: "slice i i v = []"
  by (simp add: slice_def)

subsection \<open>Unsigned 64-bit arithmetic\<close>

type_synonym byte = "8 word"
type_synonym size_t = "64 word"

lemma unat_size_t_add:
  "unat (a :: size_t) + unat b < 2 ^ 64 \<Longrightarrow> unat (a + b) = unat a + unat b"
  by (simp add: unat_word_ariths)

lemma unat_size_t_sub: "unat (b :: size_t) \<le> unat a \<Longrightarrow> unat (a - b) = unat a - unat b"
  by (simp add: unat_sub word_le_nat_alt)

lemma unat_size_t_of_nat: "n < 2 ^ 64 \<Longrightarrow> unat (of_nat n :: size_t) = n"
  by (simp add: unat_of_nat)

end
