(* ===== verification/Sys.thy ===== *)
theory Sys
  imports Prelude
begin

section \<open>The operating system as a parameter\<close>

text \<open>
  The library talks to the kernel and the C library. Their code is not part of the repository:
  an \<open>os\<close> is any function from the calls made so far (with their answers) and the next call to
  its answer. Every operation of the model that makes a call takes the \<open>os\<close> as its first
  argument and records the call, its answer and the calling thread in the trace of the state.
  Nothing is assumed of an \<open>os\<close> here; \<open>epoll_ctl_documented\<close> and \<open>new_fds_documented\<close> state what the
  manual pages promise and are hypotheses of the theorems that need them.
\<close>

text \<open>
  \<open>SocketNew\<close> is the \<open>socket\<close> call of the library (a TCP socket, non-blocking and closed on exec),
  \<open>SocketPlain\<close> the one without these flags. \<open>err\<close> is \<open>errno\<close> after the call.
\<close>

type_synonym chan_id = nat
type_synonym conn_id = nat
type_synonym loop_id = nat
type_synonym tid = int

datatype ctl_op = CtlAdd | CtlMod | CtlDel

datatype syscall =
    EpollCreate
  | EpollCtl int ctl_op int "32 word" chan_id
  | EpollWait int nat int
  | EventFd
  | WriteFd int "byte list"
  | ReadFd int nat
  | Readv int "nat list"
  | SocketNew
  | SocketPlain
  | Bind int "byte list"
  | Listen int nat
  | Accept int
  | ShutdownWr int
  | CloseFd int
  | SetSockOpt int string bool
  | GetSockError int
  | GetSockName int
  | TimeNow
  | GetTid

text \<open>An answer: the return value, \<open>errno\<close>, the bytes read, the events reported.\<close>

record sysret =
  ret :: int
  err :: int
  rdata :: "byte list"
  revs :: "(chan_id \<times> 32 word) list"

definition ret_val :: "int \<Rightarrow> sysret" where
  "ret_val n = \<lparr>ret = n, err = 0, rdata = [], revs = []\<rparr>"

type_synonym trace = "(tid \<times> syscall \<times> sysret) list"
type_synonym os = "trace \<Rightarrow> syscall \<Rightarrow> sysret"

record io =
  io_trace :: trace

definition do_call :: "os \<Rightarrow> tid \<Rightarrow> syscall \<Rightarrow> 'a io_scheme \<Rightarrow> sysret \<times> 'a io_scheme" where
  "do_call os me c s =
     (let r = os (io_trace s) c in (r, s\<lparr>io_trace := io_trace s @ [(me, c, r)]\<rparr>))"

lemma do_call_simps [simp]:
  "fst (do_call os me c s) = os (io_trace s) c"
  "io_trace (snd (do_call os me c s)) = io_trace s @ [(me, c, os (io_trace s) c)]"
  by (simp_all add: do_call_def Let_def)

subsection \<open>What epoll registers\<close>

text \<open>
  The registrations of an epoll descriptor after a trace, as \<open>epoll_ctl(2)\<close> describes them:
  a new epoll descriptor has none, a successful ADD or MOD stores the event mask and the user
  data, a successful DEL and the closing of the registered descriptor remove them.
\<close>

type_synonym interest = "int \<Rightarrow> (32 word \<times> chan_id) option"

fun interest_step :: "int \<Rightarrow> (tid \<times> syscall \<times> sysret) \<Rightarrow> interest \<Rightarrow> interest" where
  "interest_step ep (_, EpollCtl ep' op fd ev p, r) m =
     (if ep' = ep \<and> 0 \<le> ret r
      then (case op of CtlDel \<Rightarrow> m(fd := None) | _ \<Rightarrow> m(fd := Some (ev, p)))
      else m)"
| "interest_step ep (_, CloseFd fd, r) m = m(fd := None)"
| "interest_step ep (_, EpollCreate, r) m = (if ret r = ep then (\<lambda>_. None) else m)"
| "interest_step ep (_, _, r) m = m"

definition interest_of :: "int \<Rightarrow> trace \<Rightarrow> interest" where
  "interest_of ep tr = fold (interest_step ep) tr (\<lambda>_. None)"

lemma interest_of_append [simp]: "interest_of ep (tr @ xs) = fold (interest_step ep) xs (interest_of ep tr)"
  by (simp add: interest_of_def)

lemma interest_of_Nil [simp]: "interest_of ep [] = (\<lambda>_. None)"
  by (simp add: interest_of_def)

text \<open>
  The manual page of \<open>epoll_ctl\<close> for descriptors that support it and enough memory: ADD of a
  descriptor that is not registered returns 0 and fails with EEXIST on one that is; MOD and DEL
  of a registered descriptor return 0 and fail with ENOENT on one that is not.
\<close>

definition epoll_ctl_documented :: "os \<Rightarrow> bool" where
  "epoll_ctl_documented os \<longleftrightarrow> (\<forall>tr ep op fd ev p.
     ret (os tr (EpollCtl ep op fd ev p)) =
       (if (interest_of ep tr fd = None) = (op = CtlAdd) then 0 else -1))"

subsection \<open>Open descriptors\<close>

text \<open>
  The descriptors that the process has been given and has not closed again. A new descriptor is never
  one that is open (\<open>open(2)\<close>: the lowest-numbered descriptor that is not open).
\<close>

fun gives_fd :: "syscall \<Rightarrow> bool" where
  "gives_fd EpollCreate = True"
| "gives_fd EventFd = True"
| "gives_fd SocketNew = True"
| "gives_fd SocketPlain = True"
| "gives_fd (Accept fd) = True"
| "gives_fd _ = False"

fun open_step :: "(tid \<times> syscall \<times> sysret) \<Rightarrow> int set \<Rightarrow> int set" where
  "open_step (_, k, r) F =
     (if gives_fd k then (if 0 \<le> ret r then insert (ret r) F else F)
      else (case k of CloseFd fd \<Rightarrow> F - {fd} | _ \<Rightarrow> F))"

definition open_fds :: "trace \<Rightarrow> int set" where
  "open_fds tr = fold open_step tr {}"

lemma open_fds_append [simp]: "open_fds (tr @ xs) = fold open_step xs (open_fds tr)"
  by (simp add: open_fds_def)

definition new_fds_documented :: "os \<Rightarrow> bool" where
  "new_fds_documented os \<longleftrightarrow> (\<forall>tr k. gives_fd k \<longrightarrow> ret (os tr k) \<notin> open_fds tr)"

text \<open>A kernel that answers \<open>epoll_ctl\<close> exactly so, for evaluating examples.\<close>

definition plain_os :: os where
  "plain_os tr c = (case c of
     EpollCtl ep op fd ev p \<Rightarrow>
       ret_val (if (interest_of ep tr fd = None) = (op = CtlAdd) then 0 else -1)
   | EpollCreate \<Rightarrow> ret_val 3
   | EventFd \<Rightarrow> ret_val 4
   | SocketNew \<Rightarrow> ret_val 5
   | SocketPlain \<Rightarrow> ret_val 5
   | Accept fd \<Rightarrow> ret_val 6
   | WriteFd fd d \<Rightarrow> ret_val (int (length d))
   | _ \<Rightarrow> ret_val 0)"

lemma plain_os_documented: "epoll_ctl_documented plain_os"
  by (simp add: epoll_ctl_documented_def plain_os_def ret_val_def)

end
