(* ===== verification/Callback.thy ===== *)
theory Callback
  imports Sys
begin

section \<open>Callbacks and queued functors (Callback.h and the uses of std::bind)\<close>

text \<open>
  A \<open>std::function\<close> of the library is one of the closures its source builds with
  \<open>std::bind\<close>; each is a constructor, with the objects it binds as arguments. The order is
  that of the binds in EventLoop.cpp, Acceptor.cpp, TcpConnection.cpp and TcpServer.cpp.
  An empty \<open>std::function\<close> is \<open>None\<close>.
\<close>

datatype channel_cb =
    LoopHandleRead loop_id
  | AcceptorHandleRead
  | ConnHandleRead conn_id
  | ConnHandleClose conn_id
  | ConnHandleWrite conn_id
  | ConnHandleError conn_id

text \<open>
  The functors given to \<open>runInLoop\<close> and \<open>queueInLoop\<close>. \<open>WriteCallbackMember\<close> is the closure of
  \<open>handleWrite\<close>, which binds the address of the data member \<open>writeCallback_\<close>;
  \<open>WriteCallbackFn\<close> is the one of \<open>sendInLoop\<close>, which binds the function stored there.
  \<open>SendInLoop\<close> and \<open>ShutdownInLoop\<close> bind a raw \<open>this\<close>, the others that name a connection bind a
  \<open>shared_ptr\<close>; \<open>SendInLoop\<close> also binds \<open>buf.c_str()\<close> and \<open>buf.size()\<close>, the address of the
  caller's string and its length.
\<close>

datatype Functor =
    WriteCallbackMember conn_id
  | SendInLoop conn_id nat nat
  | WriteCallbackFn conn_id
  | HighWaterMarkFn conn_id nat
  | ShutdownInLoop conn_id
  | ConnectDestroyed conn_id
  | AcceptorListen
  | ConnectEstablished conn_id
  | RemoveConnectionInLoop conn_id

text \<open>The connection that a functor keeps alive.\<close>

fun functor_owner :: "Functor \<Rightarrow> conn_id option" where
  "functor_owner (WriteCallbackMember c) = Some c"
| "functor_owner (WriteCallbackFn c) = Some c"
| "functor_owner (HighWaterMarkFn c n) = Some c"
| "functor_owner (ConnectDestroyed c) = Some c"
| "functor_owner (ConnectEstablished c) = Some c"
| "functor_owner (RemoveConnectionInLoop c) = Some c"
| "functor_owner (SendInLoop c a n) = None"
| "functor_owner (ShutdownInLoop c) = None"
| "functor_owner AcceptorListen = None"

end
