(* ===== verification/Channel.thy ===== *)
theory Channel
  imports Callback
begin

unbundle bit_operations_syntax

section \<open>Channels (Channel.h, Channel.cpp)\<close>

text \<open>
  A channel is a descriptor with the events it wants, the events that were reported and the
  callbacks to run for them. Channels are heap objects that loops, pollers and epoll itself
  point to, so they live in a store from addresses to channels; using an address that is not in
  the store is a fault. The operations that register the events with the poller
  (\<open>enableReading\<close> and its kin) are in the theory EventLoop, because they go through the loop.
\<close>

subsection \<open>State\<close>

record channel =
  ch_loop :: loop_id
  ch_fd :: int
  ch_events :: "32 word"
  ch_revents :: "32 word"
  ch_index :: int
  ch_tie :: "conn_id option"
  ch_tied :: bool
  readCallback :: "channel_cb option"
  writeCallback :: "channel_cb option"
  closeCallback :: "channel_cb option"
  errorCallback :: "channel_cb option"

record chan_io = io +
  chans :: "chan_id \<Rightarrow> channel option"

definition EPOLLIN :: "32 word" where "EPOLLIN = 0x001"
definition EPOLLPRI :: "32 word" where "EPOLLPRI = 0x002"
definition EPOLLOUT :: "32 word" where "EPOLLOUT = 0x004"
definition EPOLLERR :: "32 word" where "EPOLLERR = 0x008"
definition EPOLLHUP :: "32 word" where "EPOLLHUP = 0x010"

lemmas epoll_bits = EPOLLIN_def EPOLLPRI_def EPOLLOUT_def EPOLLERR_def EPOLLHUP_def

definition kNoneEvent :: "32 word" where "kNoneEvent = 0"
definition kReadEvent :: "32 word" where "kReadEvent = EPOLLIN OR EPOLLPRI"
definition kWriteEvent :: "32 word" where "kWriteEvent = EPOLLOUT"

lemmas channel_masks = kNoneEvent_def kReadEvent_def kWriteEvent_def

definition mkChannel :: "loop_id \<Rightarrow> int \<Rightarrow> channel" where
  "mkChannel l fd = \<lparr>ch_loop = l, ch_fd = fd, ch_events = 0, ch_revents = 0, ch_index = -1,
     ch_tie = None, ch_tied = False, readCallback = None, writeCallback = None,
     closeCallback = None, errorCallback = None\<rparr>"

definition tie :: "conn_id \<Rightarrow> channel \<Rightarrow> channel" where
  "tie obj c = c\<lparr>ch_tie := Some obj, ch_tied := True\<rparr>"

text \<open>The setters; they unfold by themselves.\<close>

definition setReadCallback :: "channel_cb \<Rightarrow> channel \<Rightarrow> channel" where
  [simp]: "setReadCallback cb c = c\<lparr>readCallback := Some cb\<rparr>"

definition setWriteCallback :: "channel_cb \<Rightarrow> channel \<Rightarrow> channel" where
  [simp]: "setWriteCallback cb c = c\<lparr>writeCallback := Some cb\<rparr>"

definition setCloseCallback :: "channel_cb \<Rightarrow> channel \<Rightarrow> channel" where
  [simp]: "setCloseCallback cb c = c\<lparr>closeCallback := Some cb\<rparr>"

definition setErrorCallback :: "channel_cb \<Rightarrow> channel \<Rightarrow> channel" where
  [simp]: "setErrorCallback cb c = c\<lparr>errorCallback := Some cb\<rparr>"

definition set_revents :: "32 word \<Rightarrow> channel \<Rightarrow> channel" where
  [simp]: "set_revents r c = c\<lparr>ch_revents := r\<rparr>"

definition set_index :: "int \<Rightarrow> channel \<Rightarrow> channel" where
  [simp]: "set_index i c = c\<lparr>ch_index := i\<rparr>"

definition isNoneEvent :: "channel \<Rightarrow> bool" where
  "isNoneEvent c \<longleftrightarrow> ch_events c = kNoneEvent"

definition isWriting :: "channel \<Rightarrow> bool" where
  "isWriting c \<longleftrightarrow> ch_events c AND kWriteEvent \<noteq> 0"

definition isReading :: "channel \<Rightarrow> bool" where
  "isReading c \<longleftrightarrow> ch_events c AND kReadEvent \<noteq> 0"

text \<open>How the event mask changes in \<open>enableReading\<close>, \<open>disableReading\<close>, and so on.\<close>

datatype event_change = EnableReading | DisableReading | EnableWriting | DisableWriting | DisableAll

fun change_events :: "event_change \<Rightarrow> 32 word \<Rightarrow> 32 word" where
  "change_events EnableReading ev = ev OR kReadEvent"
| "change_events DisableReading ev = ev AND NOT kReadEvent"
| "change_events EnableWriting ev = ev OR kWriteEvent"
| "change_events DisableWriting ev = ev AND NOT kWriteEvent"
| "change_events DisableAll ev = kNoneEvent"

text \<open>Access through a pointer.\<close>

definition get_chan :: "'a chan_io_scheme \<Rightarrow> chan_id \<Rightarrow> channel res" where
  "get_chan s p = (case chans s p of None \<Rightarrow> Inl UseAfterFree | Some c \<Rightarrow> Inr c)"

definition put_chan :: "chan_id \<Rightarrow> channel \<Rightarrow> 'a chan_io_scheme \<Rightarrow> 'a chan_io_scheme" where
  "put_chan p c s = s\<lparr>chans := (chans s)(p := Some c)\<rparr>"

definition upd_chan :: "chan_id \<Rightarrow> (channel \<Rightarrow> channel) \<Rightarrow> 'a chan_io_scheme \<Rightarrow> 'a chan_io_scheme res" where
  "upd_chan p f s = rbind (get_chan s p) (\<lambda>c. Inr (put_chan p (f c) s))"

subsection \<open>Dispatching the reported events\<close>

text \<open>
  \<open>handleEventWithGuard\<close> tests the reported events four times and calls the callback of each
  test that holds, if it is set. The callbacks change the state, so the channel is read again
  before every test. \<open>run\<close> is what a callback does.
\<close>

definition call_if :: "(channel_cb \<Rightarrow> int \<Rightarrow> 's \<Rightarrow> 's res) \<Rightarrow> int \<Rightarrow> bool \<Rightarrow> channel_cb option \<Rightarrow> 's \<Rightarrow> 's res" where
  "call_if run t cond cb s =
     (if cond then (case cb of None \<Rightarrow> Inr s | Some f \<Rightarrow> run f t s) else Inr s)"

definition wants_close :: "32 word \<Rightarrow> bool" where
  "wants_close r \<longleftrightarrow> r AND EPOLLHUP \<noteq> 0 \<and> r AND EPOLLIN = 0"

definition wants_error :: "32 word \<Rightarrow> bool" where "wants_error r \<longleftrightarrow> r AND EPOLLERR \<noteq> 0"

definition wants_read :: "32 word \<Rightarrow> bool" where "wants_read r \<longleftrightarrow> r AND (EPOLLIN OR EPOLLPRI) \<noteq> 0"

definition wants_write :: "32 word \<Rightarrow> bool" where "wants_write r \<longleftrightarrow> r AND EPOLLOUT \<noteq> 0"

definition handleEventWithGuard ::
    "(channel_cb \<Rightarrow> int \<Rightarrow> 'a chan_io_scheme \<Rightarrow> 'a chan_io_scheme res) \<Rightarrow> chan_id \<Rightarrow> int \<Rightarrow>
     'a chan_io_scheme \<Rightarrow> 'a chan_io_scheme res" where
  "handleEventWithGuard run p t s =
     rbind (get_chan s p) (\<lambda>c.
     rbind (call_if run t (wants_close (ch_revents c)) (closeCallback c) s) (\<lambda>s.
     rbind (get_chan s p) (\<lambda>c.
     rbind (call_if run t (wants_error (ch_revents c)) (errorCallback c) s) (\<lambda>s.
     rbind (get_chan s p) (\<lambda>c.
     rbind (call_if run t (wants_read (ch_revents c)) (readCallback c) s) (\<lambda>s.
     rbind (get_chan s p) (\<lambda>c.
     call_if run t (wants_write (ch_revents c)) (writeCallback c) s)))))))"

text \<open>
  \<open>handleEvent\<close>: a tied channel dispatches only while the object it is tied to is alive
  (\<open>lock\<close> of the \<open>weak_ptr\<close>); \<open>alive\<close> says which objects are.
\<close>

definition handleEvent ::
    "(conn_id \<Rightarrow> 'a chan_io_scheme \<Rightarrow> bool) \<Rightarrow>
     (channel_cb \<Rightarrow> int \<Rightarrow> 'a chan_io_scheme \<Rightarrow> 'a chan_io_scheme res) \<Rightarrow> chan_id \<Rightarrow> int \<Rightarrow>
     'a chan_io_scheme \<Rightarrow> 'a chan_io_scheme res" where
  "handleEvent alive run p t s =
     rbind (get_chan s p) (\<lambda>c.
     if ch_tied c
     then (case ch_tie c of
             None \<Rightarrow> Inr s
           | Some obj \<Rightarrow> if alive obj s then handleEventWithGuard run p t s else Inr s)
     else handleEventWithGuard run p t s)"

subsection \<open>Lemmas\<close>

lemma get_chan_simps [simp]:
  "chans s p = Some c \<Longrightarrow> get_chan s p = Inr c"
  "chans s p = None \<Longrightarrow> get_chan s p = Inl UseAfterFree"
  by (simp_all add: get_chan_def)

lemma get_chan_eq_Inr [simp]: "get_chan s p = Inr c \<longleftrightarrow> chans s p = Some c"
  by (simp add: get_chan_def split: option.splits)

lemma put_chan_simps [simp]:
  "chans (put_chan p c s) = (chans s)(p := Some c)"
  "io_trace (put_chan p c s) = io_trace s"
  by (simp_all add: put_chan_def)

lemma do_call_chans [simp]: "chans (snd (do_call os me c s)) = chans s"
  by (simp add: do_call_def Let_def)

lemma upd_chan_eq_Inr: "upd_chan p f s = Inr s' \<longleftrightarrow> (\<exists>c. chans s p = Some c \<and> s' = put_chan p (f c) s)"
  by (auto simp: upd_chan_def rbind_eq_Inr)

text \<open>Which bits each change of the mask leaves in the reading and the writing part.\<close>

lemma mask_set_clear:
  fixes e r w :: "32 word"
  shows "(e OR r) AND r = r" and "(e AND NOT r) AND r = 0"
  by (rule bit_word_eqI; auto simp: bit_simps)+

lemma mask_disjoint:
  fixes e r w :: "32 word"
  assumes "r AND w = 0"
  shows "(e OR w) AND r = e AND r" and "(e AND NOT w) AND r = e AND r"
proof -
  have no: "\<not> (bit r n \<and> bit w n)" for n
    using assms by (metis bit_and_iff bit_0_eq bot_apply bot_bool_def)
  show "(e OR w) AND r = e AND r" "(e AND NOT w) AND r = e AND r"
    using no by (intro bit_word_eqI; auto simp: bit_simps)+
qed

lemma read_write_disjoint: "kReadEvent AND kWriteEvent = 0" "kWriteEvent AND kReadEvent = 0"
  by (simp_all add: channel_masks epoll_bits)

lemma change_events_reading:
  "change_events EnableReading ev AND kReadEvent = kReadEvent"
  "change_events DisableReading ev AND kReadEvent = 0"
  "change_events EnableWriting ev AND kReadEvent = ev AND kReadEvent"
  "change_events DisableWriting ev AND kReadEvent = ev AND kReadEvent"
  by (simp_all add: mask_set_clear mask_disjoint read_write_disjoint)

lemma change_events_writing:
  "change_events EnableWriting ev AND kWriteEvent = kWriteEvent"
  "change_events DisableWriting ev AND kWriteEvent = 0"
  "change_events EnableReading ev AND kWriteEvent = ev AND kWriteEvent"
  "change_events DisableReading ev AND kWriteEvent = ev AND kWriteEvent"
  by (simp_all add: mask_set_clear mask_disjoint read_write_disjoint)

subsection \<open>The order of the callbacks\<close>

text \<open>The callbacks that the reported events ask for, in the order of the code.\<close>

definition asked :: "bool \<Rightarrow> channel_cb option \<Rightarrow> channel_cb list" where
  "asked b cb = (if b then (case cb of None \<Rightarrow> [] | Some f \<Rightarrow> [f]) else [])"

definition dispatch_list :: "channel \<Rightarrow> channel_cb list" where
  "dispatch_list c =
     asked (wants_close (ch_revents c)) (closeCallback c) @
     asked (wants_error (ch_revents c)) (errorCallback c) @
     asked (wants_read (ch_revents c)) (readCallback c) @
     asked (wants_write (ch_revents c)) (writeCallback c)"

lemma call_if_asked: "call_if run t b cb s = foldr_res (\<lambda>f. run f t) (asked b cb) s"
  by (cases cb; cases "run (the cb) t s") (auto simp: call_if_def asked_def)

text \<open>A channel whose dispatch does not change: the reported events and the callbacks.\<close>

definition dispatch_view ::
    "channel \<Rightarrow> 32 word \<times> channel_cb option \<times> channel_cb option \<times> channel_cb option \<times> channel_cb option" where
  "dispatch_view c = (ch_revents c, closeCallback c, errorCallback c, readCallback c, writeCallback c)"

definition has_view :: "chan_id \<Rightarrow> channel \<Rightarrow> 'a chan_io_scheme \<Rightarrow> bool" where
  "has_view p c s \<longleftrightarrow> (\<exists>d. chans s p = Some d \<and> dispatch_view d = dispatch_view c)"

lemma dispatch_step:
  assumes "has_view p c s"
    and keep: "\<And>f u u'. has_view p c u \<Longrightarrow> run f t u = Inr u' \<Longrightarrow> has_view p c u'"
    and k: "\<And>u. has_view p c u \<Longrightarrow> k u = k' u"
  shows "rbind (foldr_res (\<lambda>f. run f t) fs s) k = rbind (foldr_res (\<lambda>f. run f t) fs s) k'"
proof (cases "foldr_res (\<lambda>f. run f t) fs s")
  case (Inr u)
  have "has_view p c u"
    by (rule foldr_res_inv [OF Inr, of "has_view p c"]) (use assms(1) keep in auto)
  then show ?thesis by (simp add: Inr k)
qed simp

lemma has_view_get:
  assumes "has_view p c s" and "\<And>d. dispatch_view d = dispatch_view c \<Longrightarrow> k d = k' c"
  shows "rbind (get_chan s p) k = k' c"
  using assms by (auto simp: has_view_def)

text \<open>
  C33: the callbacks of one event run in a fixed order, and each at most once: close (hang-up with
  nothing left to read), error, read, write, as long as the callbacks do not change what the
  channel has to dispatch. They stop at the first fault.
\<close>

theorem dispatch_in_order:
  assumes "chans s p = Some c"
    and keep: "\<And>f u u'. has_view p c u \<Longrightarrow> run f t u = Inr u' \<Longrightarrow> has_view p c u'"
  shows "handleEventWithGuard run p t s = foldr_res (\<lambda>f. run f t) (dispatch_list c) s"
proof -
  let ?go = "\<lambda>b cb. foldr_res (\<lambda>f. run f t) (asked b cb)"
  have v: "has_view p c s" using assms(1) by (simp add: has_view_def)
  have step: "rbind (foldr_res (\<lambda>f. run f t) fs u) k = rbind (foldr_res (\<lambda>f. run f t) fs u) k'"
    if "has_view p c u" "\<And>u. has_view p c u \<Longrightarrow> k u = k' u" for fs u k k'
    by (rule dispatch_step [OF that(1) keep that(2)])
  have wri: "rbind (get_chan u p) (\<lambda>d. ?go (wants_write (ch_revents d)) (writeCallback d) u) =
      ?go (wants_write (ch_revents c)) (writeCallback c) u" if "has_view p c u" for u
    by (rule has_view_get [OF that]) (simp add: dispatch_view_def)
  have rea: "rbind (get_chan u p) (\<lambda>d. rbind (?go (wants_read (ch_revents d)) (readCallback d) u) k) =
      rbind (?go (wants_read (ch_revents c)) (readCallback c) u) k" if "has_view p c u" for u k
    by (rule has_view_get [OF that]) (simp add: dispatch_view_def)
  have erro: "rbind (get_chan u p) (\<lambda>d. rbind (?go (wants_error (ch_revents d)) (errorCallback d) u) k) =
      rbind (?go (wants_error (ch_revents c)) (errorCallback c) u) k" if "has_view p c u" for u k
    by (rule has_view_get [OF that]) (simp add: dispatch_view_def)
  have clo: "rbind (get_chan u p) (\<lambda>d. rbind (?go (wants_close (ch_revents d)) (closeCallback d) u) k) =
      rbind (?go (wants_close (ch_revents c)) (closeCallback c) u) k" if "has_view p c u" for u k
    by (rule has_view_get [OF that]) (simp add: dispatch_view_def)
  have 3: "rbind (get_chan u p) (\<lambda>d. rbind (?go (wants_read (ch_revents d)) (readCallback d) u)
        (\<lambda>u. rbind (get_chan u p) (\<lambda>d. ?go (wants_write (ch_revents d)) (writeCallback d) u))) =
      foldr_res (\<lambda>f. run f t) (asked (wants_read (ch_revents c)) (readCallback c) @
        asked (wants_write (ch_revents c)) (writeCallback c)) u" if "has_view p c u" for u
    unfolding rea [OF that] foldr_res_append by (rule step [OF that wri])
  have 2: "rbind (get_chan u p) (\<lambda>d. rbind (?go (wants_error (ch_revents d)) (errorCallback d) u)
        (\<lambda>u. rbind (get_chan u p) (\<lambda>d. rbind (?go (wants_read (ch_revents d)) (readCallback d) u)
        (\<lambda>u. rbind (get_chan u p) (\<lambda>d. ?go (wants_write (ch_revents d)) (writeCallback d) u))))) =
      foldr_res (\<lambda>f. run f t) (asked (wants_error (ch_revents c)) (errorCallback c) @
        asked (wants_read (ch_revents c)) (readCallback c) @
        asked (wants_write (ch_revents c)) (writeCallback c)) u" if "has_view p c u" for u
    unfolding erro [OF that] foldr_res_append [of _ "asked (wants_error (ch_revents c)) (errorCallback c)"]
    by (rule step [OF that 3])
  show ?thesis
    unfolding handleEventWithGuard_def call_if_asked clo [OF v] dispatch_list_def
      foldr_res_append [of _ "asked (wants_close (ch_revents c)) (closeCallback c)"]
    by (rule step [OF v 2])
qed

theorem dispatch_in_order_witness:
  "handleEventWithGuard (\<lambda>f t s. Inr s) 0 7
      (put_chan 0 ((mkChannel 0 5)\<lparr>ch_revents := 5, readCallback := Some AcceptorHandleRead\<rparr>)
        \<lparr>io_trace = [], chans = (\<lambda>_. None)\<rparr>) =
   foldr_res (\<lambda>f. Inr) [AcceptorHandleRead]
      (put_chan 0 ((mkChannel 0 5)\<lparr>ch_revents := 5, readCallback := Some AcceptorHandleRead\<rparr>)
        \<lparr>io_trace = [], chans = (\<lambda>_. None)\<rparr>)"
proof -
  let ?c = "(mkChannel 0 5)\<lparr>ch_revents := 5, readCallback := Some AcceptorHandleRead\<rparr>"
  have "dispatch_list ?c = [AcceptorHandleRead]"
    by (simp add: dispatch_list_def asked_def wants_close_def wants_error_def wants_read_def
        wants_write_def epoll_bits mkChannel_def)
  with dispatch_in_order [of "put_chan 0 ?c \<lparr>io_trace = [], chans = (\<lambda>_. None)\<rparr>" 0 ?c "\<lambda>f t s. Inr s" 7]
  show ?thesis by simp
qed

end
