(* ===== verification/Poller.thy ===== *)
theory Poller
  imports Channel
begin

section \<open>The poller (Poller.h, Poller.cpp, EpollPoller.h, EpollPoller.cpp, DefaultPoller.cpp)\<close>

text \<open>
  The epoll poller of a loop: the map from descriptors to channels, the size of the array given
  to \<open>epoll_wait\<close>, and the three places where the registration of a channel is kept: the
  \<open>index\<close> field of the channel, the map of the poller, and the interest list of the kernel. The
  invariant says that they agree.
\<close>

subsection \<open>State and operations\<close>

record poller =
  epollfd :: int
  channels :: "int \<Rightarrow> chan_id option"
  evlist_size :: nat

definition kNew :: int where "kNew = -1"
definition kAdded :: int where "kAdded = 1"
definition kDel :: int where "kDel = 2"

lemmas index_states = kNew_def kAdded_def kDel_def

definition kInitEventListSize :: nat where "kInitEventListSize = 16"

definition EpollPoller :: "os \<Rightarrow> tid \<Rightarrow> 'a chan_io_scheme \<Rightarrow> (poller \<times> 'a chan_io_scheme) res" where
  "EpollPoller os me s =
     (let (r, s) = do_call os me EpollCreate s in
      if ret r < 0 then Inl FatalExit
      else Inr (\<lparr>epollfd = ret r, channels = (\<lambda>_. None), evlist_size = kInitEventListSize\<rparr>, s))"

text \<open>\<open>MUDUO_USE_POLL\<close> in the environment gives a null poller.\<close>

definition newDefaultPoller ::
    "os \<Rightarrow> tid \<Rightarrow> bool \<Rightarrow> 'a chan_io_scheme \<Rightarrow> (poller option \<times> 'a chan_io_scheme) res" where
  "newDefaultPoller os me use_poll s =
     (if use_poll then Inr (None, s)
      else rbind (EpollPoller os me s) (\<lambda>(pl, s). Inr (Some pl, s)))"

definition hasChannel :: "poller \<Rightarrow> chan_id \<Rightarrow> 'a chan_io_scheme \<Rightarrow> bool res" where
  "hasChannel pl p s = rbind (get_chan s p) (\<lambda>c. Inr (channels pl (ch_fd c) = Some p))"

definition poller_update ::
    "os \<Rightarrow> tid \<Rightarrow> poller \<Rightarrow> ctl_op \<Rightarrow> chan_id \<Rightarrow> 'a chan_io_scheme \<Rightarrow> 'a chan_io_scheme res" where
  "poller_update os me pl op p s =
     rbind (get_chan s p) (\<lambda>c.
     let (r, s) = do_call os me (EpollCtl (epollfd pl) op (ch_fd c) (ch_events c) p) s in
     if ret r < 0 \<and> op \<noteq> CtlDel then Inl FatalExit else Inr s)"

definition poller_updateChannel ::
    "os \<Rightarrow> tid \<Rightarrow> poller \<Rightarrow> chan_id \<Rightarrow> 'a chan_io_scheme \<Rightarrow> (poller \<times> 'a chan_io_scheme) res" where
  "poller_updateChannel os me pl p s =
     rbind (get_chan s p) (\<lambda>c.
     if ch_index c = kNew \<or> ch_index c = kDel
     then let pl = (if ch_index c = kNew then pl\<lparr>channels := (channels pl)(ch_fd c := Some p)\<rparr> else pl) in
       rbind (upd_chan p (\<lambda>c. set_index kAdded c) s) (\<lambda>s.
       rbind (poller_update os me pl CtlAdd p s) (\<lambda>s. Inr (pl, s)))
     else if isNoneEvent c
     then rbind (poller_update os me pl CtlDel p s) (\<lambda>s.
       rbind (upd_chan p (\<lambda>c. set_index kDel c) s) (\<lambda>s. Inr (pl, s)))
     else rbind (poller_update os me pl CtlMod p s) (\<lambda>s. Inr (pl, s)))"

definition poller_removeChannel ::
    "os \<Rightarrow> tid \<Rightarrow> poller \<Rightarrow> chan_id \<Rightarrow> 'a chan_io_scheme \<Rightarrow> (poller \<times> 'a chan_io_scheme) res" where
  "poller_removeChannel os me pl p s =
     rbind (get_chan s p) (\<lambda>c.
     let pl = pl\<lparr>channels := (channels pl)(ch_fd c := None)\<rparr> in
     rbind (if ch_index c = kAdded then poller_update os me pl CtlDel p s else Inr s) (\<lambda>s.
     rbind (upd_chan p (\<lambda>c. set_index kNew c) s) (\<lambda>s. Inr (pl, s))))"

definition closeEpollPoller :: "os \<Rightarrow> tid \<Rightarrow> poller \<Rightarrow> 'a chan_io_scheme \<Rightarrow> 'a chan_io_scheme" where
  [simp]: "closeEpollPoller os me pl s = snd (do_call os me (CloseFd (epollfd pl)) s)"

fun fillActiveChannels ::
    "(chan_id \<times> 32 word) list \<Rightarrow> 'a chan_io_scheme \<Rightarrow> (chan_id list \<times> 'a chan_io_scheme) res" where
  "fillActiveChannels [] s = Inr ([], s)"
| "fillActiveChannels ((p, ev) # evs) s =
     rbind (upd_chan p (\<lambda>c. set_revents ev c) s) (\<lambda>s.
     rbind (fillActiveChannels evs s) (\<lambda>(active, s). Inr (p # active, s)))"

text \<open>
  \<open>poll\<close>: the active channels, the time stamp, and the poller with its event array doubled when
  it came back full.
\<close>

definition poller_poll ::
    "os \<Rightarrow> tid \<Rightarrow> poller \<Rightarrow> int \<Rightarrow> 'a chan_io_scheme \<Rightarrow>
     (poller \<times> chan_id list \<times> int \<times> 'a chan_io_scheme) res" where
  "poller_poll os me pl timeout s =
     (let (r, s) = do_call os me (EpollWait (epollfd pl) (evlist_size pl) timeout) s;
          (now, s) = do_call os me TimeNow s in
      if 0 < ret r
      then rbind (fillActiveChannels (take (nat (ret r)) (revs r)) s) (\<lambda>(active, s).
        Inr ((if nat (ret r) = evlist_size pl then pl\<lparr>evlist_size := evlist_size pl * 2\<rparr> else pl),
             active, ret now, s))
      else Inr (pl, [], ret now, s))"

subsection \<open>The registration invariant\<close>

text \<open>
  The three views of one channel: not known to the poller; registered in the kernel with its
  present event mask and its address; known to the poller but taken out of the kernel.
\<close>

definition chan_reg :: "poller \<Rightarrow> interest \<Rightarrow> chan_id \<Rightarrow> channel \<Rightarrow> bool" where
  "chan_reg pl m p c \<longleftrightarrow>
     ch_index c = kNew \<and> m (ch_fd c) = None \<and> channels pl (ch_fd c) = None \<or>
     ch_index c = kAdded \<and> m (ch_fd c) = Some (ch_events c, p) \<and> channels pl (ch_fd c) = Some p \<or>
     ch_index c = kDel \<and> m (ch_fd c) = None \<and> channels pl (ch_fd c) = Some p"

text \<open>The same but for a mask that the channel has changed and not yet passed on.\<close>

definition chan_reg_stale :: "poller \<Rightarrow> interest \<Rightarrow> chan_id \<Rightarrow> channel \<Rightarrow> bool" where
  "chan_reg_stale pl m p c \<longleftrightarrow> (\<exists>ev. chan_reg pl m p (c\<lparr>ch_events := ev\<rparr>))"

definition kernel_view :: "poller \<Rightarrow> 'a chan_io_scheme \<Rightarrow> interest" where
  "kernel_view pl s = interest_of (epollfd pl) (io_trace s)"

definition distinct_fds :: "loop_id \<Rightarrow> 'a chan_io_scheme \<Rightarrow> bool" where
  "distinct_fds l s \<longleftrightarrow> (\<forall>p q c d. chans s p = Some c \<longrightarrow> chans s q = Some d \<longrightarrow>
     ch_loop c = l \<longrightarrow> ch_loop d = l \<longrightarrow> ch_fd c = ch_fd d \<longrightarrow> p = q)"

text \<open>
  Every channel of the loop agrees with the poller and the kernel, but for the mask of those in
  \<open>X\<close>, and what the kernel and the map of the poller hold points to live channels of the loop.
\<close>

definition poller_inv :: "chan_id set \<Rightarrow> poller \<Rightarrow> loop_id \<Rightarrow> 'a chan_io_scheme \<Rightarrow> bool" where
  "poller_inv X pl l s \<longleftrightarrow> distinct_fds l s \<and>
     (\<forall>p c. chans s p = Some c \<longrightarrow> ch_loop c = l \<longrightarrow>
        (if p \<in> X then chan_reg_stale pl (kernel_view pl s) p c
         else chan_reg pl (kernel_view pl s) p c)) \<and>
     (\<forall>fd ev p. kernel_view pl s fd = Some (ev, p) \<longrightarrow>
        (\<exists>c. chans s p = Some c \<and> ch_loop c = l \<and> ch_fd c = fd)) \<and>
     (\<forall>fd p. channels pl fd = Some p \<longrightarrow>
        (\<exists>c. chans s p = Some c \<and> ch_loop c = l \<and> ch_fd c = fd))"

lemma poller_invD:
  assumes "poller_inv X pl l s" "chans s p = Some c" "ch_loop c = l"
  shows "p \<notin> X \<Longrightarrow> chan_reg pl (kernel_view pl s) p c"
    and "chan_reg_stale pl (kernel_view pl s) p c"
proof -
  show 1: "p \<notin> X \<Longrightarrow> chan_reg pl (kernel_view pl s) p c"
    using assms by (auto simp: poller_inv_def)
  have "chan_reg pl (kernel_view pl s) p c \<Longrightarrow> chan_reg_stale pl (kernel_view pl s) p c"
    unfolding chan_reg_stale_def by (rule exI [of _ "ch_events c"]) simp
  then show "chan_reg_stale pl (kernel_view pl s) p c"
    using assms 1 by (cases "p \<in> X") (auto simp: poller_inv_def)
qed

text \<open>
  The frame rule of the invariant: an operation that touches one channel of the loop, keeps its
  descriptor, and changes kernel and map at most at this descriptor re-establishes the invariant
  when the one channel agrees again.
\<close>

lemma poller_inv_update:
  assumes inv: "poller_inv {p} pl l s" and c: "chans s p = Some c" "ch_loop c = l"
    and s': "chans s' = (chans s)(p := Some c')" "ch_fd c' = ch_fd c" "ch_loop c' = l"
    and frame: "\<And>fd. fd \<noteq> ch_fd c \<Longrightarrow> kernel_view pl' s' fd = kernel_view pl s fd"
      "\<And>fd. fd \<noteq> ch_fd c \<Longrightarrow> channels pl' fd = channels pl fd"
    and reg: "chan_reg pl' (kernel_view pl' s') p c'"
  shows "poller_inv {} pl' l s'"
proof -
  have df: "distinct_fds l s'"
    using inv c s' unfolding poller_inv_def distinct_fds_def by (auto split: if_splits)
  have "chan_reg pl' (kernel_view pl' s') q d" if q: "chans s' q = Some d" "ch_loop d = l" for q d
  proof (cases "q = p")
    case True
    with q s' reg show ?thesis by simp
  next
    case False
    with q s' have old: "chans s q = Some d" by simp
    with inv c q False have "ch_fd d \<noteq> ch_fd c"
      unfolding poller_inv_def distinct_fds_def by blast
    moreover have "chan_reg pl (kernel_view pl s) q d"
      using poller_invD(1) [OF inv old q(2)] False by simp
    ultimately show ?thesis using frame [of "ch_fd d"] by (simp add: chan_reg_def)
  qed
  moreover have "\<exists>d. chans s' q = Some d \<and> ch_loop d = l \<and> ch_fd d = fd"
    if q: "kernel_view pl' s' fd = Some (ev, q)" for fd ev q
  proof (cases "fd = ch_fd c")
    case True
    with q reg s' have "q = p" by (auto simp: chan_reg_def)
    with True s' show ?thesis by simp
  next
    case False
    with q frame have "kernel_view pl s fd = Some (ev, q)" by simp
    with inv obtain d where "chans s q = Some d" "ch_loop d = l" "ch_fd d = fd"
      unfolding poller_inv_def by blast
    with False c s' show ?thesis by auto
  qed
  moreover have "\<exists>d. chans s' q = Some d \<and> ch_loop d = l \<and> ch_fd d = fd"
    if q: "channels pl' fd = Some q" for fd q
  proof (cases "fd = ch_fd c")
    case True
    with q reg s' have "q = p" by (auto simp: chan_reg_def)
    with True s' show ?thesis by simp
  next
    case False
    with q frame have "channels pl fd = Some q" by simp
    with inv obtain d where "chans s q = Some d" "ch_loop d = l" "ch_fd d = fd"
      unfolding poller_inv_def by blast
    with False c s' show ?thesis by auto
  qed
  ultimately show ?thesis using df by (simp add: poller_inv_def)
qed

subsection \<open>The operations keep the invariant and do not fail\<close>

lemma kernel_view_simps [simp]:
  "kernel_view pl (put_chan p c s) = kernel_view pl s"
  "kernel_view (pl\<lparr>channels := m\<rparr>) s = kernel_view pl s"
  "kernel_view (pl\<lparr>evlist_size := k\<rparr>) s = kernel_view pl s"
  by (simp_all add: kernel_view_def)

text \<open>A documented kernel accepts the right \<open>epoll_ctl\<close> call and registers what it says.\<close>

lemma poller_update_ok:
  assumes "epoll_ctl_documented os" "chans s p = Some c"
    and "(kernel_view pl s (ch_fd c) = None) = (op = CtlAdd)"
  shows "\<exists>s'. poller_update os me pl op p s = Inr s' \<and> chans s' = chans s \<and>
    kernel_view pl s' = (kernel_view pl s)(ch_fd c :=
      (if op = CtlDel then None else Some (ch_events c, p)))"
proof -
  let ?call = "EpollCtl (epollfd pl) op (ch_fd c) (ch_events c) p"
  let ?s = "snd (do_call os me ?call s)"
  have r: "ret (os (io_trace s) ?call) = 0"
    using assms(1,3) by (simp add: epoll_ctl_documented_def kernel_view_def)
  then have res: "poller_update os me pl op p s = Inr ?s"
    using assms(2) by (simp add: poller_update_def split_beta Let_def)
  have "kernel_view pl ?s = (kernel_view pl s)(ch_fd c :=
      (if op = CtlDel then None else Some (ch_events c, p)))"
    using r by (cases op) (simp_all add: kernel_view_def)
  with res show ?thesis by auto
qed

lemma chan_reg_index: "chan_reg pl m p c \<Longrightarrow> ch_index c \<in> {kNew, kAdded, kDel}"
  by (auto simp: chan_reg_def)

lemma stale_added:
  "chan_reg_stale pl m p c \<Longrightarrow> ch_index c = kAdded \<Longrightarrow>
     \<exists>ev. m (ch_fd c) = Some (ev, p) \<and> channels pl (ch_fd c) = Some p"
  by (auto simp: chan_reg_stale_def chan_reg_def index_states)

lemma stale_not_added:
  "chan_reg_stale pl m p c \<Longrightarrow> ch_index c \<noteq> kAdded \<Longrightarrow>
     m (ch_fd c) = None \<and> (ch_index c = kNew \<and> channels pl (ch_fd c) = None \<or>
       ch_index c = kDel \<and> channels pl (ch_fd c) = Some p)"
  by (auto simp: chan_reg_stale_def chan_reg_def index_states)

text \<open>The index after \<open>updateChannel\<close>.\<close>

definition index_after_update :: "channel \<Rightarrow> int" where
  "index_after_update c = (if ch_index c = kAdded \<and> isNoneEvent c then kDel else kAdded)"

lemma updateChannel_ok:
  assumes doc: "epoll_ctl_documented os" and inv: "poller_inv {p} pl l s"
    and c: "chans s p = Some c" "ch_loop c = l"
  shows "\<exists>pl' s'. poller_updateChannel os me pl p s = Inr (pl', s') \<and> poller_inv {} pl' l s' \<and>
    epollfd pl' = epollfd pl \<and> chans s' = (chans s)(p := Some (c\<lparr>ch_index := index_after_update c\<rparr>))"
proof -
  let ?fd = "ch_fd c"
  have st: "chan_reg_stale pl (kernel_view pl s) p c" using poller_invD(2) [OF inv c] .
  show ?thesis
  proof (cases "ch_index c = kAdded")
    case False
    define pl1 where "pl1 = (if ch_index c = kNew then pl\<lparr>channels := (channels pl)(?fd := Some p)\<rparr> else pl)"
    define s1 where "s1 = put_chan p (c\<lparr>ch_index := kAdded\<rparr>) s"
    from stale_not_added [OF st False] have idx: "ch_index c = kNew \<or> ch_index c = kDel"
      and none: "kernel_view pl s ?fd = None" and ch: "ch_index c = kDel \<Longrightarrow> channels pl ?fd = Some p"
      by (auto simp: index_states)
    have kv: "kernel_view pl1 s1 = kernel_view pl s" "channels pl1 ?fd = Some p" "epollfd pl1 = epollfd pl"
      using ch idx by (auto simp: pl1_def s1_def)
    have "chans s1 p = Some (c\<lparr>ch_index := kAdded\<rparr>)" by (simp add: s1_def)
    from poller_update_ok [OF doc this, of pl1 CtlAdd me] none kv obtain s2 where
      s2: "poller_update os me pl1 CtlAdd p s1 = Inr s2" "chans s2 = chans s1"
        "kernel_view pl1 s2 = (kernel_view pl s)(?fd := Some (ch_events c, p))" by auto
    have "poller_updateChannel os me pl p s = Inr (pl1, s2)"
      using c idx s2(1) by (simp add: poller_updateChannel_def upd_chan_def pl1_def s1_def Let_def)
    moreover have "poller_inv {} pl1 l s2"
    proof (rule poller_inv_update [OF inv c])
      show "chans s2 = (chans s)(p := Some (c\<lparr>ch_index := kAdded\<rparr>))" by (simp add: s2(2) s1_def)
      show "chan_reg pl1 (kernel_view pl1 s2) p (c\<lparr>ch_index := kAdded\<rparr>)"
        by (simp add: chan_reg_def s2(3) kv(2))
      show "kernel_view pl1 s2 fd = kernel_view pl s fd" if "fd \<noteq> ?fd" for fd
        using that by (simp add: s2(3))
    qed (use c in \<open>auto simp: pl1_def\<close>)
    ultimately show ?thesis using False kv(3) by (auto simp: index_after_update_def s2(2) s1_def)
  next
    case True
    with stale_added [OF st] obtain ev where reg: "kernel_view pl s ?fd = Some (ev, p)"
      "channels pl ?fd = Some p" by blast
    let ?op = "if isNoneEvent c then CtlDel else CtlMod" and ?c' = "c\<lparr>ch_index := index_after_update c\<rparr>"
    have "\<exists>s2. poller_update os me pl ?op p s = Inr s2 \<and> chans s2 = chans s \<and>
        kernel_view pl s2 = (kernel_view pl s)(?fd := (if isNoneEvent c then None else Some (ch_events c, p)))"
      using poller_update_ok [OF doc c(1), of pl ?op me] reg by (cases "isNoneEvent c") auto
    then obtain s2 where s2: "poller_update os me pl ?op p s = Inr s2" "chans s2 = chans s"
        "kernel_view pl s2 = (kernel_view pl s)(?fd := (if isNoneEvent c then None else Some (ch_events c, p)))"
      by blast
    define s3 where "s3 = (if isNoneEvent c then put_chan p ?c' s2 else s2)"
    have "c\<lparr>ch_index := kAdded\<rparr> = c" using True by simp
    then have ch: "chans s3 = (chans s)(p := Some ?c')"
      using c True by (auto simp: s3_def s2(2) index_after_update_def)
    have kv: "kernel_view pl s3 = (kernel_view pl s)(?fd := (if isNoneEvent c then None else Some (ch_events c, p)))"
      by (simp add: s3_def s2(3))
    have "poller_updateChannel os me pl p s = Inr (pl, s3)"
      using c True s2(1,2) by (auto simp: poller_updateChannel_def upd_chan_def s3_def Let_def
          index_after_update_def index_states)
    moreover have "poller_inv {} pl l s3"
      by (rule poller_inv_update [OF inv c ch])
        (use c True reg in \<open>auto simp: kv chan_reg_def index_after_update_def\<close>)
    ultimately show ?thesis using ch by blast
  qed
qed

lemma removeChannel_ok:
  assumes doc: "epoll_ctl_documented os" and inv: "poller_inv {p} pl l s"
    and c: "chans s p = Some c" "ch_loop c = l"
  shows "\<exists>pl' s'. poller_removeChannel os me pl p s = Inr (pl', s') \<and> poller_inv {} pl' l s' \<and>
    epollfd pl' = epollfd pl \<and> chans s' = (chans s)(p := Some (c\<lparr>ch_index := kNew\<rparr>)) \<and>
    kernel_view pl' s' (ch_fd c) = None \<and> channels pl' (ch_fd c) = None"
proof -
  let ?fd = "ch_fd c"
  define pl1 where "pl1 = pl\<lparr>channels := (channels pl)(?fd := None)\<rparr>"
  have st: "chan_reg_stale pl (kernel_view pl s) p c" using poller_invD(2) [OF inv c] .
  have "\<exists>s2. (if ch_index c = kAdded then poller_update os me pl1 CtlDel p s else Inr s) = Inr s2 \<and>
      chans s2 = chans s \<and> kernel_view pl1 s2 = (kernel_view pl s)(?fd := None)"
  proof (cases "ch_index c = kAdded")
    case True
    with stale_added [OF st] poller_update_ok [OF doc c(1), of pl1 CtlDel me] show ?thesis
      by (auto simp: pl1_def)
  next
    case False
    with stale_not_added [OF st] have "kernel_view pl s ?fd = None" by blast
    with False show ?thesis by (auto simp: pl1_def)
  qed
  then obtain s2 where s2: "(if ch_index c = kAdded then poller_update os me pl1 CtlDel p s else Inr s) = Inr s2"
    "chans s2 = chans s" "kernel_view pl1 s2 = (kernel_view pl s)(?fd := None)" by blast
  define s3 where "s3 = put_chan p (c\<lparr>ch_index := kNew\<rparr>) s2"
  have ch: "chans s3 = (chans s)(p := Some (c\<lparr>ch_index := kNew\<rparr>))" by (simp add: s3_def s2(2))
  have "poller_removeChannel os me pl p s = Inr (pl1, s3)"
    using c s2(1,2) by (cases "ch_index c = kAdded")
      (simp_all add: poller_removeChannel_def Let_def pl1_def [symmetric] upd_chan_def s3_def)
  moreover have kv: "kernel_view pl1 s3 = (kernel_view pl s)(?fd := None)"
    and ch1: "channels pl1 = (channels pl)(?fd := None)"
    by (simp_all add: s3_def s2(3)) (simp add: pl1_def)
  moreover have "poller_inv {} pl1 l s3"
    by (rule poller_inv_update [OF inv c ch]) (use c in \<open>auto simp: kv ch1 chan_reg_def\<close>)
  moreover have "epollfd pl1 = epollfd pl" by (simp add: pl1_def)
  ultimately show ?thesis using ch by auto
qed

subsection \<open>Waiting for events\<close>

text \<open>
  The manual page of \<open>epoll_wait\<close>: at most \<open>maxevents\<close> events, each with the user data of a
  registered descriptor, one per descriptor, and only events that were asked for or are always
  reported (EPOLLERR, EPOLLHUP).
\<close>

definition epoll_wait_documented :: "os \<Rightarrow> bool" where
  "epoll_wait_documented os \<longleftrightarrow> (\<forall>tr ep n t. let r = os tr (EpollWait ep n t) in
     ret r \<le> int n \<and> (0 < ret r \<longrightarrow> int (length (revs r)) = ret r) \<and>
     distinct (map fst (revs r)) \<and>
     (\<forall>(p, ev) \<in> set (revs r). \<exists>fd m. interest_of ep tr fd = Some (m, p) \<and>
        ev AND NOT (m OR EPOLLERR OR EPOLLHUP) = 0))"

lemma fillActiveChannels_ok:
  assumes "\<forall>(p, ev) \<in> set evs. chans s p \<noteq> None" "distinct (map fst evs)"
  shows "\<exists>s'. fillActiveChannels evs s = Inr (map fst evs, s') \<and> io_trace s' = io_trace s \<and>
    (\<forall>q. chans s' q = (case map_of evs q of None \<Rightarrow> chans s q
       | Some ev \<Rightarrow> map_option (\<lambda>c. c\<lparr>ch_revents := ev\<rparr>) (chans s q)))"
  using assms
proof (induction evs arbitrary: s)
  case Nil
  then show ?case by simp
next
  case (Cons e evs)
  obtain p ev where e: "e = (p, ev)" by (cases e)
  with Cons.prems obtain c where c: "chans s p = Some c" by auto
  define s1 where "s1 = put_chan p (c\<lparr>ch_revents := ev\<rparr>) s"
  have "\<forall>(p, ev) \<in> set evs. chans s1 p \<noteq> None" "distinct (map fst evs)"
    using Cons.prems by (auto simp: s1_def)
  from Cons.IH [OF this] obtain s' where s': "fillActiveChannels evs s1 = Inr (map fst evs, s')"
    "io_trace s' = io_trace s1"
    "\<forall>q. chans s' q = (case map_of evs q of None \<Rightarrow> chans s1 q
       | Some ev \<Rightarrow> map_option (\<lambda>c. c\<lparr>ch_revents := ev\<rparr>) (chans s1 q))" by blast
  have "map_of evs p = None" using Cons.prems e by (simp add: map_of_eq_None_iff)
  with s'(3) c have "chans s' q = (case map_of (e # evs) q of None \<Rightarrow> chans s q
       | Some ev \<Rightarrow> map_option (\<lambda>c. c\<lparr>ch_revents := ev\<rparr>) (chans s q))" for q
    by (auto simp: e s1_def split: option.splits)
  moreover have "fillActiveChannels (e # evs) s = Inr (map fst (e # evs), s')"
    using c s'(1) by (simp add: e upd_chan_def s1_def)
  ultimately show ?case using s'(2) by (simp add: s1_def)
qed

text \<open>The invariant looks at nothing of a channel but its loop, descriptor, mask and index.\<close>

definition chan_sig :: "channel \<Rightarrow> loop_id \<times> int \<times> 32 word \<times> int" where
  "chan_sig c = (ch_loop c, ch_fd c, ch_events c, ch_index c)"

definition same_chans :: "loop_id \<Rightarrow> 'a chan_io_scheme \<Rightarrow> 'b chan_io_scheme \<Rightarrow> bool" where
  "same_chans l s s' \<longleftrightarrow>
     (\<forall>q c. chans s q = Some c \<longrightarrow> ch_loop c = l \<longrightarrow> (\<exists>c'. chans s' q = Some c' \<and> chan_sig c' = chan_sig c)) \<and>
     (\<forall>q c'. chans s' q = Some c' \<longrightarrow> ch_loop c' = l \<longrightarrow> (\<exists>c. chans s q = Some c \<and> chan_sig c' = chan_sig c))"

lemma poller_inv_cong:
  assumes inv: "poller_inv {} pl l s" and kv: "kernel_view pl' s' = kernel_view pl s"
    and ch: "channels pl' = channels pl" and same: "same_chans l s s'"
  shows "poller_inv {} pl' l s'"
proof -
  have old: "\<exists>c. chans s q = Some c \<and> ch_loop c = l \<and> chan_sig c' = chan_sig c" if "chans s' q = Some c'" "ch_loop c' = l" for q c'
    using same that unfolding same_chans_def chan_sig_def by fastforce
  have new: "\<exists>c'. chans s' q = Some c' \<and> ch_loop c' = l \<and> ch_fd c' = ch_fd c" if "chans s q = Some c" "ch_loop c = l" for q c
    using same that unfolding same_chans_def chan_sig_def by fastforce
  have "distinct_fds l s'"
    using inv old unfolding poller_inv_def distinct_fds_def chan_sig_def prod.inject by (elim conjE) metis
  moreover have "chan_reg pl' (kernel_view pl' s') q c'" if q: "chans s' q = Some c'" "ch_loop c' = l" for q c'
  proof -
    from old [OF q] obtain c where c: "chans s q = Some c" "ch_loop c = l" "chan_sig c' = chan_sig c" by blast
    then show ?thesis using poller_invD(1) [OF inv c(1,2)] by (simp add: chan_reg_def kv ch chan_sig_def)
  qed
  moreover have "\<exists>c. chans s' p = Some c \<and> ch_loop c = l \<and> ch_fd c = fd"
    if "kernel_view pl' s' fd = Some (ev, p)" for fd ev p
    using inv new that unfolding poller_inv_def kv by metis
  moreover have "\<exists>c. chans s' p = Some c \<and> ch_loop c = l \<and> ch_fd c = fd"
    if "channels pl' fd = Some p" for fd p
    using inv new that unfolding poller_inv_def ch by metis
  ultimately show ?thesis by (simp add: poller_inv_def)
qed

lemma same_chans_refl [simp]: "chans s' = chans s \<Longrightarrow> same_chans l s s'"
  by (simp add: same_chans_def)

text \<open>Reporting events changes no registration.\<close>

lemma same_chans_revents:
  "(\<And>q. chans s' q = map_option (\<lambda>c. c\<lparr>ch_revents := f q c\<rparr>) (chans s q)) \<Longrightarrow> same_chans l s s'"
  by (auto simp: same_chans_def chan_sig_def)

definition allowed_events :: "channel \<Rightarrow> bool" where
  "allowed_events c \<longleftrightarrow> ch_revents c AND NOT (ch_events c OR EPOLLERR OR EPOLLHUP) = 0"

lemma poller_poll_ok:
  assumes doc: "epoll_wait_documented os" and inv: "poller_inv {} pl l s"
  shows "\<exists>pl' active now s'. poller_poll os me pl t s = Inr (pl', active, now, s') \<and>
    poller_inv {} pl' l s' \<and> epollfd pl' = epollfd pl \<and> distinct active \<and>
    length active \<le> evlist_size pl \<and>
    evlist_size pl' = (if active \<noteq> [] \<and> length active = evlist_size pl then evlist_size pl * 2
                       else evlist_size pl) \<and>
    (\<forall>p \<in> set active. \<exists>c r. chans s' p = Some c \<and> ch_loop c = l \<and> ch_index c = kAdded \<and>
       allowed_events c \<and> chans s p = Some (c\<lparr>ch_revents := r\<rparr>)) \<and>
    (\<forall>p. p \<notin> set active \<longrightarrow> chans s' p = chans s p)"
proof -
  let ?call = "EpollWait (epollfd pl) (evlist_size pl) t"
  define r where "r = os (io_trace s) ?call"
  define s1 where "s1 = snd (do_call os me TimeNow (snd (do_call os me ?call s)))"
  define now where "now = ret (os (io_trace s @ [(me, ?call, r)]) TimeNow)"
  have kv1: "kernel_view pl s1 = kernel_view pl s" and ch1: "chans s1 = chans s"
    by (simp_all add: s1_def kernel_view_def)
  from doc have d: "ret r \<le> int (evlist_size pl)" "0 < ret r \<longrightarrow> int (length (revs r)) = ret r"
    "distinct (map fst (revs r))"
    "\<forall>(p, ev) \<in> set (revs r). \<exists>fd m. kernel_view pl s fd = Some (m, p) \<and>
        ev AND NOT (m OR EPOLLERR OR EPOLLHUP) = 0"
    unfolding epoll_wait_documented_def kernel_view_def r_def Let_def by blast+
  have live: "\<exists>c. chans s p = Some c \<and> ch_loop c = l \<and> ch_index c = kAdded \<and>
      ev AND NOT (ch_events c OR EPOLLERR OR EPOLLHUP) = 0" if "(p, ev) \<in> set (revs r)" for p ev
  proof -
    from that d(4) obtain fd m where m: "kernel_view pl s fd = Some (m, p)"
      "ev AND NOT (m OR EPOLLERR OR EPOLLHUP) = 0" by blast
    with inv obtain c where c: "chans s p = Some c" "ch_loop c = l" "ch_fd c = fd"
      unfolding poller_inv_def by blast
    with m poller_invD(1) [OF inv c(1,2)] show ?thesis by (auto simp: chan_reg_def)
  qed
  show ?thesis
  proof (cases "0 < ret r")
    case True
    then have n: "take (nat (ret r)) (revs r) = revs r" "nat (ret r) = length (revs r)"
      using d(2) by (metis nat_int order_refl take_all)+
    have "\<forall>(p, ev) \<in> set (revs r). chans s1 p \<noteq> None" using live ch1 by fastforce
    from fillActiveChannels_ok [OF this d(3)] obtain s' where
      s': "fillActiveChannels (revs r) s1 = Inr (map fst (revs r), s')" "io_trace s' = io_trace s1"
      "\<forall>q. chans s' q = (case map_of (revs r) q of None \<Rightarrow> chans s1 q
         | Some ev \<Rightarrow> map_option (\<lambda>c. c\<lparr>ch_revents := ev\<rparr>) (chans s1 q))" by blast
    define pl' where "pl' = (if length (revs r) = evlist_size pl then pl\<lparr>evlist_size := evlist_size pl * 2\<rparr> else pl)"
    have res: "poller_poll os me pl t s = Inr (pl', map fst (revs r), now, s')"
      using True n s'(1) by (simp add: poller_poll_def split_beta Let_def r_def [symmetric] s1_def
          [symmetric] now_def [symmetric] pl'_def)
    have "poller_inv {} pl' l s'"
    proof (rule poller_inv_cong [OF inv])
      show "kernel_view pl' s' = kernel_view pl s" using s'(2) kv1 by (simp add: kernel_view_def pl'_def)
      show "same_chans l s s'"
        by (rule same_chans_revents [where f = "\<lambda>q c. case map_of (revs r) q of None \<Rightarrow> ch_revents c | Some ev \<Rightarrow> ev"])
          (use s'(3) ch1 in \<open>auto split: option.splits simp: option.map_ident_strong\<close>)
    qed (simp add: pl'_def)
    moreover have "\<exists>c r. chans s' p = Some c \<and> ch_loop c = l \<and> ch_index c = kAdded \<and> allowed_events c \<and>
        chans s p = Some (c\<lparr>ch_revents := r\<rparr>)" if "p \<in> set (map fst (revs r))" for p
    proof -
      from that d(3) obtain ev where ev: "(p, ev) \<in> set (revs r)" "map_of (revs r) p = Some ev" by auto
      from live [OF ev(1)] obtain c where c: "chans s p = Some c" "ch_loop c = l" "ch_index c = kAdded"
        "ev AND NOT (ch_events c OR EPOLLERR OR EPOLLHUP) = 0" by blast
      have "chans s p = Some (c\<lparr>ch_revents := ev, ch_revents := ch_revents c\<rparr>)" using c by simp
      moreover have "chans s' p = Some (c\<lparr>ch_revents := ev\<rparr>)" using s'(3) ev ch1 c by simp
      ultimately show ?thesis using c by (fastforce simp: allowed_events_def)
    qed
    moreover have "chans s' p = chans s p" if "p \<notin> set (map fst (revs r))" for p
      using that s'(3) ch1 map_of_eq_None_iff [of "revs r" p] by simp
    moreover have "length (revs r) \<le> evlist_size pl" "revs r \<noteq> []" using d(1,2) True by auto
    ultimately show ?thesis using res d(3) by (auto simp: pl'_def)
  next
    case False
    have res: "poller_poll os me pl t s = Inr (pl, [], now, s1)"
      using False by (simp add: poller_poll_def split_beta Let_def r_def [symmetric] s1_def
          [symmetric] now_def [symmetric])
    have "poller_inv {} pl l s1"
      using inv by (simp add: poller_inv_def distinct_fds_def kv1 ch1)
    with res ch1 show ?thesis by auto
  qed
qed

text \<open>Allowed events ask only for callbacks that the mask of the channel wants.\<close>

lemma allowed_mask:
  assumes "allowed_events c" "m AND (EPOLLERR OR EPOLLHUP) = 0" "ch_revents c AND m \<noteq> 0"
  shows "ch_events c AND m \<noteq> 0"
proof
  assume none: "ch_events c AND m = 0"
  have "\<not> bit (ch_revents c AND m) n" for n
  proof -
    have b: "bit (ch_revents c AND NOT (ch_events c OR EPOLLERR OR EPOLLHUP)) n = False"
      "bit (ch_events c AND m) n = False" "bit (m AND (EPOLLERR OR EPOLLHUP)) n = False"
      using assms(1,2) none unfolding allowed_events_def by simp_all
    show ?thesis
    proof (cases "n < 32")
      case True
      with b show ?thesis by (auto simp: bit_simps)
    next
      case False
      then show ?thesis using bit_imp_le_length by fastforce
    qed
  qed
  then have "ch_revents c AND m = 0" by (simp add: bit_eq_iff)
  with assms(3) show False by simp
qed

lemma allowed_write: "allowed_events c \<Longrightarrow> wants_write (ch_revents c) \<Longrightarrow> isWriting c"
  using allowed_mask [of c kWriteEvent]
  by (simp add: wants_write_def isWriting_def channel_masks epoll_bits)

lemma allowed_read: "allowed_events c \<Longrightarrow> wants_read (ch_revents c) \<Longrightarrow> isReading c"
  using allowed_mask [of c kReadEvent]
  by (simp add: wants_read_def isReading_def channel_masks epoll_bits)

end
