(* ===== verification/EventLoop.thy ===== *)
theory EventLoop
  imports Poller
begin

section \<open>The event loop (Eventloop.h, Eventloop.cpp)\<close>

text \<open>
  A loop owns a poller, an eventfd with its channel and the queue of functors that other
  threads (or its own callbacks) leave for it. Loops live in a store like the channels. Every
  operation takes the thread \<open>me\<close> that executes it, which is what \<open>CurrentThread::tid()\<close>
  returns. What a callback and a functor do is given as an argument (\<open>run\<close>), as the code calls
  them through \<open>std::function\<close>.
\<close>

subsection \<open>State\<close>

record eventloop =
  looping :: bool
  quit_flag :: bool
  threadId :: tid
  pollReturnTime :: int
  loop_poller :: "poller option"
  wakeFd :: int
  wakeupChannel :: chan_id
  activeChannels :: "chan_id list"
  callingPendingFunctors :: bool
  pendingFunctors :: "Functor list"

record reactor = chan_io +
  loops :: "loop_id \<Rightarrow> eventloop option"
  t_loopInthisThread :: "tid \<Rightarrow> loop_id option"

definition kPollTimeMS :: int where "kPollTimeMS = 10000"

definition get_loop :: "'a reactor_scheme \<Rightarrow> loop_id \<Rightarrow> eventloop res" where
  "get_loop s l = (case loops s l of None \<Rightarrow> Inl UseAfterFree | Some lp \<Rightarrow> Inr lp)"

definition put_loop :: "loop_id \<Rightarrow> eventloop \<Rightarrow> 'a reactor_scheme \<Rightarrow> 'a reactor_scheme" where
  "put_loop l lp s = s\<lparr>loops := (loops s)(l := Some lp)\<rparr>"

definition upd_loop :: "loop_id \<Rightarrow> (eventloop \<Rightarrow> eventloop) \<Rightarrow> 'a reactor_scheme \<Rightarrow> 'a reactor_scheme res" where
  "upd_loop l f s = rbind (get_loop s l) (\<lambda>lp. Inr (put_loop l (f lp) s))"

definition get_poller :: "'a reactor_scheme \<Rightarrow> loop_id \<Rightarrow> poller res" where
  "get_poller s l = rbind (get_loop s l) (\<lambda>lp.
     case loop_poller lp of None \<Rightarrow> Inl NullDeref | Some pl \<Rightarrow> Inr pl)"

definition set_poller :: "loop_id \<Rightarrow> poller \<Rightarrow> 'a reactor_scheme \<Rightarrow> 'a reactor_scheme res" where
  "set_poller l pl = upd_loop l (\<lambda>lp. lp\<lparr>loop_poller := Some pl\<rparr>)"

definition isInLoopThread :: "tid \<Rightarrow> eventloop \<Rightarrow> bool" where
  "isInLoopThread me lp \<longleftrightarrow> threadId lp = me"

subsection \<open>Registering channels\<close>

definition updateChannel :: "os \<Rightarrow> tid \<Rightarrow> loop_id \<Rightarrow> chan_id \<Rightarrow> 'a reactor_scheme \<Rightarrow> 'a reactor_scheme res" where
  "updateChannel os me l p s =
     rbind (get_poller s l) (\<lambda>pl.
     rbind (poller_updateChannel os me pl p s) (\<lambda>(pl, s). set_poller l pl s))"

definition removeChannel :: "os \<Rightarrow> tid \<Rightarrow> loop_id \<Rightarrow> chan_id \<Rightarrow> 'a reactor_scheme \<Rightarrow> 'a reactor_scheme res" where
  "removeChannel os me l p s =
     rbind (get_poller s l) (\<lambda>pl.
     rbind (poller_removeChannel os me pl p s) (\<lambda>(pl, s). set_poller l pl s))"

definition loop_hasChannel :: "loop_id \<Rightarrow> chan_id \<Rightarrow> 'a reactor_scheme \<Rightarrow> bool res" where
  "loop_hasChannel l p s = rbind (get_poller s l) (\<lambda>pl. hasChannel pl p s)"

text \<open>\<open>Channel::update\<close>, \<open>Channel::remove\<close> and \<open>enableReading\<close> with its four kin.\<close>

definition channel_update :: "os \<Rightarrow> tid \<Rightarrow> chan_id \<Rightarrow> 'a reactor_scheme \<Rightarrow> 'a reactor_scheme res" where
  "channel_update os me p s = rbind (get_chan s p) (\<lambda>c. updateChannel os me (ch_loop c) p s)"

definition channel_remove :: "os \<Rightarrow> tid \<Rightarrow> chan_id \<Rightarrow> 'a reactor_scheme \<Rightarrow> 'a reactor_scheme res" where
  "channel_remove os me p s = rbind (get_chan s p) (\<lambda>c. removeChannel os me (ch_loop c) p s)"

definition set_events ::
    "os \<Rightarrow> tid \<Rightarrow> event_change \<Rightarrow> chan_id \<Rightarrow> 'a reactor_scheme \<Rightarrow> 'a reactor_scheme res" where
  "set_events os me ch p s =
     rbind (upd_chan p (\<lambda>c. c\<lparr>ch_events := change_events ch (ch_events c)\<rparr>) s)
           (channel_update os me p)"

subsection \<open>Queueing work\<close>

definition eventfd_one :: "byte list" where "eventfd_one = [1, 0, 0, 0, 0, 0, 0, 0]"

definition wakeup :: "os \<Rightarrow> tid \<Rightarrow> loop_id \<Rightarrow> 'a reactor_scheme \<Rightarrow> 'a reactor_scheme res" where
  "wakeup os me l s = rbind (get_loop s l) (\<lambda>lp.
     Inr (snd (do_call os me (WriteFd (wakeFd lp) eventfd_one) s)))"

definition loop_handleRead :: "os \<Rightarrow> tid \<Rightarrow> loop_id \<Rightarrow> 'a reactor_scheme \<Rightarrow> 'a reactor_scheme res" where
  "loop_handleRead os me l s = rbind (get_loop s l) (\<lambda>lp.
     Inr (snd (do_call os me (ReadFd (wakeFd lp) 8) s)))"

text \<open>\<open>queueInLoop\<close>: the block under the mutex, then the wakeup.\<close>

definition push_functor :: "loop_id \<Rightarrow> Functor \<Rightarrow> 'a reactor_scheme \<Rightarrow> 'a reactor_scheme res" where
  "push_functor l f = upd_loop l (\<lambda>lp. lp\<lparr>pendingFunctors := pendingFunctors lp @ [f]\<rparr>)"

definition must_wake :: "tid \<Rightarrow> eventloop \<Rightarrow> bool" where
  "must_wake me lp \<longleftrightarrow> \<not> isInLoopThread me lp \<or> callingPendingFunctors lp"

definition queueInLoop :: "os \<Rightarrow> tid \<Rightarrow> loop_id \<Rightarrow> Functor \<Rightarrow> 'a reactor_scheme \<Rightarrow> 'a reactor_scheme res" where
  "queueInLoop os me l f s =
     rbind (push_functor l f s) (\<lambda>s.
     rbind (get_loop s l) (\<lambda>lp.
     if must_wake me lp then wakeup os me l s else Inr s))"

text \<open>\<open>runInLoop\<close>: \<open>run\<close> is what calling the functor does.\<close>

definition runInLoop :: "os \<Rightarrow> tid \<Rightarrow> (Functor \<Rightarrow> 'a reactor_scheme \<Rightarrow> 'a reactor_scheme res) \<Rightarrow>
    loop_id \<Rightarrow> Functor \<Rightarrow> 'a reactor_scheme \<Rightarrow> 'a reactor_scheme res" where
  "runInLoop os me run l f s = rbind (get_loop s l) (\<lambda>lp.
     if isInLoopThread me lp then run f s else queueInLoop os me l f s)"

definition quit :: "os \<Rightarrow> tid \<Rightarrow> loop_id \<Rightarrow> 'a reactor_scheme \<Rightarrow> 'a reactor_scheme res" where
  "quit os me l s =
     rbind (upd_loop l (\<lambda>lp. lp\<lparr>quit_flag := True\<rparr>) s) (\<lambda>s.
     rbind (get_loop s l) (\<lambda>lp.
     if \<not> isInLoopThread me lp then wakeup os me l s else Inr s))"

subsection \<open>Running\<close>

text \<open>
  \<open>doPendingFunctors\<close>: set the flag, swap the queue out, run what was in it, clear the flag.
  \<open>drop_refs\<close> is what destroying the local vector does: the functors own references.
\<close>

definition swap_pending :: "loop_id \<Rightarrow> 'a reactor_scheme \<Rightarrow> (Functor list \<times> 'a reactor_scheme) res" where
  "swap_pending l s = rbind (get_loop s l) (\<lambda>lp.
     Inr (pendingFunctors lp, put_loop l (lp\<lparr>pendingFunctors := []\<rparr>) s))"

definition set_calling :: "bool \<Rightarrow> loop_id \<Rightarrow> 'a reactor_scheme \<Rightarrow> 'a reactor_scheme res" where
  "set_calling b l = upd_loop l (\<lambda>lp. lp\<lparr>callingPendingFunctors := b\<rparr>)"

definition doPendingFunctors :: "(Functor \<Rightarrow> 'a reactor_scheme \<Rightarrow> 'a reactor_scheme res) \<Rightarrow>
    (Functor list \<Rightarrow> 'a reactor_scheme \<Rightarrow> 'a reactor_scheme res) \<Rightarrow> loop_id \<Rightarrow>
    'a reactor_scheme \<Rightarrow> 'a reactor_scheme res" where
  "doPendingFunctors run drop_refs l s =
     rbind (set_calling True l s) (\<lambda>s.
     rbind (swap_pending l s) (\<lambda>(functors, s).
     rbind (foldr_res run functors s) (\<lambda>s.
     rbind (set_calling False l s) (\<lambda>s.
     drop_refs functors s))))"

text \<open>One turn of the \<open>while\<close> loop of \<open>loop\<close>.\<close>

definition poll_phase :: "os \<Rightarrow> tid \<Rightarrow> loop_id \<Rightarrow> 'a reactor_scheme \<Rightarrow> (chan_id list \<times> int \<times> 'a reactor_scheme) res" where
  "poll_phase os me l s =
     rbind (upd_loop l (\<lambda>lp. lp\<lparr>activeChannels := []\<rparr>) s) (\<lambda>s.
     rbind (get_poller s l) (\<lambda>pl.
     rbind (poller_poll os me pl kPollTimeMS s) (\<lambda>(pl, active, now, s).
     rbind (upd_loop l (\<lambda>lp. lp\<lparr>loop_poller := Some pl, activeChannels := active, pollReturnTime := now\<rparr>) s)
       (\<lambda>s. Inr (active, now, s)))))"

definition loop_turn ::
    "os \<Rightarrow> tid \<Rightarrow> (conn_id \<Rightarrow> 'a reactor_scheme \<Rightarrow> bool) \<Rightarrow>
     (channel_cb \<Rightarrow> int \<Rightarrow> 'a reactor_scheme \<Rightarrow> 'a reactor_scheme res) \<Rightarrow>
     (Functor \<Rightarrow> 'a reactor_scheme \<Rightarrow> 'a reactor_scheme res) \<Rightarrow>
     (Functor list \<Rightarrow> 'a reactor_scheme \<Rightarrow> 'a reactor_scheme res) \<Rightarrow> loop_id \<Rightarrow>
     'a reactor_scheme \<Rightarrow> 'a reactor_scheme res" where
  "loop_turn os me alive run_cb run drop_refs l s =
     rbind (poll_phase os me l s) (\<lambda>(active, now, s).
     rbind (foldr_res (\<lambda>p. handleEvent alive run_cb p now) active s) (\<lambda>s.
     doPendingFunctors run drop_refs l s))"

text \<open>
  \<open>loop\<close>: \<open>while (!quit_)\<close> with a bound on the number of turns; \<open>None\<close> means that the loop is
  still running when the bound is used up.
\<close>

fun loop_while :: "('a reactor_scheme \<Rightarrow> 'a reactor_scheme res) \<Rightarrow> loop_id \<Rightarrow> nat \<Rightarrow> 'a reactor_scheme \<Rightarrow>
    'a reactor_scheme res option" where
  "loop_while turn l n s = (case get_loop s l of
     Inl e \<Rightarrow> Some (Inl e)
   | Inr lp \<Rightarrow> if quit_flag lp then Some (Inr s)
       else case n of 0 \<Rightarrow> None
         | Suc k \<Rightarrow> (case turn s of Inl e \<Rightarrow> Some (Inl e) | Inr s' \<Rightarrow> loop_while turn l k s'))"

declare loop_while.simps [simp del]

definition loop_enter :: "loop_id \<Rightarrow> 'a reactor_scheme \<Rightarrow> 'a reactor_scheme res" where
  "loop_enter l = upd_loop l (\<lambda>lp. lp\<lparr>looping := True, quit_flag := False\<rparr>)"

definition loop_leave :: "loop_id \<Rightarrow> 'a reactor_scheme \<Rightarrow> 'a reactor_scheme res" where
  "loop_leave l = upd_loop l (\<lambda>lp. lp\<lparr>looping := False\<rparr>)"

definition loop :: "('a reactor_scheme \<Rightarrow> 'a reactor_scheme res) \<Rightarrow> loop_id \<Rightarrow> nat \<Rightarrow> 'a reactor_scheme \<Rightarrow>
    'a reactor_scheme res option" where
  "loop turn l n s = (case loop_enter l s of
     Inl e \<Rightarrow> Some (Inl e)
   | Inr s \<Rightarrow> map_option (\<lambda>r. rbind r (loop_leave l)) (loop_while turn l n s))"

subsection \<open>Construction and destruction\<close>

definition createEventfd :: "os \<Rightarrow> tid \<Rightarrow> 'a reactor_scheme \<Rightarrow> (int \<times> 'a reactor_scheme) res" where
  "createEventfd os me s =
     (let (r, s) = do_call os me EventFd s in
      if ret r < 0 then Inl FatalExit else Inr (ret r, s))"

text \<open>\<open>l\<close> and \<open>p\<close> are the addresses of the new loop and of its wakeup channel.\<close>

definition mkEventLoop :: "os \<Rightarrow> tid \<Rightarrow> bool \<Rightarrow> loop_id \<Rightarrow> chan_id \<Rightarrow> 'a reactor_scheme \<Rightarrow> 'a reactor_scheme res" where
  "mkEventLoop os me use_poll l p s =
     rbind (newDefaultPoller os me use_poll s) (\<lambda>(pl, s).
     rbind (createEventfd os me s) (\<lambda>(wfd, s).
     let s = put_chan p (mkChannel l wfd) s;
         s = put_loop l \<lparr>looping = False, quit_flag = False, threadId = me, pollReturnTime = 0,
               loop_poller = pl, wakeFd = wfd, wakeupChannel = p, activeChannels = [],
               callingPendingFunctors = False, pendingFunctors = []\<rparr> s in
     if t_loopInthisThread s me \<noteq> None then Inl FatalExit
     else let s = s\<lparr>t_loopInthisThread := (t_loopInthisThread s)(me := Some l)\<rparr> in
       rbind (upd_chan p (\<lambda>c. setReadCallback (LoopHandleRead l) c) s)
             (set_events os me EnableReading p)))"

definition closeEventLoop :: "os \<Rightarrow> tid \<Rightarrow> loop_id \<Rightarrow> 'a reactor_scheme \<Rightarrow> 'a reactor_scheme res" where
  "closeEventLoop os me l s =
     rbind (get_loop s l) (\<lambda>lp.
     rbind (set_events os me DisableAll (wakeupChannel lp) s) (\<lambda>s.
     rbind (channel_remove os me (wakeupChannel lp) s) (\<lambda>s.
     let s = snd (do_call os me (CloseFd (wakeFd lp)) s);
         s = s\<lparr>t_loopInthisThread := (t_loopInthisThread s)(me := None)\<rparr>;
         s = s\<lparr>chans := (chans s)(wakeupChannel lp := None)\<rparr>;
         s = (case loop_poller lp of None \<Rightarrow> s | Some pl \<Rightarrow> closeEpollPoller os me pl s) in
     Inr (s\<lparr>loops := (loops s)(l := None)\<rparr>))))"

subsection \<open>Access and frames\<close>

lemma get_loop_eq_Inr [simp]: "get_loop s l = Inr lp \<longleftrightarrow> loops s l = Some lp"
  by (simp add: get_loop_def split: option.splits)

lemma get_loop_Some [simp]: "loops s l = Some lp \<Longrightarrow> get_loop s l = Inr lp"
  by simp

lemma get_loop_None [simp]: "loops s l = None \<Longrightarrow> get_loop s l = Inl UseAfterFree"
  by (simp add: get_loop_def)

lemma put_loop_simps [simp]:
  "loops (put_loop l lp s) = (loops s)(l := Some lp)"
  "chans (put_loop l lp s) = chans s"
  "io_trace (put_loop l lp s) = io_trace s"
  "t_loopInthisThread (put_loop l lp s) = t_loopInthisThread s"
  "reactor.more (put_loop l lp s) = reactor.more s"
  by (simp_all add: put_loop_def)

lemma upd_loop_Some [simp]: "loops s l = Some lp \<Longrightarrow> upd_loop l f s = Inr (put_loop l (f lp) s)"
  by (simp add: upd_loop_def)

lemma upd_loop_eq_Inr: "upd_loop l f s = Inr s' \<longleftrightarrow> (\<exists>lp. loops s l = Some lp \<and> s' = put_loop l (f lp) s)"
  by (auto simp: upd_loop_def rbind_eq_Inr)

lemma chan_ops_loops [simp]:
  "loops (put_chan p c s) = loops s"
  "t_loopInthisThread (put_chan p c s) = t_loopInthisThread s"
  "reactor.more (put_chan p c s) = reactor.more s"
  "loops (snd (do_call os me k s)) = loops s"
  "t_loopInthisThread (snd (do_call os me k s)) = t_loopInthisThread s"
  "reactor.more (snd (do_call os me k s)) = reactor.more s"
  by (simp_all add: put_chan_def do_call_def Let_def)

text \<open>The poller works below the loops: it changes nothing in them.\<close>

definition same_above :: "'a reactor_scheme \<Rightarrow> 'a reactor_scheme \<Rightarrow> bool" where
  "same_above s s' \<longleftrightarrow> loops s' = loops s \<and> t_loopInthisThread s' = t_loopInthisThread s \<and>
     reactor.more s' = reactor.more s"

lemma poller_update_frame: "poller_update os me pl op p s = Inr s' \<Longrightarrow> same_above s s'"
  by (auto simp: poller_update_def rbind_eq_Inr Let_def split_beta same_above_def split: if_splits)

lemma poller_updateChannel_frame:
  "poller_updateChannel os me pl p s = Inr (pl', s') \<Longrightarrow> same_above s s'"
  by (auto simp: poller_updateChannel_def rbind_eq_Inr Let_def upd_chan_def same_above_def
      split: if_splits dest!: poller_update_frame)

lemma poller_removeChannel_frame:
  "poller_removeChannel os me pl p s = Inr (pl', s') \<Longrightarrow> same_above s s'"
  by (auto simp: poller_removeChannel_def rbind_eq_Inr Let_def upd_chan_def same_above_def
      split: if_splits dest!: poller_update_frame)

lemma fillActiveChannels_frame: "fillActiveChannels evs s = Inr (a, s') \<Longrightarrow> same_above s s'"
proof (induction evs arbitrary: s a)
  case Nil
  then show ?case by (simp add: same_above_def)
next
  case (Cons e evs)
  then show ?case
    by (cases e) (fastforce simp: rbind_eq_Inr upd_chan_def same_above_def)
qed

lemma poller_poll_frame: "poller_poll os me pl t s = Inr (pl', a, now, s') \<Longrightarrow> same_above s s'"
  by (auto simp: poller_poll_def rbind_eq_Inr Let_def split_beta same_above_def
      split: if_splits dest!: fillActiveChannels_frame)

subsection \<open>The registry: channels through the loop\<close>

text \<open>
  \<open>reg_inv os l s\<close>: the loop \<open>l\<close> has a poller whose registrations agree with its channels, and
  the kernel behaves as documented.
\<close>

definition reg_inv_except :: "os \<Rightarrow> chan_id set \<Rightarrow> loop_id \<Rightarrow> 'a reactor_scheme \<Rightarrow> bool" where
  "reg_inv_except os X l s \<longleftrightarrow> epoll_ctl_documented os \<and>
     (\<exists>lp pl. loops s l = Some lp \<and> loop_poller lp = Some pl \<and> poller_inv X pl l s)"

definition reg_inv :: "os \<Rightarrow> loop_id \<Rightarrow> 'a reactor_scheme \<Rightarrow> bool" where
  "reg_inv os l s \<longleftrightarrow> reg_inv_except os {} l s"

text \<open>What the registry of a loop depends on.\<close>

lemma reg_inv_cong:
  assumes "reg_inv os l s" "loops s l = Some lp" "loop_poller lp = Some pl" "loops s' l = Some lp'"
    "loop_poller lp' = Some pl'" "epollfd pl' = epollfd pl" "channels pl' = channels pl"
    "interest_of (epollfd pl) (io_trace s') = interest_of (epollfd pl) (io_trace s)" "same_chans l s s'"
  shows "reg_inv os l s'"
proof -
  have inv: "poller_inv {} pl l s" using assms(1-3) by (auto simp: reg_inv_def reg_inv_except_def)
  have "poller_inv {} pl' l s'"
    by (rule poller_inv_cong [OF inv _ assms(7,9)]) (use assms(6,8) in \<open>simp add: kernel_view_def\<close>)
  with assms(1,4,5) show ?thesis by (auto simp: reg_inv_def reg_inv_except_def)
qed

definition chan_of :: "loop_id \<Rightarrow> 'a reactor_scheme \<Rightarrow> chan_id \<Rightarrow> channel option" where
  "chan_of l s p = (case chans s p of None \<Rightarrow> None | Some c \<Rightarrow> if ch_loop c = l then Some c else None)"

lemma chan_of_eq_Some [simp]: "chan_of l s p = Some c \<longleftrightarrow> chans s p = Some c \<and> ch_loop c = l"
  by (auto simp: chan_of_def split: option.splits if_splits)

text \<open>What the kernel has for a channel of the loop: the mask under its descriptor.\<close>

definition registered :: "loop_id \<Rightarrow> 'a reactor_scheme \<Rightarrow> chan_id \<Rightarrow> 32 word option" where
  "registered l s p = (case (loops s l, chan_of l s p) of
     (Some lp, Some c) \<Rightarrow> (case loop_poller lp of None \<Rightarrow> None
        | Some pl \<Rightarrow> map_option fst (kernel_view pl s (ch_fd c)))
   | _ \<Rightarrow> None)"

lemma registered_eq:
  assumes "loops s l = Some lp" "loop_poller lp = Some pl" "chans s p = Some c" "ch_loop c = l"
  shows "registered l s p = map_option fst (kernel_view pl s (ch_fd c))"
  using assms by (simp add: registered_def chan_of_def)

lemma registered_index:
  assumes "loops s l = Some lp" "loop_poller lp = Some pl" "poller_inv {} pl l s"
    "chans s p = Some c" "ch_loop c = l"
  shows "registered l s p = (if ch_index c = kAdded then Some (ch_events c) else None)"
  using poller_invD(1) [OF assms(3-5)] registered_eq [OF assms(1,2,4,5)]
  by (auto simp: chan_reg_def index_states)

text \<open>
  What an operation on channel \<open>p\<close> may change above the poller: nothing but the poller of the
  loop.
\<close>

definition only_poller :: "loop_id \<Rightarrow> 'a reactor_scheme \<Rightarrow> 'a reactor_scheme \<Rightarrow> bool" where
  "only_poller l s s' \<longleftrightarrow> (\<exists>lp pl. loops s l = Some lp \<and>
     loops s' = (loops s)(l := Some (lp\<lparr>loop_poller := Some pl\<rparr>))) \<and>
     t_loopInthisThread s' = t_loopInthisThread s \<and> reactor.more s' = reactor.more s"

lemma poller_inv_change_events:
  assumes "poller_inv {} pl l s" "chans s p = Some c" "ch_loop c = l"
  shows "poller_inv {p} pl l (put_chan p (c\<lparr>ch_events := ev\<rparr>) s)"
proof -
  let ?s = "put_chan p (c\<lparr>ch_events := ev\<rparr>) s"
  have stale: "chan_reg_stale pl (kernel_view pl s) p (c\<lparr>ch_events := ev\<rparr>)"
    unfolding chan_reg_stale_def using poller_invD(1) [OF assms]
    by (intro exI [of _ "ch_events c"]) simp
  have old: "\<exists>d'. chans s q = Some d' \<and> ch_loop d' = ch_loop d \<and> ch_fd d' = ch_fd d" if "chans ?s q = Some d" for q d
    using that assms(2) by (auto split: if_splits)
  have new: "\<exists>d'. chans ?s q = Some d' \<and> ch_loop d' = ch_loop d \<and> ch_fd d' = ch_fd d" if "chans s q = Some d" for q d
    using that assms(2) by auto
  have "distinct_fds l ?s" using assms(1) old unfolding poller_inv_def distinct_fds_def by (elim conjE) metis
  moreover have "if q \<in> {p} then chan_reg_stale pl (kernel_view pl ?s) q d else chan_reg pl (kernel_view pl ?s) q d"
    if "chans ?s q = Some d" "ch_loop d = l" for q d
    using that stale poller_invD(1) [OF assms(1)] by (auto split: if_splits)
  moreover have "\<exists>d. chans ?s q = Some d \<and> ch_loop d = l \<and> ch_fd d = fd"
    if "kernel_view pl ?s fd = Some (e, q) \<or> channels pl fd = Some q" for fd e q
    using assms(1) that new unfolding poller_inv_def kernel_view_simps by metis
  ultimately show ?thesis unfolding poller_inv_def by blast
qed

lemma poller_inv_loops [simp]:
  "poller_inv X pl l (put_loop k lp s) = poller_inv X pl l s"
  by (simp add: poller_inv_def distinct_fds_def kernel_view_def)

lemma updateChannel_reg:
  assumes "reg_inv_except os {p} l s" "chans s p = Some c" "ch_loop c = l"
  shows "\<exists>s'. channel_update os me p s = Inr s' \<and> reg_inv os l s' \<and> only_poller l s s' \<and>
    chans s' = (chans s)(p := Some (c\<lparr>ch_index := index_after_update c\<rparr>))"
proof -
  from assms(1) obtain lp pl where lp: "epoll_ctl_documented os" "loops s l = Some lp"
    "loop_poller lp = Some pl" "poller_inv {p} pl l s" unfolding reg_inv_except_def by blast
  from updateChannel_ok [OF lp(1,4) assms(2,3), of me] obtain pl' s1 where
    s1: "poller_updateChannel os me pl p s = Inr (pl', s1)" "poller_inv {} pl' l s1"
      "chans s1 = (chans s)(p := Some (c\<lparr>ch_index := index_after_update c\<rparr>))" by blast
  define s2 where "s2 = put_loop l (lp\<lparr>loop_poller := Some pl'\<rparr>) s1"
  have fr: "loops s1 = loops s" "t_loopInthisThread s1 = t_loopInthisThread s" "reactor.more s1 = reactor.more s"
    using poller_updateChannel_frame [OF s1(1)] by (simp_all add: same_above_def)
  have "channel_update os me p s = Inr s2"
    using assms(2,3) lp fr s1(1)
    by (simp add: channel_update_def updateChannel_def get_poller_def set_poller_def s2_def)
  moreover have "reg_inv os l s2"
    using lp(1) s1(2) by (simp add: reg_inv_def reg_inv_except_def s2_def)
  moreover have "only_poller l s s2" using lp fr by (auto simp: only_poller_def s2_def)
  ultimately show ?thesis using s1(3) by (auto simp: s2_def)
qed

lemma set_events_ok:
  fixes ch :: event_change
  assumes "reg_inv os l s" "chans s p = Some c" "ch_loop c = l"
  defines "c' \<equiv> c\<lparr>ch_events := change_events ch (ch_events c)\<rparr>"
  shows "\<exists>s'. set_events os me ch p s = Inr s' \<and> reg_inv os l s' \<and> only_poller l s s' \<and>
    chans s' = (chans s)(p := Some (c'\<lparr>ch_index := index_after_update c'\<rparr>))"
proof -
  let ?s = "put_chan p c' s"
  from assms(1) obtain lp pl where lp: "epoll_ctl_documented os" "loops s l = Some lp"
    "loop_poller lp = Some pl" "poller_inv {} pl l s"
    unfolding reg_inv_def reg_inv_except_def by blast
  have "poller_inv {p} pl l ?s"
    unfolding c'_def by (rule poller_inv_change_events [OF lp(4) assms(2,3)])
  with lp have "reg_inv_except os {p} l ?s" unfolding reg_inv_except_def by auto
  moreover have "chans ?s p = Some c'" "ch_loop c' = l" using assms(3) by (simp_all add: c'_def)
  ultimately obtain s' where s': "channel_update os me p ?s = Inr s'" "reg_inv os l s'"
    "only_poller l ?s s'" "chans s' = (chans ?s)(p := Some (c'\<lparr>ch_index := index_after_update c'\<rparr>))"
    using updateChannel_reg [of os p l ?s c' me] by blast
  have "set_events os me ch p s = Inr s'"
    using assms(2) s'(1) by (simp add: set_events_def upd_chan_def c'_def)
  moreover have "only_poller l s s'" using s'(3) by (simp add: only_poller_def)
  ultimately show ?thesis using s' by auto
qed

lemma channel_remove_ok:
  assumes "reg_inv os l s" "chans s p = Some c" "ch_loop c = l"
  shows "\<exists>s'. channel_remove os me p s = Inr s' \<and> reg_inv os l s' \<and> only_poller l s s' \<and>
    chans s' = (chans s)(p := Some (c\<lparr>ch_index := kNew\<rparr>))"
proof -
  from assms(1) obtain lp pl where lp: "epoll_ctl_documented os" "loops s l = Some lp"
    "loop_poller lp = Some pl" "poller_inv {} pl l s"
    unfolding reg_inv_def reg_inv_except_def by blast
  have "put_chan p (c\<lparr>ch_events := ch_events c\<rparr>) s = s"
    using assms(2) by (simp add: put_chan_def fun_upd_idem)
  with poller_inv_change_events [OF lp(4) assms(2,3), of "ch_events c"]
  have "poller_inv {p} pl l s" by simp
  from removeChannel_ok [OF lp(1) this assms(2,3), of me] obtain pl' s1 where
    s1: "poller_removeChannel os me pl p s = Inr (pl', s1)" "poller_inv {} pl' l s1"
      "chans s1 = (chans s)(p := Some (c\<lparr>ch_index := kNew\<rparr>))" by blast
  define s2 where "s2 = put_loop l (lp\<lparr>loop_poller := Some pl'\<rparr>) s1"
  have fr: "loops s1 = loops s" "t_loopInthisThread s1 = t_loopInthisThread s" "reactor.more s1 = reactor.more s"
    using poller_removeChannel_frame [OF s1(1)] by (simp_all add: same_above_def)
  have "channel_remove os me p s = Inr s2"
    using assms(2,3) lp fr s1(1)
    by (simp add: channel_remove_def removeChannel_def get_poller_def set_poller_def s2_def)
  moreover have "reg_inv os l s2"
    using lp(1) s1(2) by (simp add: reg_inv_def reg_inv_except_def s2_def)
  moreover have "only_poller l s s2" using lp fr by (auto simp: only_poller_def s2_def)
  ultimately show ?thesis using s1(3) by (auto simp: s2_def)
qed

subsection \<open>The registry interface\<close>

text \<open>
  What the owners of channels rely on: each channel has an entry, its event mask and whether the
  kernel has it registered (with this mask). A change of the mask is passed on, except that a
  registered channel without events is taken out.
\<close>

type_synonym reg_entry = "32 word \<times> bool"

fun entry_change :: "event_change \<Rightarrow> reg_entry \<Rightarrow> reg_entry" where
  "entry_change ch (ev, r) = (let ev' = change_events ch ev in (ev', \<not> (r \<and> ev' = kNoneEvent)))"

definition kernel_mask :: "reg_entry \<Rightarrow> 32 word option" where
  "kernel_mask e = (if snd e then Some (fst e) else None)"

definition changes_of :: "chan_id \<Rightarrow> (event_change \<times> chan_id) list \<Rightarrow> event_change list" where
  "changes_of p ops = map fst (filter (\<lambda>(ch, q). q = p) ops)"

locale registry =
  fixes inv :: "'s \<Rightarrow> bool" and entry :: "'s \<Rightarrow> chan_id \<Rightarrow> reg_entry option"
    and change :: "event_change \<Rightarrow> chan_id \<Rightarrow> 's \<Rightarrow> 's res"
    and remove :: "chan_id \<Rightarrow> 's \<Rightarrow> 's res"
  assumes change_ok: "inv s \<Longrightarrow> entry s p = Some e \<Longrightarrow>
      \<exists>s'. change ch p s = Inr s' \<and> inv s' \<and> entry s' = (entry s)(p := Some (entry_change ch e))"
    and remove_ok: "inv s \<Longrightarrow> entry s p = Some e \<Longrightarrow>
      \<exists>s'. remove p s = Inr s' \<and> inv s' \<and> entry s' = (entry s)(p := Some (fst e, False))"
begin

lemma changes_ok:
  assumes "inv s" "\<forall>(ch, p) \<in> set ops. entry s p \<noteq> None"
  shows "\<exists>s'. foldr_res (\<lambda>(ch, p). change ch p) ops s = Inr s' \<and> inv s' \<and>
    (\<forall>p. entry s' p = map_option (fold entry_change (changes_of p ops)) (entry s p))"
  using assms
proof (induction ops arbitrary: s)
  case Nil
  then show ?case by (simp add: changes_of_def option.map_ident)
next
  case (Cons op ops)
  obtain ch p where op: "op = (ch, p)" by (cases op)
  with Cons.prems obtain e where e: "entry s p = Some e" by auto
  from change_ok [OF Cons.prems(1) e] obtain s1 where
    s1: "change ch p s = Inr s1" "inv s1" "entry s1 = (entry s)(p := Some (entry_change ch e))" by blast
  have "\<forall>(ch, p) \<in> set ops. entry s1 p \<noteq> None" using Cons.prems(2) s1(3) by auto
  from Cons.IH [OF s1(2) this] obtain s' where s': "foldr_res (\<lambda>(ch, p). change ch p) ops s1 = Inr s'"
    "inv s'" "\<forall>p. entry s' p = map_option (fold entry_change (changes_of p ops)) (entry s1 p)" by blast
  have "entry s' q = map_option (fold entry_change (changes_of q (op # ops))) (entry s q)" for q
    using s'(3) s1(3) e by (simp add: op changes_of_def)
  with s' s1(1) show ?case by (auto simp: op)
qed

lemma change_then_remove:
  assumes "inv s" "entry s p = Some e"
  shows "\<exists>s1 s2. change ch p s = Inr s1 \<and> remove p s1 = Inr s2 \<and> inv s2 \<and>
    entry s2 = (entry s)(p := Some (change_events ch (fst e), False))"
proof -
  from change_ok [OF assms] obtain s1 where s1: "change ch p s = Inr s1" "inv s1"
    "entry s1 = (entry s)(p := Some (entry_change ch e))" by blast
  then have "entry s1 p = Some (entry_change ch e)" by simp
  from remove_ok [OF s1(2) this] obtain s2 where "remove p s1 = Inr s2" "inv s2"
    "entry s2 = (entry s1)(p := Some (fst (entry_change ch e), False))" by blast
  with s1 show ?thesis by (cases e) (auto simp: Let_def)
qed

end

definition chan_entry :: "loop_id \<Rightarrow> 'a reactor_scheme \<Rightarrow> chan_id \<Rightarrow> reg_entry option" where
  "chan_entry l s p = map_option (\<lambda>c. (ch_events c, ch_index c = kAdded)) (chan_of l s p)"

lemma chan_entry_upd:
  assumes "chans s' = (chans s)(p := Some c')" "ch_loop c' = l"
  shows "chan_entry l s' = (chan_entry l s)(p := Some (ch_events c', ch_index c' = kAdded))"
  using assms by (auto simp: chan_entry_def chan_of_def)

lemma chan_entry_SomeE:
  assumes "chan_entry l s p = Some e"
  obtains c where "chans s p = Some c" "ch_loop c = l" "e = (ch_events c, ch_index c = kAdded)"
  using assms by (auto simp: chan_entry_def)

lemma chan_entry_Some:
  "chans s p = Some c \<Longrightarrow> ch_loop c = l \<Longrightarrow> chan_entry l s p = Some (ch_events c, ch_index c = kAdded)"
  by (simp add: chan_entry_def chan_of_def)

interpretation reg: registry "reg_inv os l" "chan_entry l" "set_events os me" "channel_remove os me"
  for os :: os and l :: loop_id and me :: tid
proof unfold_locales
  fix s :: "'a reactor_scheme" and p e ch
  assume inv: "reg_inv os l s" and "chan_entry l s p = Some e"
  then obtain c where c: "chans s p = Some c" "ch_loop c = l" "e = (ch_events c, ch_index c = kAdded)"
    by (auto elim: chan_entry_SomeE)
  define c' where "c' = c\<lparr>ch_events := change_events ch (ch_events c)\<rparr>"
  from set_events_ok [OF inv c(1,2), of me ch] obtain s' where s': "set_events os me ch p s = Inr s'"
    "reg_inv os l s'" "chans s' = (chans s)(p := Some (c'\<lparr>ch_index := index_after_update c'\<rparr>))"
    unfolding c'_def by blast
  have "chan_entry l s' = (chan_entry l s)(p := Some (entry_change ch e))"
    by (subst chan_entry_upd [OF s'(3)])
      (use c in \<open>auto simp: c'_def index_after_update_def isNoneEvent_def Let_def index_states\<close>)
  with s' show "\<exists>s'. set_events os me ch p s = Inr s' \<and> reg_inv os l s' \<and>
      chan_entry l s' = (chan_entry l s)(p := Some (entry_change ch e))" by blast
next
  fix s :: "'a reactor_scheme" and p e
  assume inv: "reg_inv os l s" and "chan_entry l s p = Some e"
  then obtain c where c: "chans s p = Some c" "ch_loop c = l" "e = (ch_events c, ch_index c = kAdded)"
    by (auto elim: chan_entry_SomeE)
  from channel_remove_ok [OF inv c(1,2), of me] obtain s' where s': "channel_remove os me p s = Inr s'"
    "reg_inv os l s'" "chans s' = (chans s)(p := Some (c\<lparr>ch_index := kNew\<rparr>))" by blast
  have "chan_entry l s' = (chan_entry l s)(p := Some (fst e, False))"
    by (subst chan_entry_upd [OF s'(3)]) (use c in \<open>auto simp: index_states\<close>)
  with s' show "\<exists>s'. channel_remove os me p s = Inr s' \<and> reg_inv os l s' \<and>
      chan_entry l s' = (chan_entry l s)(p := Some (fst e, False))" by blast
qed

text \<open>The entry is what the kernel has.\<close>

lemma registered_entry:
  assumes "reg_inv os l s" "chans s p = Some c" "ch_loop c = l"
  shows "registered l s p = kernel_mask (ch_events c, ch_index c = kAdded)"
  using assms registered_index by (fastforce simp: reg_inv_def reg_inv_except_def kernel_mask_def)

lemma registered_of_entry:
  assumes "reg_inv os l s" "chan_entry l s p = Some e"
  shows "registered l s p = kernel_mask e"
proof -
  from assms(2) obtain c where c: "chans s p = Some c" "ch_loop c = l" "e = (ch_events c, ch_index c = kAdded)"
    by (auto elim: chan_entry_SomeE)
  show ?thesis using registered_entry [OF assms(1) c(1,2)] c(3) by simp
qed

subsection \<open>Polling and queueing\<close>

lemma poll_phase_ok:
  assumes "reg_inv os l s" "epoll_wait_documented os"
  shows "\<exists>active now s'. poll_phase os me l s = Inr (active, now, s') \<and> reg_inv os l s' \<and> distinct active \<and>
    (\<forall>p \<in> set active. \<exists>c r. chans s' p = Some c \<and> ch_loop c = l \<and> ch_index c = kAdded \<and>
       allowed_events c \<and> chans s p = Some (c\<lparr>ch_revents := r\<rparr>)) \<and>
    (\<forall>p. p \<notin> set active \<longrightarrow> chans s' p = chans s p)"
proof -
  from assms(1) obtain lp pl where lp: "epoll_ctl_documented os" "loops s l = Some lp"
    "loop_poller lp = Some pl" "poller_inv {} pl l s"
    unfolding reg_inv_def reg_inv_except_def by blast
  define s1 where "s1 = put_loop l (lp\<lparr>activeChannels := []\<rparr>) s"
  have "poller_inv {} pl l s1" using lp(4) by (simp add: s1_def)
  from poller_poll_ok [OF assms(2) this, of me kPollTimeMS] obtain pl' active now s2 where
    s2: "poller_poll os me pl kPollTimeMS s1 = Inr (pl', active, now, s2)" "poller_inv {} pl' l s2"
      "distinct active"
      "\<forall>p \<in> set active. \<exists>c r. chans s2 p = Some c \<and> ch_loop c = l \<and> ch_index c = kAdded \<and>
         allowed_events c \<and> chans s1 p = Some (c\<lparr>ch_revents := r\<rparr>)"
      "\<forall>p. p \<notin> set active \<longrightarrow> chans s2 p = chans s1 p" by blast
  have fr: "loops s2 = loops s1" using poller_poll_frame [OF s2(1)] by (simp add: same_above_def)
  define s3 where "s3 = put_loop l (lp\<lparr>loop_poller := Some pl', activeChannels := active, pollReturnTime := now\<rparr>) s2"
  have "poll_phase os me l s = Inr (active, now, s3)"
    using lp(2,3) s2(1) fr by (simp add: poll_phase_def s1_def get_poller_def s3_def)
  moreover have "reg_inv os l s3" using lp(1) s2(2) by (simp add: reg_inv_def reg_inv_except_def s3_def)
  ultimately show ?thesis using s2(3-5) by (auto simp: s3_def s1_def)
qed

text \<open>What \<open>poll_phase\<close> leaves alone in the loop.\<close>

definition loop_core :: "eventloop \<Rightarrow> bool \<times> bool \<times> tid \<times> int \<times> chan_id \<times> bool \<times> Functor list" where
  "loop_core lp = (looping lp, quit_flag lp, threadId lp, wakeFd lp, wakeupChannel lp,
     callingPendingFunctors lp, pendingFunctors lp)"

lemma poll_phase_frame:
  assumes "poll_phase os me l s = Inr (active, now, s')" "loops s l = Some lp"
  shows "\<exists>lp'. loops s' l = Some lp' \<and> loop_core lp' = loop_core lp"
  using assms
  by (auto simp: poll_phase_def rbind_eq_Inr upd_loop_eq_Inr get_poller_def loop_core_def same_above_def
      dest!: poller_poll_frame split: option.splits)

lemma fillActiveChannels_trace:
  "fillActiveChannels evs s = Inr (a, s') \<Longrightarrow> io_trace s' = io_trace s"
proof (induction evs arbitrary: s a)
  case (Cons e evs)
  then show ?case by (cases e) (fastforce simp: rbind_eq_Inr upd_chan_def)
qed simp

lemma poll_phase_trace:
  assumes "poll_phase os me l s = Inr (active, now, s')"
  shows "\<exists>ep n r1 r2. io_trace s' = io_trace s @ [(me, EpollWait ep n kPollTimeMS, r1), (me, TimeNow, r2)]"
  using assms
  by (auto simp: poll_phase_def rbind_eq_Inr upd_loop_eq_Inr get_poller_def poller_poll_def Let_def split_beta
      dest!: fillActiveChannels_trace split: option.splits if_splits)

lemma queueInLoop_ok:
  fixes f :: Functor
  assumes "loops s l = Some lp"
  defines "lp' \<equiv> lp\<lparr>pendingFunctors := pendingFunctors lp @ [f]\<rparr>"
  shows "queueInLoop os me l f s = Inr (if must_wake me lp
      then snd (do_call os me (WriteFd (wakeFd lp) eventfd_one) (put_loop l lp' s))
      else put_loop l lp' s)"
proof -
  have mw: "must_wake me lp' = must_wake me lp" "wakeFd lp' = wakeFd lp"
    by (simp_all add: must_wake_def isInLoopThread_def lp'_def)
  show ?thesis
    using assms(1) mw by (simp add: queueInLoop_def push_functor_def wakeup_def lp'_def [symmetric])
qed

subsection \<open>Leaving the loop\<close>

text \<open>A loop whose turns set the quit flag at the \<open>k\<close>-th stops after \<open>k\<close> turns.\<close>

fun turns :: "('s \<Rightarrow> 's res) \<Rightarrow> nat \<Rightarrow> 's \<Rightarrow> 's res" where
  "turns f 0 s = Inr s"
| "turns f (Suc n) s = rbind (f s) (turns f n)"

definition quitting :: "loop_id \<Rightarrow> 'a reactor_scheme \<Rightarrow> bool" where
  "quitting l s \<longleftrightarrow> (\<exists>lp. loops s l = Some lp \<and> quit_flag lp)"

lemma loop_while_quits:
  assumes "turns turn k s = Inr s'" "quitting l s'"
    and "\<And>j t. j < k \<Longrightarrow> turns turn j s = Inr t \<Longrightarrow> loops t l \<noteq> None \<and> \<not> quitting l t"
    and "k \<le> n"
  shows "loop_while turn l n s = Some (Inr s')"
  using assms
proof (induction k arbitrary: s n)
  case 0
  then show ?case by (subst loop_while.simps) (auto simp: quitting_def)
next
  case (Suc k)
  from Suc.prems(1) obtain t where t: "turn s = Inr t" "turns turn k t = Inr s'"
    by (auto simp: rbind_eq_Inr)
  from Suc.prems(4) obtain m where m: "n = Suc m" "k \<le> m" by (cases n) auto
  have "loop_while turn l m t = Some (Inr s')"
  proof (rule Suc.IH [OF t(2) Suc.prems(2) _ m(2)])
    fix j u assume "j < k" "turns turn j t = Inr u"
    then show "loops u l \<noteq> None \<and> \<not> quitting l u"
      using Suc.prems(3) [of "Suc j" u] t(1) by simp
  qed
  moreover have "loops s l \<noteq> None \<and> \<not> quitting l s"
    using Suc.prems(3) [of 0 s] by simp
  ultimately show ?case using t(1) m(1) by (subst loop_while.simps) (auto simp: quitting_def)
qed

subsection \<open>Construction\<close>

lemma get_poller_eq_Inr: "get_poller s l = Inr pl \<longleftrightarrow> (\<exists>lp. loops s l = Some lp \<and> loop_poller lp = Some pl)"
  by (auto simp: get_poller_def rbind_eq_Inr split: option.splits)

text \<open>A loop without channels has nothing registered in a new epoll descriptor.\<close>

lemma poller_inv_fresh:
  assumes "\<And>fd. kernel_view pl s fd = None" "\<And>fd. channels pl fd = None"
    "\<And>q d. chans s q = Some d \<Longrightarrow> ch_loop d = l \<Longrightarrow> q = p \<and> d = mkChannel l fde"
  shows "poller_inv {} pl l s"
proof -
  have "chan_reg pl (kernel_view pl s) q d" if q: "chans s q = Some d" "ch_loop d = l" for q d
    using assms(1,2) assms(3) [OF q] by (simp add: chan_reg_def mkChannel_def kNew_def)
  moreover have "distinct_fds l s" unfolding distinct_fds_def using assms(3) by metis
  ultimately show ?thesis using assms(1,2) unfolding poller_inv_def by auto
qed

definition new_loop_ok :: "os \<Rightarrow> tid \<Rightarrow> loop_id \<Rightarrow> chan_id \<Rightarrow> 'a reactor_scheme \<Rightarrow> bool" where
  "new_loop_ok os me l p s \<longleftrightarrow> epoll_ctl_documented os \<and>
     (\<forall>tr. 0 \<le> ret (os tr EpollCreate) \<and> 0 \<le> ret (os tr EventFd)) \<and>
     t_loopInthisThread s me = None \<and> chans s p = None \<and>
     (\<forall>q d. chans s q = Some d \<longrightarrow> ch_loop d \<noteq> l)"

text \<open>Only the loop's own epoll descriptor is changed.\<close>

lemma poller_update_interest:
  "poller_update os me pl op p s = Inr s' \<Longrightarrow> ep \<noteq> epollfd pl \<Longrightarrow> interest_of ep (io_trace s') = interest_of ep (io_trace s)"
  by (auto simp: poller_update_def rbind_eq_Inr Let_def split_beta split: if_splits)

lemma poller_updateChannel_interest:
  "poller_updateChannel os me pl p s = Inr (pl', s') \<Longrightarrow> ep \<noteq> epollfd pl \<Longrightarrow>
    interest_of ep (io_trace s') = interest_of ep (io_trace s)"
  by (auto simp: poller_updateChannel_def rbind_eq_Inr Let_def upd_chan_def split: if_splits
      dest!: poller_update_interest [where ep = ep])

lemma set_events_interest:
  assumes "set_events os me chg p s = Inr s'" "chans s p = Some c" "loops s (ch_loop c) = Some lp"
    "loop_poller lp = Some pl" "ep \<noteq> epollfd pl"
  shows "interest_of ep (io_trace s') = interest_of ep (io_trace s)"
  using assms
  by (auto simp: set_events_def channel_update_def updateChannel_def rbind_eq_Inr upd_chan_def set_poller_def
      upd_loop_eq_Inr get_poller_def dest!: poller_updateChannel_interest [where ep = ep])

text \<open>The constructor up to the registration of the wakeup channel.\<close>

lemma mkEventLoop_steps:
  assumes "new_loop_ok os me l p s"
  shows "\<exists>s4 r w pl. mkEventLoop os me False l p s = set_events os me EnableReading p s4 \<and> reg_inv os l s4 \<and>
    r = os (io_trace s) EpollCreate \<and> w = os (io_trace s @ [(me, EpollCreate, r)]) EventFd \<and>
    io_trace s4 = io_trace s @ [(me, EpollCreate, r), (me, EventFd, w)] \<and> epollfd pl = ret r \<and>
    loops s4 = (loops s)(l := Some \<lparr>looping = False, quit_flag = False, threadId = me, pollReturnTime = 0,
      loop_poller = Some pl, wakeFd = ret w, wakeupChannel = p, activeChannels = [],
      callingPendingFunctors = False, pendingFunctors = []\<rparr>) \<and>
    t_loopInthisThread s4 = (t_loopInthisThread s)(me := Some l) \<and>
    chans s4 = (chans s)(p := Some ((mkChannel l (ret w))\<lparr>readCallback := Some (LoopHandleRead l)\<rparr>))"
proof -
  note ok = assms [unfolded new_loop_ok_def]
  define r where "r = os (io_trace s) EpollCreate"
  define s1 where "s1 = snd (do_call os me EpollCreate s)"
  define w where "w = os (io_trace s1) EventFd"
  define pl where "pl = \<lparr>epollfd = ret r, channels = (\<lambda>_. None), evlist_size = kInitEventListSize\<rparr>"
  define lp where "lp = \<lparr>looping = False, quit_flag = False, threadId = me, pollReturnTime = 0,
    loop_poller = Some pl, wakeFd = ret w, wakeupChannel = p, activeChannels = [],
    callingPendingFunctors = False, pendingFunctors = []\<rparr>"
  define s2 where "s2 = put_loop l lp (put_chan p (mkChannel l (ret w)) (snd (do_call os me EventFd s1)))"
  define s3 where "s3 = s2\<lparr>t_loopInthisThread := (t_loopInthisThread s2)(me := Some l)\<rparr>"
  define c where "c = (mkChannel l (ret w))\<lparr>readCallback := Some (LoopHandleRead l)\<rparr>"
  define s4 where "s4 = put_chan p c s3"
  have pos: "0 \<le> ret r" "0 \<le> ret w" using ok by (simp_all add: r_def w_def)
  have tr: "io_trace s3 = io_trace s @ [(me, EpollCreate, r), (me, EventFd, w)]"
    by (simp add: s3_def s2_def s1_def r_def w_def)
  have kv: "kernel_view pl s3 = (\<lambda>_. None)"
    using pos by (simp add: kernel_view_def tr pl_def)
  have t1: "t_loopInthisThread s1 = t_loopInthisThread s" by (simp add: s1_def)
  have chs: "channels pl fd = None" for fd by (simp add: pl_def)
  have ch3: "chans s3 = (chans s)(p := Some (mkChannel l (ret w)))"
    by (simp add: s3_def s2_def s1_def)
  have "poller_inv {} pl l s3"
    by (rule poller_inv_fresh [where p = p and fde = "ret w"]) (use ok in \<open>auto simp: kv ch3 chs split: if_splits\<close>)
  moreover have "poller_inv {} pl l s4 = poller_inv {} pl l s3"
    by (auto simp: poller_inv_def distinct_fds_def s4_def ch3 c_def chan_reg_def mkChannel_def)
  moreover have lps: "loops s4 l = Some lp" "loop_poller lp = Some pl"
    by (simp_all add: s4_def s3_def s2_def lp_def)
  ultimately have "reg_inv os l s4" using ok by (auto simp: reg_inv_def reg_inv_except_def)
  moreover have "mkEventLoop os me False l p s = set_events os me EnableReading p s4"
    using pos ok t1
    by (simp add: mkEventLoop_def newDefaultPoller_def EpollPoller_def createEventfd_def split_beta Let_def
        r_def [symmetric] s1_def [symmetric] w_def [symmetric] pl_def [symmetric] lp_def [symmetric]
        s2_def [symmetric] s3_def [symmetric] c_def [symmetric] upd_chan_def ch3 s4_def)
  moreover have "w = os (io_trace s @ [(me, EpollCreate, r)]) EventFd" by (simp add: w_def s1_def r_def)
  moreover have "io_trace s4 = io_trace s3" "loops s4 = (loops s)(l := Some lp)"
    "t_loopInthisThread s4 = (t_loopInthisThread s)(me := Some l)" "chans s4 = (chans s)(p := Some c)"
    by (simp_all add: s4_def ch3) (simp_all add: s3_def s2_def s1_def)
  ultimately show ?thesis using tr unfolding lp_def c_def
    by (intro exI [of _ s4] exI [of _ r] exI [of _ w] exI [of _ pl]) (simp add: pl_def r_def)
qed

lemma mkEventLoop_chans:
  assumes "new_loop_ok os me l p s"
  shows "\<exists>s' lp. mkEventLoop os me False l p s = Inr s' \<and> reg_inv os l s' \<and>
    loops s' = (loops s)(l := Some lp) \<and> threadId lp = me \<and> wakeupChannel lp = p \<and>
    pendingFunctors lp = [] \<and> t_loopInthisThread s' = (t_loopInthisThread s)(me := Some l) \<and>
    registered l s' p = Some kReadEvent \<and> (\<exists>c. chans s' = (chans s)(p := Some c) \<and> ch_loop c = l) \<and>
    (\<forall>ep. (\<forall>tr. ret (os tr EpollCreate) \<noteq> ep) \<longrightarrow> interest_of ep (io_trace s') = interest_of ep (io_trace s))"
proof -
  from mkEventLoop_steps [OF assms] obtain s4 r w pl where
    s4: "mkEventLoop os me False l p s = set_events os me EnableReading p s4" "reg_inv os l s4"
      "r = os (io_trace s) EpollCreate" "io_trace s4 = io_trace s @ [(me, EpollCreate, r), (me, EventFd, w)]"
      "epollfd pl = ret r"
      "loops s4 = (loops s)(l := Some \<lparr>looping = False, quit_flag = False, threadId = me, pollReturnTime = 0,
        loop_poller = Some pl, wakeFd = ret w, wakeupChannel = p, activeChannels = [],
        callingPendingFunctors = False, pendingFunctors = []\<rparr>)"
      "t_loopInthisThread s4 = (t_loopInthisThread s)(me := Some l)"
      "chans s4 = (chans s)(p := Some ((mkChannel l (ret w))\<lparr>readCallback := Some (LoopHandleRead l)\<rparr>))"
    by (elim exE conjE) (rule that)
  let ?c = "(mkChannel l (ret w))\<lparr>readCallback := Some (LoopHandleRead l)\<rparr>"
  have c4: "chans s4 p = Some ?c" "ch_loop ?c = l" by (simp_all add: s4(8) mkChannel_def)
  from set_events_ok [OF s4(2) c4, of me EnableReading] obtain s' where
    s': "set_events os me EnableReading p s4 = Inr s'" "reg_inv os l s'" "only_poller l s4 s'"
      "chans s' = (chans s4)(p := Some (?c\<lparr>ch_events := change_events EnableReading (ch_events ?c),
        ch_index := index_after_update (?c\<lparr>ch_events := change_events EnableReading (ch_events ?c)\<rparr>)\<rparr>))"
    by auto
  have "chan_entry l s4 p = Some (0, False)"
    using c4 by (simp add: chan_entry_Some) (simp add: mkChannel_def index_states)
  from reg.change_ok [OF s4(2) this, of me EnableReading] s'(1)
  have "chan_entry l s' p = Some (kReadEvent, True)"
    by (auto simp: Let_def)
  from registered_of_entry [OF s'(2) this] have "registered l s' p = Some kReadEvent"
    by (simp add: kernel_mask_def)
  moreover have "\<exists>lp'. loops s' = (loops s)(l := Some lp') \<and> threadId lp' = me \<and> wakeupChannel lp' = p \<and>
      pendingFunctors lp' = [] \<and> t_loopInthisThread s' = (t_loopInthisThread s)(me := Some l)"
    using s'(3) by (auto simp: only_poller_def s4(6,7))
  moreover have "\<exists>c'. chans s' = (chans s)(p := Some c') \<and> ch_loop c' = l"
    using s'(4) c4(2) by (auto simp: s4(8))
  moreover have "interest_of ep (io_trace s') = interest_of ep (io_trace s)" if "\<forall>tr. ret (os tr EpollCreate) \<noteq> ep" for ep
  proof -
    have ne: "ret r \<noteq> ep" "ep \<noteq> epollfd pl" using that s4(3,5) by metis+
    have "interest_of ep (io_trace s') = interest_of ep (io_trace s4)"
      by (rule set_events_interest [OF s'(1) c4(1) _ _ ne(2)]) (simp add: s4(6) mkChannel_def, simp)
    then show ?thesis using ne(1) by (simp add: s4(4))
  qed
  ultimately show ?thesis using s4(1) s'(1,2) by auto
qed

lemma mkEventLoop_ok:
  assumes "new_loop_ok os me l p s"
  shows "\<exists>s' lp. mkEventLoop os me False l p s = Inr s' \<and> reg_inv os l s' \<and>
    loops s' = (loops s)(l := Some lp) \<and> threadId lp = me \<and> wakeupChannel lp = p \<and>
    pendingFunctors lp = [] \<and> t_loopInthisThread s' = (t_loopInthisThread s)(me := Some l) \<and>
    registered l s' p = Some kReadEvent"
  using mkEventLoop_chans [OF assms] by blast

subsection \<open>Properties\<close>

text \<open>The empty process, for examples.\<close>

definition reactor0 :: reactor where
  "reactor0 = \<lparr>io_trace = [], chans = (\<lambda>_. None), loops = (\<lambda>_. None), t_loopInthisThread = (\<lambda>_. None)\<rparr>"

lemma reactor0_new_loop: "new_loop_ok plain_os 1 0 0 reactor0"
  by (simp add: new_loop_ok_def plain_os_documented reactor0_def) (simp add: plain_os_def ret_val_def)

lemma registered_Some_entry:
  assumes "reg_inv os l s" "registered l s p = Some ev"
  shows "chan_entry l s p = Some (ev, True)"
proof -
  have "chan_of l s p \<noteq> None" using assms(2) by (auto simp: registered_def split: option.splits)
  then obtain e where e: "chan_entry l s p = Some e" by (auto simp: chan_entry_def)
  with registered_of_entry [OF assms(1) e] assms(2) show ?thesis
    by (cases e) (auto simp: kernel_mask_def split: if_splits)
qed

text \<open>
  A loop constructed in a thread that has none, with a kernel that gives it its two
  descriptors, is ready: it belongs to this thread and is the thread's loop, its queue is empty,
  and its wakeup channel is registered for reading with everything else in agreement.
\<close>

theorem event_loop_created:
  assumes "new_loop_ok os me l p s"
  shows "\<exists>s' lp. mkEventLoop os me False l p s = Inr s' \<and> reg_inv os l s' \<and>
    loops s' = (loops s)(l := Some lp) \<and> threadId lp = me \<and> wakeupChannel lp = p \<and>
    pendingFunctors lp = [] \<and> t_loopInthisThread s' = (t_loopInthisThread s)(me := Some l) \<and>
    registered l s' p = Some kReadEvent"
  using assms by (rule mkEventLoop_ok)

theorem event_loop_created_witness:
  "\<exists>s' lp. mkEventLoop plain_os 1 False 0 0 reactor0 = Inr s' \<and> reg_inv plain_os 0 s' \<and>
    loops s' 0 = Some lp \<and> threadId lp = 1 \<and> registered 0 s' 0 = Some kReadEvent"
  using event_loop_created [OF reactor0_new_loop] by fastforce

text \<open>
  One loop per thread. A thread that already has a loop never gets a second one: the
  constructor does not return, whatever the kernel answers.
\<close>

theorem one_loop_per_thread:
  assumes "t_loopInthisThread s me = Some l0"
  shows "mkEventLoop os me use_poll l p s = Inl FatalExit"
proof -
  have "t_loopInthisThread s1 me = Some l0" if "newDefaultPoller os me use_poll s = Inr (pl, s1)" for pl s1
    using that assms by (auto simp: newDefaultPoller_def EpollPoller_def rbind_eq_Inr Let_def split_beta
        split: if_splits)
  moreover have "t_loopInthisThread s2 me = t_loopInthisThread s1 me" if "createEventfd os me s1 = Inr (w, s2)" for s1 w s2
    using that by (auto simp: createEventfd_def Let_def split_beta split: if_splits)
  ultimately show ?thesis
    by (cases "newDefaultPoller os me use_poll s"; cases "createEventfd os me (snd (projr (newDefaultPoller os me use_poll s)))")
      (auto simp: mkEventLoop_def split_beta Let_def newDefaultPoller_def EpollPoller_def createEventfd_def
        split: if_splits)
qed

theorem one_loop_per_thread_witness:
  "\<exists>s. mkEventLoop plain_os 1 False 0 0 reactor0 = Inr s \<and> mkEventLoop plain_os 1 False 1 1 s = Inl FatalExit"
proof -
  from mkEventLoop_ok [OF reactor0_new_loop] obtain s where
    s: "mkEventLoop plain_os 1 False 0 0 reactor0 = Inr s"
    "t_loopInthisThread s = (t_loopInthisThread reactor0)(1 := Some 0)" by blast
  then have "t_loopInthisThread s 1 = Some 0" by simp
  from one_loop_per_thread [OF this] s(1) show ?thesis by blast
qed

text \<open>
  With \<open>MUDUO_USE_POLL\<close> set there is no poller, and the constructor of every loop
  dereferences the null pointer as soon as the kernel has given it an eventfd.
\<close>

theorem use_poll_dereferences_null:
  assumes "0 \<le> ret (os (io_trace s) EventFd)" "t_loopInthisThread s me = None"
  shows "mkEventLoop os me True l p s = Inl NullDeref"
  using assms by (simp add: mkEventLoop_def newDefaultPoller_def createEventfd_def split_beta Let_def upd_chan_def
      set_events_def channel_update_def updateChannel_def get_poller_def mkChannel_def)

theorem use_poll_dereferences_null_witness: "mkEventLoop plain_os 1 True 0 0 reactor0 = Inl NullDeref"
  by (rule use_poll_dereferences_null) (simp_all add: plain_os_def ret_val_def reactor0_def)

text \<open>
  C13: any sequence of \<open>enableReading\<close>, \<open>disableReading\<close>, \<open>enableWriting\<close>, \<open>disableWriting\<close> and
  \<open>disableAll\<close> on the channels of a loop runs without a fault (in particular without the fatal
  \<open>epoll_ctl\<close> error), keeps channels, poller and kernel in agreement, and leaves in the kernel
  for each channel exactly what the two-field machine \<open>entry_change\<close> computes from the changes
  made to this channel.
\<close>

theorem registration_refines:
  assumes "reg_inv os l s" "\<forall>(ch, p) \<in> set ops. chan_entry l s p \<noteq> None"
  shows "\<exists>s'. foldr_res (\<lambda>(ch, p). set_events os me ch p) ops s = Inr s' \<and> reg_inv os l s' \<and>
    (\<forall>p e. chan_entry l s p = Some e \<longrightarrow>
       registered l s' p = kernel_mask (fold entry_change (changes_of p ops) e))"
proof -
  from reg.changes_ok [OF assms, of me] obtain s' where
    s': "foldr_res (\<lambda>(ch, p). set_events os me ch p) ops s = Inr s'" "reg_inv os l s'"
    "\<forall>p. chan_entry l s' p = map_option (fold entry_change (changes_of p ops)) (chan_entry l s p)" by blast
  then show ?thesis using registered_of_entry [OF s'(2)] by auto
qed

theorem registration_refines_witness:
  "\<exists>s s'. mkEventLoop plain_os 1 False 0 0 reactor0 = Inr s \<and>
    foldr_res (\<lambda>(ch, p). set_events plain_os 1 ch p) [(DisableAll, 0), (EnableWriting, 0)] s = Inr s' \<and>
    registered 0 s' 0 = Some kWriteEvent"
proof -
  from mkEventLoop_ok [OF reactor0_new_loop] obtain s where
    s: "mkEventLoop plain_os 1 False 0 0 reactor0 = Inr s" "reg_inv plain_os 0 s"
    "registered 0 s 0 = Some kReadEvent" by blast
  note e = registered_Some_entry [OF s(2,3)]
  then have "\<forall>(ch, p) \<in> set [(DisableAll, 0), (EnableWriting, 0)]. chan_entry 0 s p \<noteq> None"
    by (simp del: not_None_eq)
  from registration_refines [OF s(2) this, of 1] obtain s' where
    s': "foldr_res (\<lambda>(ch, p). set_events plain_os 1 ch p) [(DisableAll, 0), (EnableWriting, 0)] s = Inr s'"
    "registered 0 s' 0 = kernel_mask (fold entry_change
       (changes_of 0 [(DisableAll, 0), (EnableWriting, 0)]) (kReadEvent, True))"
    using e by blast
  have "kernel_mask (fold entry_change (changes_of 0 [(DisableAll, 0), (EnableWriting, 0)]) (kReadEvent, True))
      = Some kWriteEvent"
    by (simp add: changes_of_def kernel_mask_def Let_def channel_masks epoll_bits)
  with s(1) s' show ?thesis by auto
qed

text \<open>
  \<open>disableAll\<close> is not idempotent. On a registered channel a first call takes it out of epoll
  and a second one puts it back with an empty mask, so that hang-ups and errors are reported
  again.
\<close>

theorem disableAll_twice_registers:
  assumes "reg_inv os l s" "chan_entry l s p = Some (ev, True)"
  shows "\<exists>s1 s2. set_events os me DisableAll p s = Inr s1 \<and> registered l s1 p = None \<and>
    set_events os me DisableAll p s1 = Inr s2 \<and> registered l s2 p = Some kNoneEvent"
proof -
  from reg.change_ok [OF assms, of me DisableAll] obtain s1 where
    s1: "set_events os me DisableAll p s = Inr s1" "reg_inv os l s1" "chan_entry l s1 p = Some (kNoneEvent, False)"
    by auto
  from reg.change_ok [OF s1(2,3), of me DisableAll] obtain s2 where
    s2: "set_events os me DisableAll p s1 = Inr s2" "reg_inv os l s2" "chan_entry l s2 p = Some (kNoneEvent, True)"
    by auto
  show ?thesis using s1 s2 registered_of_entry [OF s1(2,3)] registered_of_entry [OF s2(2,3)]
    by (simp add: kernel_mask_def)
qed

theorem disableAll_twice_registers_witness:
  "\<exists>s s1 s2. mkEventLoop plain_os 1 False 0 0 reactor0 = Inr s \<and>
    set_events plain_os 1 DisableAll 0 s = Inr s1 \<and> registered 0 s1 0 = None \<and>
    set_events plain_os 1 DisableAll 0 s1 = Inr s2 \<and> registered 0 s2 0 = Some 0"
proof -
  from mkEventLoop_ok [OF reactor0_new_loop] obtain s where
    s: "mkEventLoop plain_os 1 False 0 0 reactor0 = Inr s" "reg_inv plain_os 0 s"
    "registered 0 s 0 = Some kReadEvent" by blast
  from disableAll_twice_registers [OF s(2) registered_Some_entry [OF s(2,3)], of 1] s(1) show ?thesis
    by (auto simp: kNoneEvent_def)
qed

text \<open>
  C19: what a poll reports. Every active channel is a live channel of the loop that was
  registered before the poll; it appears once; a read callback is dispatched only for a channel
  that is reading and a write callback only for one that is writing. The agreement with the
  kernel survives, and channels that are not active are untouched.
\<close>

theorem poll_reports_wanted:
  assumes "reg_inv os l s" "epoll_wait_documented os"
  shows "\<exists>active now s'. poll_phase os me l s = Inr (active, now, s') \<and> reg_inv os l s' \<and> distinct active \<and>
    (\<forall>p \<in> set active. registered l s p \<noteq> None \<and> (\<exists>c. chans s' p = Some c \<and> ch_loop c = l \<and>
       (wants_read (ch_revents c) \<longrightarrow> isReading c) \<and> (wants_write (ch_revents c) \<longrightarrow> isWriting c))) \<and>
    (\<forall>p. p \<notin> set active \<longrightarrow> chans s' p = chans s p)"
proof -
  from poll_phase_ok [OF assms, of me] obtain active now s' where
    s': "poll_phase os me l s = Inr (active, now, s')" "reg_inv os l s'" "distinct active"
    "\<forall>p \<in> set active. \<exists>c r. chans s' p = Some c \<and> ch_loop c = l \<and> ch_index c = kAdded \<and>
       allowed_events c \<and> chans s p = Some (c\<lparr>ch_revents := r\<rparr>)"
    "\<forall>p. p \<notin> set active \<longrightarrow> chans s' p = chans s p" by blast
  have "registered l s p \<noteq> None \<and> (\<exists>c. chans s' p = Some c \<and> ch_loop c = l \<and>
       (wants_read (ch_revents c) \<longrightarrow> isReading c) \<and> (wants_write (ch_revents c) \<longrightarrow> isWriting c))"
    if "p \<in> set active" for p
  proof -
    from that s'(4) obtain c r where c: "chans s' p = Some c" "ch_loop c = l" "ch_index c = kAdded"
      "allowed_events c" "chans s p = Some (c\<lparr>ch_revents := r\<rparr>)" by blast
    have "registered l s p \<noteq> None"
      using registered_entry [OF assms(1) c(5)] c(2,3) by (simp add: kernel_mask_def)
    with c(1,2) allowed_read [OF c(4)] allowed_write [OF c(4)] show ?thesis by blast
  qed
  with s' show ?thesis by blast
qed

theorem poll_reports_wanted_witness:
  "\<exists>s active now s'. mkEventLoop plain_os 1 False 0 0 reactor0 = Inr s \<and>
    poll_phase plain_os 1 0 s = Inr (active, now, s') \<and> distinct active"
proof -
  from mkEventLoop_ok [OF reactor0_new_loop] obtain s where
    s: "mkEventLoop plain_os 1 False 0 0 reactor0 = Inr s" "reg_inv plain_os 0 s" by blast
  have "epoll_wait_documented plain_os"
    by (simp add: epoll_wait_documented_def plain_os_def ret_val_def)
  from poll_reports_wanted [OF s(2) this, of 1] s(1) show ?thesis by blast
qed

text \<open>
  C29: a channel that was disabled and removed, as \<open>connectDestroyed\<close> does, is gone: neither call
  faults, the poller does not know it any more, and the next poll cannot report it.
\<close>

theorem removed_channel_not_reported:
  assumes "reg_inv os l s" "epoll_wait_documented os" "chan_entry l s p = Some e"
  shows "\<exists>s1 s2 active now s3. set_events os me DisableAll p s = Inr s1 \<and> channel_remove os me p s1 = Inr s2 \<and>
    registered l s2 p = None \<and> poll_phase os me l s2 = Inr (active, now, s3) \<and> p \<notin> set active"
proof -
  from reg.change_then_remove [OF assms(1,3), of me DisableAll] obtain s1 s2 where
    s2: "set_events os me DisableAll p s = Inr s1" "channel_remove os me p s1 = Inr s2" "reg_inv os l s2"
    "chan_entry l s2 p = Some (kNoneEvent, False)" by auto
  then have r: "registered l s2 p = None" using registered_of_entry by (fastforce simp: kernel_mask_def)
  from poll_phase_ok [OF s2(3) assms(2), of me] obtain active now s3 where
    s3: "poll_phase os me l s2 = Inr (active, now, s3)"
    "\<forall>p \<in> set active. \<exists>c r. chans s3 p = Some c \<and> ch_loop c = l \<and> ch_index c = kAdded \<and>
       allowed_events c \<and> chans s2 p = Some (c\<lparr>ch_revents := r\<rparr>)" by blast
  have "p \<notin> set active"
  proof
    assume "p \<in> set active"
    with s3(2) obtain c r where "ch_loop c = l" "ch_index c = kAdded" "chans s2 p = Some (c\<lparr>ch_revents := r\<rparr>)"
      by blast
    then have "chan_entry l s2 p = Some (ch_events c, True)" by (simp add: chan_entry_def chan_of_def)
    with s2(4) show False by simp
  qed
  with s2 s3 r show ?thesis by blast
qed

theorem removed_channel_not_reported_witness:
  "\<exists>s s1 s2 active now s3. mkEventLoop plain_os 1 False 0 0 reactor0 = Inr s \<and>
    set_events plain_os 1 DisableAll 0 s = Inr s1 \<and> channel_remove plain_os 1 0 s1 = Inr s2 \<and>
    registered 0 s2 0 = None \<and> poll_phase plain_os 1 0 s2 = Inr (active, now, s3) \<and> 0 \<notin> set active"
proof -
  from mkEventLoop_ok [OF reactor0_new_loop] obtain s where
    s: "mkEventLoop plain_os 1 False 0 0 reactor0 = Inr s" "reg_inv plain_os 0 s"
    "registered 0 s 0 = Some kReadEvent" by blast
  have "epoll_wait_documented plain_os"
    by (simp add: epoll_wait_documented_def plain_os_def ret_val_def)
  from removed_channel_not_reported [OF s(2) this registered_Some_entry [OF s(2,3)], of 1] s(1)
  show ?thesis by blast
qed


definition idle_loop :: "tid \<Rightarrow> eventloop" where
  "idle_loop me = \<lparr>looping = False, quit_flag = False, threadId = me, pollReturnTime = 0, loop_poller = None,
     wakeFd = 4, wakeupChannel = 0, activeChannels = [], callingPendingFunctors = False, pendingFunctors = []\<rparr>"


end
