(* ===== verification/LoopThreads.thy ===== *)
theory LoopThreads
  imports EventLoop
begin

section \<open>The loop thread and the threads that give it work\<close>

text \<open>
  The concurrency of Eventloop.cpp. The thread of a loop runs \<open>loop\<close>; other threads call
  \<open>queueInLoop\<close> and \<open>quit\<close> at any time. A step is what happens between two points where another
  thread can interfere: the block under the mutex (\<open>push_functor\<close>, \<open>swap_pending\<close>), a store to
  one of the atomic flags, a system call. The steps are built from the definitions of the theory
  EventLoop. Callbacks and functors are arbitrary: while one runs, the loop thread may itself
  call \<open>queueInLoop\<close> and \<open>quit\<close> any number of times.
\<close>

subsection \<open>The eventfd\<close>

text \<open>The counter of an eventfd after a trace: a write adds one, a read resets it.\<close>

fun eventfd_step :: "int \<Rightarrow> (tid \<times> syscall \<times> sysret) \<Rightarrow> nat \<Rightarrow> nat" where
  "eventfd_step w (_, WriteFd fd d, r) n = (if fd = w \<and> ret r = 8 then Suc n else n)"
| "eventfd_step w (_, ReadFd fd k, r) n = (if fd = w \<and> ret r = 8 then 0 else n)"
| "eventfd_step w (_, _, r) n = n"

definition eventfd_count :: "int \<Rightarrow> trace \<Rightarrow> nat" where
  "eventfd_count w tr = fold (eventfd_step w) tr 0"

lemma eventfd_count_append [simp]:
  "eventfd_count w (tr @ xs) = fold (eventfd_step w) xs (eventfd_count w tr)"
  by (simp add: eventfd_count_def)

text \<open>\<open>eventfd(2)\<close>: a write of the value 1 succeeds unless the counter is at its maximum.\<close>

definition eventfd_documented :: "os \<Rightarrow> bool" where
  "eventfd_documented os \<longleftrightarrow> (\<forall>tr w. ret (os tr (WriteFd w eventfd_one)) = 8 \<or> 0 < eventfd_count w tr)"

subsection \<open>States and steps\<close>

text \<open>Where the loop thread is: outside \<open>loop\<close>, at the test of the flag, in \<open>epoll_wait\<close>, at the
  callbacks of the active channels that are left, before the swap, at the functors that are left.\<close>

datatype loop_pc = PcOutside | PcTest | PcPoll | PcHandle "chan_id list" | PcSwap | PcRun "Functor list"

text \<open>
  \<open>wakers\<close> are the threads that have published something and not yet written to the eventfd;
  \<open>enqueued\<close> and \<open>executed\<close> record the history of the queue.
\<close>

record loop_sys =
  rs :: reactor
  pc :: loop_pc
  wakers :: "tid list"
  enqueued :: "Functor list"
  executed :: "Functor list"

fun in_callback :: "loop_pc \<Rightarrow> bool" where
  "in_callback (PcHandle ps) = True"
| "in_callback (PcRun fs) = True"
| "in_callback _ = False"

inductive loop_step :: "os \<Rightarrow> loop_id \<Rightarrow> tid \<Rightarrow> loop_sys \<Rightarrow> loop_sys \<Rightarrow> bool" for os l me where
  enter: "pc s = PcOutside \<Longrightarrow> loop_enter l (rs s) = Inr r \<Longrightarrow>
     loop_step os l me s (s\<lparr>rs := r, pc := PcTest\<rparr>)"
| test_go: "pc s = PcTest \<Longrightarrow> loops (rs s) l = Some lp \<Longrightarrow> \<not> quit_flag lp \<Longrightarrow>
     loop_step os l me s (s\<lparr>pc := PcPoll\<rparr>)"
| test_stop: "pc s = PcTest \<Longrightarrow> loops (rs s) l = Some lp \<Longrightarrow> quit_flag lp \<Longrightarrow> loop_leave l (rs s) = Inr r \<Longrightarrow>
     loop_step os l me s (s\<lparr>rs := r, pc := PcOutside\<rparr>)"
| poll_returns: "pc s = PcPoll \<Longrightarrow> poll_phase os me l (rs s) = Inr (active, now, r) \<Longrightarrow>
     loop_step os l me s (s\<lparr>rs := r, pc := PcHandle active\<rparr>)"
| handle_wakeup: "pc s = PcHandle (p # ps) \<Longrightarrow> loops (rs s) l = Some lp \<Longrightarrow> p = wakeupChannel lp \<Longrightarrow>
     loop_handleRead os me l (rs s) = Inr r \<Longrightarrow> loop_step os l me s (s\<lparr>rs := r, pc := PcHandle ps\<rparr>)"
| handle_other: "pc s = PcHandle (p # ps) \<Longrightarrow> loops (rs s) l = Some lp \<Longrightarrow> p \<noteq> wakeupChannel lp \<Longrightarrow>
     loop_step os l me s (s\<lparr>pc := PcHandle ps\<rparr>)"
| begin_pending: "pc s = PcHandle [] \<Longrightarrow> set_calling True l (rs s) = Inr r \<Longrightarrow>
     loop_step os l me s (s\<lparr>rs := r, pc := PcSwap\<rparr>)"
| swap: "pc s = PcSwap \<Longrightarrow> swap_pending l (rs s) = Inr (fs, r) \<Longrightarrow>
     loop_step os l me s (s\<lparr>rs := r, pc := PcRun fs\<rparr>)"
| run: "pc s = PcRun (f # fs) \<Longrightarrow>
     loop_step os l me s (s\<lparr>pc := PcRun fs, executed := executed s @ [f]\<rparr>)"
| end_pending: "pc s = PcRun [] \<Longrightarrow> set_calling False l (rs s) = Inr r \<Longrightarrow>
     loop_step os l me s (s\<lparr>rs := r, pc := PcTest\<rparr>)"
| own_queue: "in_callback (pc s) \<Longrightarrow> queueInLoop os me l f (rs s) = Inr r \<Longrightarrow>
     loop_step os l me s (s\<lparr>rs := r, enqueued := enqueued s @ [f]\<rparr>)"
| own_quit: "in_callback (pc s) \<Longrightarrow> quit os me l (rs s) = Inr r \<Longrightarrow>
     loop_step os l me s (s\<lparr>rs := r\<rparr>)"
| other_push: "t \<noteq> me \<Longrightarrow> push_functor l f (rs s) = Inr r \<Longrightarrow>
     loop_step os l me s (s\<lparr>rs := r, enqueued := enqueued s @ [f], wakers := t # wakers s\<rparr>)"
| other_quit: "t \<noteq> me \<Longrightarrow> upd_loop l (\<lambda>lp. lp\<lparr>quit_flag := True\<rparr>) (rs s) = Inr r \<Longrightarrow>
     loop_step os l me s (s\<lparr>rs := r, wakers := t # wakers s\<rparr>)"
| other_wakes: "t \<in> set (wakers s) \<Longrightarrow> wakeup os t l (rs s) = Inr r \<Longrightarrow>
     loop_step os l me s (s\<lparr>rs := r, wakers := remove1 t (wakers s)\<rparr>)"

text \<open>The start: a loop of this thread that is not running, with an empty queue.\<close>

definition loop_start :: "loop_id \<Rightarrow> tid \<Rightarrow> int \<Rightarrow> loop_sys \<Rightarrow> bool" where
  "loop_start l me w s \<longleftrightarrow> (\<exists>lp. loops (rs s) l = Some lp \<and> threadId lp = me \<and> wakeFd lp = w \<and>
     pendingFunctors lp = [] \<and> \<not> callingPendingFunctors lp) \<and>
     pc s = PcOutside \<and> wakers s = [] \<and> enqueued s = [] \<and> executed s = []"

inductive loop_reachable :: "os \<Rightarrow> loop_id \<Rightarrow> tid \<Rightarrow> int \<Rightarrow> loop_sys \<Rightarrow> bool" for os l me w where
  start: "loop_start l me w s \<Longrightarrow> loop_reachable os l me w s"
| step: "loop_reachable os l me w s \<Longrightarrow> loop_step os l me s s' \<Longrightarrow> loop_reachable os l me w s'"

subsection \<open>The invariant\<close>

fun running_rest :: "loop_pc \<Rightarrow> Functor list" where
  "running_rest (PcRun fs) = fs"
| "running_rest _ = []"

fun calling_at :: "loop_pc \<Rightarrow> bool" where
  "calling_at PcSwap = True"
| "calling_at (PcRun fs) = True"
| "calling_at _ = False"

text \<open>Where work that is waiting must have announced itself: everywhere but between the return of
  \<open>epoll_wait\<close> and the swap, where it is about to be taken anyway.\<close>

fun needs_signal :: "loop_pc \<Rightarrow> bool" where
  "needs_signal (PcHandle ps) = False"
| "needs_signal PcSwap = False"
| "needs_signal _ = True"

definition signalled :: "int \<Rightarrow> loop_sys \<Rightarrow> bool" where
  "signalled w s \<longleftrightarrow> 0 < eventfd_count w (io_trace (rs s)) \<or> wakers s \<noteq> []"

lemma signalled_iff: "signalled w s \<longleftrightarrow> 0 < eventfd_count w (io_trace (rs s)) \<or> (\<exists>t. t \<in> set (wakers s))"
  by (cases "wakers s") (auto simp: signalled_def)

definition loop_sys_inv :: "loop_id \<Rightarrow> tid \<Rightarrow> int \<Rightarrow> loop_sys \<Rightarrow> bool" where
  "loop_sys_inv l me w s \<longleftrightarrow> (\<exists>lp. loops (rs s) l = Some lp \<and> threadId lp = me \<and> wakeFd lp = w \<and>
     callingPendingFunctors lp = calling_at (pc s) \<and>
     executed s @ running_rest (pc s) @ pendingFunctors lp = enqueued s \<and>
     (needs_signal (pc s) \<longrightarrow> pendingFunctors lp \<noteq> [] \<longrightarrow> signalled w s) \<and>
     (pc s = PcPoll \<longrightarrow> quit_flag lp \<longrightarrow> signalled w s))"

lemmas loop_ops = loop_enter_def loop_leave_def set_calling_def swap_pending_def push_functor_def
  upd_loop_eq_Inr rbind_eq_Inr

lemma loop_start_inv: "loop_start l me w s \<Longrightarrow> loop_sys_inv l me w s"
  by (auto simp: loop_start_def loop_sys_inv_def)

lemma wakeup_signals:
  assumes "eventfd_documented os" "loops r l = Some lp" "wakeup os t l r = Inr r'"
  shows "0 < eventfd_count (wakeFd lp) (io_trace r')" and "loops r' = loops r"
proof -
  have "ret (os (io_trace r) (WriteFd (wakeFd lp) eventfd_one)) = 8 \<or> 0 < eventfd_count (wakeFd lp) (io_trace r)"
    using assms(1) by (simp add: eventfd_documented_def)
  with assms(2,3) show "0 < eventfd_count (wakeFd lp) (io_trace r')" and "loops r' = loops r"
    by (auto simp: wakeup_def)
qed

text \<open>The steps that move the loop thread.\<close>

lemma inv_poll_returns:
  assumes inv: "loop_sys_inv l me w s" and pc: "pc s = PcPoll" and poll: "poll_phase os me l (rs s) = Inr (active, now, r)"
  shows "loop_sys_inv l me w (s\<lparr>rs := r, pc := PcHandle active\<rparr>)"
proof -
  from inv obtain lp where lp: "loops (rs s) l = Some lp" by (auto simp: loop_sys_inv_def)
  from poll_phase_frame [OF poll lp] obtain lp' where
    "loops r l = Some lp'" "loop_core lp' = loop_core lp" by blast
  with inv lp pc show ?thesis by (auto simp: loop_sys_inv_def loop_core_def)
qed

lemma inv_handle_wakeup:
  assumes "loop_sys_inv l me w s" "pc s = PcHandle (p # ps)" "loop_handleRead os me l (rs s) = Inr r"
  shows "loop_sys_inv l me w (s\<lparr>rs := r, pc := PcHandle ps\<rparr>)"
  using assms by (auto simp: loop_sys_inv_def loop_handleRead_def)

lemma inv_swap:
  assumes "loop_sys_inv l me w s" "pc s = PcSwap" "swap_pending l (rs s) = Inr (fs, r)"
  shows "loop_sys_inv l me w (s\<lparr>rs := r, pc := PcRun fs\<rparr>)"
  using assms by (auto simp: loop_sys_inv_def swap_pending_def)

lemma inv_own_queue:
  assumes doc: "eventfd_documented os" and inv: "loop_sys_inv l me w s" and cb: "in_callback (pc s)"
    and q: "queueInLoop os me l f (rs s) = Inr r"
  shows "loop_sys_inv l me w (s\<lparr>rs := r, enqueued := enqueued s @ [f]\<rparr>)"
proof -
  from inv obtain lp where lp: "loops (rs s) l = Some lp" "threadId lp = me" "wakeFd lp = w"
    "callingPendingFunctors lp = calling_at (pc s)"
    "executed s @ running_rest (pc s) @ pendingFunctors lp = enqueued s"
    by (auto simp: loop_sys_inv_def)
  define lp' where "lp' = lp\<lparr>pendingFunctors := pendingFunctors lp @ [f]\<rparr>"
  have r: "r = (if calling_at (pc s) then snd (do_call os me (WriteFd w eventfd_one) (put_loop l lp' (rs s)))
      else put_loop l lp' (rs s))"
    using q lp by (auto simp: queueInLoop_ok [OF lp(1)] must_wake_def isInLoopThread_def lp'_def)
  have "ret (os (io_trace (rs s)) (WriteFd w eventfd_one)) = 8 \<or> 0 < eventfd_count w (io_trace (rs s))"
    using doc by (simp add: eventfd_documented_def)
  then have "calling_at (pc s) \<Longrightarrow> 0 < eventfd_count w (io_trace r)" by (auto simp: r)
  moreover have "calling_at (pc s) \<or> \<not> needs_signal (pc s)" "pc s \<noteq> PcPoll" using cb by (cases "pc s"; simp)+
  moreover have "loops r l = Some lp'" by (simp add: r)
  ultimately show ?thesis using lp by (auto simp: loop_sys_inv_def lp'_def signalled_def)
qed

lemma inv_own_quit:
  assumes inv: "loop_sys_inv l me w s" and cb: "in_callback (pc s)" and q: "quit os me l (rs s) = Inr r"
  shows "loop_sys_inv l me w (s\<lparr>rs := r\<rparr>)"
proof -
  from inv obtain lp where lp: "loops (rs s) l = Some lp" "threadId lp = me" by (auto simp: loop_sys_inv_def)
  have "r = put_loop l (lp\<lparr>quit_flag := True\<rparr>) (rs s)"
    using q lp by (simp add: quit_def isInLoopThread_def)
  moreover have "pc s \<noteq> PcPoll" using cb by (cases "pc s") simp_all
  ultimately show ?thesis using inv lp by (auto simp: loop_sys_inv_def signalled_def)
qed

lemma inv_other_wakes:
  assumes doc: "eventfd_documented os" and inv: "loop_sys_inv l me w s" and q: "wakeup os t l (rs s) = Inr r"
  shows "loop_sys_inv l me w (s\<lparr>rs := r, wakers := ws\<rparr>)"
proof -
  from inv obtain lp where lp: "loops (rs s) l = Some lp" "wakeFd lp = w" by (auto simp: loop_sys_inv_def)
  from wakeup_signals [OF doc lp(1) q] lp(2) have "0 < eventfd_count w (io_trace r)" "loops r = loops (rs s)"
    by auto
  with inv show ?thesis by (auto simp: loop_sys_inv_def signalled_def)
qed

lemma loop_step_inv:
  assumes "eventfd_documented os" "loop_step os l me s s'" "loop_sys_inv l me w s"
  shows "loop_sys_inv l me w s'"
  using assms(2,3)
proof (cases rule: loop_step.cases)
  case enter
  with assms(3) show ?thesis by (auto simp: loop_ops loop_sys_inv_def signalled_def)
next
  case test_go
  with assms(3) show ?thesis by (auto simp: loop_sys_inv_def signalled_def)
next
  case test_stop
  with assms(3) show ?thesis by (auto simp: loop_ops loop_sys_inv_def signalled_def)
next
  case handle_other
  with assms(3) show ?thesis by (auto simp: loop_sys_inv_def)
next
  case begin_pending
  with assms(3) show ?thesis by (auto simp: loop_ops loop_sys_inv_def)
next
  case run
  with assms(3) show ?thesis by (auto simp: loop_sys_inv_def signalled_def)
next
  case end_pending
  with assms(3) show ?thesis by (auto simp: loop_ops loop_sys_inv_def signalled_def)
next
  case other_push
  with assms(3) show ?thesis by (auto simp: loop_ops loop_sys_inv_def signalled_def)
next
  case other_quit
  with assms(3) show ?thesis by (auto simp: loop_ops loop_sys_inv_def signalled_def)
qed (use assms inv_poll_returns inv_handle_wakeup inv_swap inv_own_queue inv_own_quit inv_other_wakes
  in \<open>simp; blast\<close>)+

lemma loop_reachable_inv:
  assumes "eventfd_documented os" "loop_reachable os l me w s"
  shows "loop_sys_inv l me w s"
  using assms(2)
  by (induction rule: loop_reachable.induct) (auto intro: loop_start_inv loop_step_inv [OF assms(1)])

text \<open>Once set, the flag stays set until \<open>loop\<close> is entered again.\<close>

lemma quit_stays:
  assumes "loop_step os l me s s'" "quitting l (rs s)" "pc s \<noteq> PcOutside"
  shows "quitting l (rs s')"
  using assms
proof (cases rule: loop_step.cases)
  case (poll_returns active now r)
  from assms(2) obtain lp where lp: "loops (rs s) l = Some lp" by (auto simp: quitting_def split: option.splits)
  from poll_phase_frame [OF poll_returns(3) lp] obtain lp' where
    "loops r l = Some lp'" "loop_core lp' = loop_core lp" by blast
  with poll_returns assms(2) lp show ?thesis by (simp add: quitting_def loop_core_def)
next
  case (own_queue f r)
  from assms(2) obtain lp where lp: "loops (rs s) l = Some lp" by (auto simp: quitting_def split: option.splits)
  with own_queue assms(2) show ?thesis
    by (auto simp: queueInLoop_ok [OF lp] quitting_def split: if_splits)
qed (auto simp: loop_ops quitting_def loop_handleRead_def wakeup_def quit_def split: option.splits if_splits)

subsection \<open>Properties\<close>

text \<open>A run for the examples: the loop thread enters and blocks, then thread 2 queues a functor.\<close>

definition example_start :: loop_sys where
  "example_start = \<lparr>rs = put_loop 0 (idle_loop 1) reactor0, pc = PcOutside, wakers = [], enqueued = [],
     executed = []\<rparr>"

definition example_entered :: loop_sys where
  "example_entered = example_start\<lparr>rs := put_loop 0 ((idle_loop 1)\<lparr>looping := True\<rparr>) reactor0, pc := PcPoll\<rparr>"

definition example_queued :: loop_sys where
  "example_queued = example_entered\<lparr>rs := put_loop 0 ((idle_loop 1)\<lparr>looping := True,
     pendingFunctors := [AcceptorListen]\<rparr>) reactor0, enqueued := [AcceptorListen], wakers := [2]\<rparr>"

definition example_quit :: loop_sys where
  "example_quit = example_entered\<lparr>rs := put_loop 0 ((idle_loop 1)\<lparr>looping := True, quit_flag := True\<rparr>) reactor0,
     wakers := [2]\<rparr>"

lemma put_loop_twice [simp]: "put_loop l lp' (put_loop l lp s) = put_loop l lp' s"
  by (simp add: put_loop_def)

lemma example_started: "loop_start 0 1 4 example_start"
  by (simp add: loop_start_def example_start_def idle_loop_def)

lemma example_entered_reachable: "loop_reachable os 0 1 4 example_entered"
proof -
  let ?r = "put_loop 0 ((idle_loop 1)\<lparr>looping := True\<rparr>) reactor0"
  let ?s = "example_start\<lparr>rs := ?r, pc := PcTest\<rparr>"
  have "loop_step os 0 1 example_start ?s"
    by (rule loop_step.enter) (simp_all add: example_start_def loop_enter_def idle_loop_def)
  with loop_reachable.start [OF example_started] have "loop_reachable os 0 1 4 ?s"
    by (rule loop_reachable.step)
  moreover have "loop_step os 0 1 ?s (?s\<lparr>pc := PcPoll\<rparr>)"
    by (rule loop_step.test_go [where lp = "(idle_loop 1)\<lparr>looping := True\<rparr>"]) (simp_all add: idle_loop_def)
  ultimately show ?thesis unfolding example_entered_def by (simp add: loop_reachable.step)
qed

lemma example_queued_reachable: "loop_reachable os 0 1 4 example_queued"
proof -
  have "loop_step os 0 1 example_entered (example_entered\<lparr>rs := put_loop 0 ((idle_loop 1)\<lparr>looping := True,
      pendingFunctors := [AcceptorListen]\<rparr>) reactor0, enqueued := enqueued example_entered @ [AcceptorListen],
      wakers := 2 # wakers example_entered\<rparr>)"
    by (rule loop_step.other_push) (simp_all add: example_entered_def push_functor_def idle_loop_def)
  with example_entered_reachable show ?thesis
    using loop_reachable.step unfolding example_queued_def
    by (fastforce simp: example_entered_def example_start_def)
qed

lemma example_quit_reachable: "loop_reachable os 0 1 4 example_quit"
proof -
  have "loop_step os 0 1 example_entered (example_entered\<lparr>rs := put_loop 0 ((idle_loop 1)\<lparr>looping := True,
      quit_flag := True\<rparr>) reactor0, wakers := 2 # wakers example_entered\<rparr>)"
    by (rule loop_step.other_quit) (simp_all add: example_entered_def idle_loop_def)
  with example_entered_reachable show ?thesis
    using loop_reachable.step unfolding example_quit_def
    by (fastforce simp: example_entered_def example_start_def)
qed

lemma plain_os_eventfd: "eventfd_documented plain_os"
  by (simp add: eventfd_documented_def plain_os_def eventfd_one_def ret_val_def)



text \<open>
  C14: every functor is executed at most once and in the order of queueing, and none is dropped: in
  every reachable state the functors executed, those of the batch being executed and those in the
  queue are, in this order, all functors queued so far. The flag \<open>callingPendingFunctors_\<close> is set
  exactly while a batch is being taken and executed.
\<close>

theorem functors_fifo_exactly_once:
  assumes "eventfd_documented os" "loop_reachable os l me w s"
  shows "\<exists>lp. loops (rs s) l = Some lp \<and>
    executed s @ running_rest (pc s) @ pendingFunctors lp = enqueued s \<and>
    callingPendingFunctors lp = calling_at (pc s)"
  using loop_reachable_inv [OF assms] by (auto simp: loop_sys_inv_def)

theorem functors_fifo_exactly_once_witness:
  "\<exists>lp. loops (rs example_queued) 0 = Some lp \<and>
    executed example_queued @ running_rest (pc example_queued) @ pendingFunctors lp = [AcceptorListen]"
  using functors_fifo_exactly_once [OF plain_os_eventfd example_queued_reachable]
  by (auto simp: example_queued_def)



text \<open>
  A quit requested before \<open>loop\<close> is entered is lost: the request sets the flag, and entering
  the loop clears it.
\<close>

theorem quit_before_loop_is_lost:
  assumes "loop_start l me w s" "t \<noteq> me"
  shows "\<exists>s1 s2. loop_step os l me s s1 \<and> quitting l (rs s1) \<and> loop_step os l me s1 s2 \<and>
    pc s2 = PcTest \<and> \<not> quitting l (rs s2)"
proof -
  from assms(1) obtain lp where lp: "loops (rs s) l = Some lp" "pc s = PcOutside" by (auto simp: loop_start_def)
  let ?r1 = "put_loop l (lp\<lparr>quit_flag := True\<rparr>) (rs s)"
  let ?r2 = "put_loop l (lp\<lparr>looping := True, quit_flag := False\<rparr>) (rs s)"
  let ?s1 = "s\<lparr>rs := ?r1, wakers := t # wakers s\<rparr>"
  have "loop_step os l me s ?s1"
    by (rule loop_step.other_quit) (use assms(2) lp in simp_all)
  moreover have "loop_step os l me ?s1 (?s1\<lparr>rs := ?r2, pc := PcTest\<rparr>)"
    by (rule loop_step.enter) (use lp in \<open>simp_all add: loop_enter_def\<close>)
  moreover have "quitting l (rs ?s1)" "\<not> quitting l (rs (?s1\<lparr>rs := ?r2, pc := PcTest\<rparr>))"
    "pc (?s1\<lparr>rs := ?r2, pc := PcTest\<rparr>) = PcTest" by (simp_all add: quitting_def)
  ultimately show ?thesis by blast
qed

theorem quit_before_loop_is_lost_witness:
  "\<exists>s1 s2. loop_step plain_os 0 1 example_start s1 \<and> quitting 0 (rs s1) \<and> loop_step plain_os 0 1 s1 s2 \<and>
    pc s2 = PcTest \<and> \<not> quitting 0 (rs s2)"
  by (rule quit_before_loop_is_lost [OF example_started, of 2]) simp

end
