(* ===== verification/Buffer.thy ===== *)
theory Buffer
  imports Prelude
begin

section \<open>The byte buffer (Buffer.h, Buffer.cpp)\<close>

text \<open>
  The vector with its two indices, every operation of the class, and what each does to the
  readable bytes. The indices are 64-bit words, as \<open>size_t\<close> is; an access outside the
  vector is a fault. \<open>readv\<close> and \<open>write\<close> are answers of the kernel, given as arguments.
  The first part are the definitions, then the invariant, then the functional behaviour of
  each operation against the queue of readable bytes, and the interface \<open>byte_queue\<close> that
  the connections use.
\<close>

subsection \<open>State and operations\<close>

record buffer =
  buf_vec :: "byte list"
  readerIndex :: size_t
  writeIndex :: size_t

definition kCheapPrepend :: size_t where "kCheapPrepend = 8"

definition kInitialSize :: size_t where "kInitialSize = 1024"

definition mkBuffer :: "size_t \<Rightarrow> buffer" where
  "mkBuffer initialSize =
     \<lparr>buf_vec = replicate (unat (kCheapPrepend + initialSize)) 0,
      readerIndex = kCheapPrepend, writeIndex = kCheapPrepend\<rparr>"

definition vec_size :: "buffer \<Rightarrow> size_t" where
  "vec_size b = of_nat (length (buf_vec b))"

definition readableBytes :: "buffer \<Rightarrow> size_t" where
  "readableBytes b = writeIndex b - readerIndex b"

definition writeableBytes :: "buffer \<Rightarrow> size_t" where
  "writeableBytes b = vec_size b - writeIndex b"

definition prependableBytes :: "buffer \<Rightarrow> size_t" where
  "prependableBytes b = readerIndex b"

definition retrieveAll :: "buffer \<Rightarrow> buffer" where
  "retrieveAll b = b\<lparr>readerIndex := kCheapPrepend, writeIndex := kCheapPrepend\<rparr>"

definition retrieve :: "size_t \<Rightarrow> buffer \<Rightarrow> buffer" where
  "retrieve len b =
     (if len < readableBytes b then b\<lparr>readerIndex := readerIndex b + len\<rparr>
      else retrieveAll b)"

text \<open>\<open>std::string(peek(), len)\<close> reads \<open>len\<close> bytes from \<open>readerIndex\<close> on.\<close>

definition peek_bytes :: "size_t \<Rightarrow> buffer \<Rightarrow> byte list res" where
  "peek_bytes len b =
     (if unat (readerIndex b) + unat len \<le> length (buf_vec b)
      then Inr (take (unat len) (drop (unat (readerIndex b)) (buf_vec b)))
      else Inl HeapOverread)"

definition retrieveAsString :: "size_t \<Rightarrow> buffer \<Rightarrow> (byte list \<times> buffer) res" where
  "retrieveAsString len b = rbind (peek_bytes len b) (\<lambda>s. Inr (s, retrieve len b))"

definition retrieveAllAsString :: "buffer \<Rightarrow> (byte list \<times> buffer) res" where
  "retrieveAllAsString b = retrieveAsString (readableBytes b) b"

text \<open>
  \<open>std::vector<char>::resize\<close> throws \<open>length_error\<close> above \<open>max_size()\<close>, which is
  \<open>PTRDIFF_MAX\<close>.
\<close>

definition max_size :: nat where "max_size = 2 ^ 63 - 1"

definition vec_resize :: "size_t \<Rightarrow> buffer \<Rightarrow> buffer res" where
  "vec_resize n b = (if unat n \<le> max_size
      then Inr (b\<lparr>buf_vec := resize_to 0 (unat n) (buf_vec b)\<rparr>) else Inl LengthError)"

definition makespace :: "size_t \<Rightarrow> buffer \<Rightarrow> buffer res" where
  "makespace len b =
     (if writeableBytes b + prependableBytes b < len + kCheapPrepend
      then vec_resize (writeIndex b + len) b
      else let readable = readableBytes b in
        Inr (b\<lparr>buf_vec := move_to (buf_vec b) (unat (readerIndex b)) (unat readable)
                             (unat kCheapPrepend),
               readerIndex := kCheapPrepend,
               writeIndex := kCheapPrepend + readable\<rparr>))"

definition ensureWriteableBytes :: "size_t \<Rightarrow> buffer \<Rightarrow> buffer res" where
  "ensureWriteableBytes len b = (if writeIndex b < len then makespace len b else Inr b)"

text \<open>\<open>std::copy(data, data + len, beginWrite())\<close>: the bytes must fit into the vector.\<close>

definition copy_to_write :: "byte list \<Rightarrow> buffer \<Rightarrow> buffer res" where
  "copy_to_write data b =
     (if unat (writeIndex b) + length data \<le> length (buf_vec b)
      then Inr (b\<lparr>buf_vec := write_at (buf_vec b) (unat (writeIndex b)) data\<rparr>)
      else Inl HeapOverflow)"

definition buf_append :: "byte list \<Rightarrow> buffer \<Rightarrow> buffer res" where
  "buf_append data b =
     (let len = of_nat (length data) in
      rbind (ensureWriteableBytes len b) (\<lambda>b1.
      rbind (copy_to_write data b1) (\<lambda>b2.
      Inr (b2\<lparr>writeIndex := writeIndex b2 + len\<rparr>))))"

text \<open>
  \<open>readFd\<close>: the two \<open>iovec\<close> entries, the \<open>readv\<close> answer (an errno or the bytes it
  delivered, scattered over the entries in order), and the three ways to go on. The result is
  the return value, the buffer and the value stored in \<open>saveErrno\<close>, if any.
\<close>

definition extrabuf_size :: nat where "extrabuf_size = 65536"

definition readFd_iov :: "buffer \<Rightarrow> size_t \<times> nat" where
  "readFd_iov b = (writeIndex b,
     if writeableBytes b < of_nat extrabuf_size then extrabuf_size else 0)"

definition readFd_capacity :: "buffer \<Rightarrow> nat" where
  "readFd_capacity b = unat (fst (readFd_iov b)) + snd (readFd_iov b)"

definition readFd :: "int + byte list \<Rightarrow> buffer \<Rightarrow> (int \<times> buffer \<times> int option) res" where
  "readFd answer b =
     (let writeable = writeableBytes b; iov0 = unat (fst (readFd_iov b)) in
      case answer of
        Inl err \<Rightarrow> Inr (-1, b, Some err)
      | Inr data \<Rightarrow>
          let n = length data;
              extrabuf = write_at (replicate extrabuf_size 0) 0 (drop iov0 data) in
          rbind (copy_to_write (take iov0 data) b) (\<lambda>b1.
          if of_nat n \<le> writeable
          then Inr (int n, b1\<lparr>writeIndex := writeIndex b1 + of_nat n\<rparr>, None)
          else let rest = unat (of_nat n - writeable) in
            if rest \<le> extrabuf_size
            then rbind (buf_append (take rest extrabuf) (b1\<lparr>writeIndex := vec_size b1\<rparr>))
                   (\<lambda>b2. Inr (int n, b2, None))
            else Inl StackOverread))"

text \<open>
  \<open>writeFd\<close> hands \<open>[peek(), peek() + readableBytes())\<close> to \<open>write\<close>; the answer is an
  errno or a count. The buffer itself is not changed.
\<close>

definition writeFd_data :: "buffer \<Rightarrow> byte list res" where
  "writeFd_data b = peek_bytes (readableBytes b) b"

definition writeFd :: "int + nat \<Rightarrow> buffer \<Rightarrow> (int \<times> int option) res" where
  "writeFd answer b = rbind (writeFd_data b) (\<lambda>_.
     case answer of Inl err \<Rightarrow> Inr (-1, Some err) | Inr n \<Rightarrow> Inr (int n, None))"

subsection \<open>Invariant and abstraction\<close>

definition buf_wf :: "buffer \<Rightarrow> bool" where
  "buf_wf b \<longleftrightarrow> 8 \<le> unat (readerIndex b) \<and> unat (readerIndex b) \<le> unat (writeIndex b) \<and>
     unat (writeIndex b) \<le> length (buf_vec b) \<and> length (buf_vec b) \<le> max_size"

definition contents :: "buffer \<Rightarrow> byte list" where
  "contents b = slice (unat (readerIndex b)) (unat (writeIndex b)) (buf_vec b)"

definition free_space :: "buffer \<Rightarrow> nat" where
  "free_space b = length (buf_vec b) - unat (writeIndex b)"

lemma unat_kCheapPrepend [simp]: "unat kCheapPrepend = 8"
  by (simp add: kCheapPrepend_def)

lemma max_size_less: "n \<le> max_size \<Longrightarrow> n < 2 ^ 63"
  by (simp add: max_size_def)

lemma buf_wfD:
  assumes "buf_wf b"
  shows "8 \<le> unat (readerIndex b)" "unat (readerIndex b) \<le> unat (writeIndex b)"
    "unat (writeIndex b) \<le> length (buf_vec b)" "length (buf_vec b) < 2 ^ 63"
    "length (buf_vec b) \<le> max_size"
  using assms by (auto simp: buf_wf_def max_size_def)

lemma unat_vec_size: "buf_wf b \<Longrightarrow> unat (vec_size b) = length (buf_vec b)"
  using buf_wfD(4) [of b] by (simp add: vec_size_def unat_of_nat)

lemma unat_readable: "buf_wf b \<Longrightarrow> unat (readableBytes b) = length (contents b)"
  using buf_wfD [of b] by (simp add: readableBytes_def contents_def unat_size_t_sub)

lemma length_contents: "buf_wf b \<Longrightarrow> length (contents b) = unat (writeIndex b) - unat (readerIndex b)"
  using buf_wfD [of b] by (simp add: contents_def)

lemma unat_writeable: "buf_wf b \<Longrightarrow> unat (writeableBytes b) = free_space b"
  using buf_wfD [of b] by (simp add: writeableBytes_def free_space_def unat_size_t_sub unat_vec_size)

lemma contents_bound: "buf_wf b \<Longrightarrow> length (contents b) < 2 ^ 63"
  using buf_wfD [of b] by (simp add: length_contents)

subsection \<open>Construction and retrieval\<close>

lemma mkBuffer_wf: "unat n \<le> max_size - 8 \<Longrightarrow> buf_wf (mkBuffer n)"
  by (simp add: buf_wf_def mkBuffer_def max_size_def unat_size_t_add)

lemma mkBuffer_contents [simp]: "contents (mkBuffer n) = []"
  by (simp add: contents_def mkBuffer_def)

lemma mkBuffer_numbers:
  assumes "unat n \<le> max_size - 8"
  shows "unat (writeIndex (mkBuffer n)) = 8" "free_space (mkBuffer n) = unat n"
    "buf_vec (mkBuffer n) = replicate (unat n + 8) 0"
  using assms by (simp_all add: mkBuffer_def free_space_def max_size_def unat_size_t_add)

lemma retrieveAll_wf: "buf_wf b \<Longrightarrow> buf_wf (retrieveAll b)"
  by (simp add: buf_wf_def retrieveAll_def)

lemma retrieveAll_contents [simp]: "contents (retrieveAll b) = []"
  by (simp add: contents_def retrieveAll_def)

lemma retrieve_less: "buf_wf b \<Longrightarrow> len < readableBytes b \<longleftrightarrow> unat len < length (contents b)"
  by (simp add: word_less_nat_alt unat_readable)

lemma readerIndex_plus:
  assumes "buf_wf b" "unat len \<le> length (contents b)"
  shows "unat (readerIndex b + len) = unat (readerIndex b) + unat len"
  using buf_wfD [OF assms(1)] assms(2)
  by (intro unat_size_t_add) (simp add: length_contents [OF assms(1)])

lemma retrieve_wf: "buf_wf b \<Longrightarrow> buf_wf (retrieve len b)"
  using buf_wfD [of b] readerIndex_plus [of b len]
  by (auto simp: retrieve_def retrieve_less retrieveAll_wf length_contents)
     (simp add: buf_wf_def max_size_def)

lemma retrieve_contents: "buf_wf b \<Longrightarrow> contents (retrieve len b) = drop (unat len) (contents b)"
  using readerIndex_plus [of b len]
  by (auto simp: retrieve_def retrieve_less) (simp add: contents_def drop_slice)

lemma peek_bytes_contents:
  assumes "buf_wf b" "unat len \<le> length (contents b)"
  shows "peek_bytes len b = Inr (take (unat len) (contents b))"
proof -
  have "unat len \<le> unat (writeIndex b) - unat (readerIndex b)"
    using assms(2) by (simp add: length_contents [OF assms(1)])
  then show ?thesis using buf_wfD [OF assms(1)]
    by (simp add: peek_bytes_def contents_def slice_def min_absorb1)
qed

lemma retrieveAsString_ok:
  assumes "buf_wf b" "unat len \<le> length (contents b)"
  shows "retrieveAsString len b = Inr (take (unat len) (contents b), retrieve len b)"
  using assms by (simp add: retrieveAsString_def peek_bytes_contents)

lemma retrieveAllAsString_ok:
  assumes "buf_wf b"
  shows "retrieveAllAsString b = Inr (contents b, retrieveAll b)"
proof -
  have "retrieve (readableBytes b) b = retrieveAll b" by (simp add: retrieve_def)
  then show ?thesis
    using assms by (simp add: retrieveAllAsString_def retrieveAsString_ok unat_readable)
qed

subsection \<open>Making room and appending\<close>

text \<open>\<open>makespace\<close> in numbers: the guard does not wrap for a well-formed buffer.\<close>

lemma makespace_guard:
  assumes "buf_wf b" "unat len < 2 ^ 63"
  shows "writeableBytes b + prependableBytes b < len + kCheapPrepend \<longleftrightarrow>
         free_space b + unat (readerIndex b) < unat len + 8"
proof -
  note wf = buf_wfD [OF assms(1)]
  have "unat (writeableBytes b + prependableBytes b) = free_space b + unat (readerIndex b)"
    using wf by (subst unat_size_t_add)
      (auto simp: unat_writeable [OF assms(1)] prependableBytes_def free_space_def)
  moreover have "unat (len + kCheapPrepend) = unat len + 8"
    using assms(2) by (subst unat_size_t_add) auto
  ultimately show ?thesis by (simp add: word_less_nat_alt)
qed

lemma makespace_resize:
  assumes "buf_wf b" "unat len < 2 ^ 63" "free_space b + unat (readerIndex b) < unat len + 8"
  shows "makespace len b =
    (if unat (writeIndex b) + unat len \<le> max_size
     then Inr (b\<lparr>buf_vec := resize_to 0 (unat (writeIndex b) + unat len) (buf_vec b)\<rparr>)
     else Inl LengthError)"
proof -
  have "unat (writeIndex b + len) = unat (writeIndex b) + unat len"
    using buf_wfD [OF assms(1)] assms(2) by (intro unat_size_t_add) auto
  then show ?thesis using makespace_guard [OF assms(1,2)] assms(3)
    by (simp add: makespace_def vec_resize_def)
qed

definition compacted :: "buffer \<Rightarrow> buffer" where
  "compacted b = b\<lparr>buf_vec := move_to (buf_vec b) (unat (readerIndex b)) (length (contents b)) 8,
     readerIndex := kCheapPrepend, writeIndex := kCheapPrepend + readableBytes b\<rparr>"

lemma makespace_compact:
  assumes "buf_wf b" "unat len < 2 ^ 63" "\<not> free_space b + unat (readerIndex b) < unat len + 8"
  shows "makespace len b = Inr (compacted b)"
  using makespace_guard [OF assms(1,2)] assms(3)
  by (simp add: makespace_def Let_def compacted_def unat_readable [OF assms(1)])

lemma compacted_writeIndex:
  assumes "buf_wf b"
  shows "unat (writeIndex (compacted b)) = 8 + length (contents b)"
  using buf_wfD [OF assms] contents_bound [OF assms]
  by (simp add: compacted_def unat_size_t_add unat_readable [OF assms])

lemma compacted_length:
  assumes "buf_wf b"
  shows "length (buf_vec (compacted b)) = length (buf_vec b)"
  using buf_wfD [OF assms] by (simp add: compacted_def length_contents [OF assms])

lemma compacted_wf:
  assumes "buf_wf b"
  shows "buf_wf (compacted b)"
proof -
  have "readerIndex (compacted b) = kCheapPrepend" by (simp add: compacted_def)
  then show ?thesis
    using buf_wfD [OF assms]
    by (auto simp: buf_wf_def compacted_writeIndex [OF assms] compacted_length [OF assms]
        length_contents [OF assms])
qed

lemma compacted_contents:
  assumes "buf_wf b"
  shows "contents (compacted b) = contents b"
proof -
  define n where "n = length (contents b)"
  have n: "unat (readerIndex b) + n = unat (writeIndex b)"
    using buf_wfD [OF assms] by (simp add: n_def length_contents [OF assms])
  have "contents (compacted b) = slice 8 (8 + n) (move_to (buf_vec b) (unat (readerIndex b)) n 8)"
    unfolding contents_def [of "compacted b"] compacted_writeIndex [OF assms]
    by (simp add: compacted_def n_def)
  also have "\<dots> = slice (unat (readerIndex b)) (unat (readerIndex b) + n) (buf_vec b)"
    using buf_wfD [OF assms] n by (intro slice_move_to) auto
  finally show ?thesis by (simp add: n contents_def)
qed

text \<open>
  What \<open>makespace\<close> promises: the readable bytes stay, and there is room for \<open>len\<close> more.
\<close>

lemma makespace_ok:
  assumes "buf_wf b" "unat len < 2 ^ 63" "makespace len b = Inr b'"
  shows "buf_wf b' \<and> contents b' = contents b \<and> unat len \<le> free_space b'"
proof (cases "free_space b + unat (readerIndex b) < unat len + 8")
  case True
  note wf = buf_wfD [OF assms(1)]
  from True assms makespace_resize [OF assms(1,2) True]
  have fit: "unat (writeIndex b) + unat len \<le> max_size"
    and b': "b' = b\<lparr>buf_vec := resize_to 0 (unat (writeIndex b) + unat len) (buf_vec b)\<rparr>"
    by (auto split: if_splits)
  have "contents b' = contents b"
    using wf unfolding b' contents_def by (simp add: slice_resize_to)
  then show ?thesis using wf fit by (simp add: b' buf_wf_def free_space_def)
next
  case False
  with assms have b': "b' = compacted b" by (simp add: makespace_compact)
  have "unat len \<le> free_space (compacted b)"
    using False buf_wfD [OF assms(1)]
    by (simp add: free_space_def compacted_writeIndex [OF assms(1)] compacted_length [OF assms(1)]
        length_contents [OF assms(1)])
  then show ?thesis by (simp add: b' assms(1) compacted_wf compacted_contents)
qed

definition pushed :: "byte list \<Rightarrow> buffer \<Rightarrow> buffer" where
  "pushed d b = b\<lparr>buf_vec := write_at (buf_vec b) (unat (writeIndex b)) d,
                   writeIndex := writeIndex b + of_nat (length d)\<rparr>"

lemma pushed_writeIndex:
  assumes "buf_wf b" "length d \<le> free_space b"
  shows "unat (writeIndex (pushed d b)) = unat (writeIndex b) + length d"
proof -
  have "unat (of_nat (length d) :: size_t) = length d"
    using assms buf_wfD [OF assms(1)] by (intro unat_size_t_of_nat) (simp add: free_space_def)
  moreover from this have "unat (writeIndex b + of_nat (length d)) = unat (writeIndex b) + length d"
    using assms(2) buf_wfD [OF assms(1)] by (subst unat_size_t_add) (auto simp: free_space_def)
  ultimately show ?thesis by (simp add: pushed_def)
qed

lemma pushed_ok:
  assumes "buf_wf b" "length d \<le> free_space b"
  shows "buf_wf (pushed d b)" "contents (pushed d b) = contents b @ d"
    "free_space (pushed d b) = free_space b - length d"
    "readerIndex (pushed d b) = readerIndex b" "length (buf_vec (pushed d b)) = length (buf_vec b)"
proof -
  note wf = buf_wfD [OF assms(1)] and w = pushed_writeIndex [OF assms]
  have fit: "unat (writeIndex b) + length d \<le> length (buf_vec b)"
    using assms(2) wf by (simp add: free_space_def)
  show r: "readerIndex (pushed d b) = readerIndex b" by (simp add: pushed_def)
  show l: "length (buf_vec (pushed d b)) = length (buf_vec b)" using fit by (simp add: pushed_def)
  show "buf_wf (pushed d b)" using wf fit by (simp add: buf_wf_def w r l)
  show "free_space (pushed d b) = free_space b - length d" by (simp add: free_space_def w l)
  have "contents (pushed d b) = slice (unat (readerIndex b)) (unat (writeIndex b) + length d)
      (write_at (buf_vec b) (unat (writeIndex b)) d)"
    by (simp add: contents_def w r) (simp add: pushed_def)
  also have "\<dots> = contents b @ d" using wf fit by (simp add: slice_write_at contents_def)
  finally show "contents (pushed d b) = contents b @ d" .
qed

lemma copy_then_advance:
  assumes "buf_wf b"
  shows "rbind (copy_to_write d b) (\<lambda>b2. Inr (b2\<lparr>writeIndex := writeIndex b2 + of_nat (length d)\<rparr>)) =
    (if length d \<le> free_space b then Inr (pushed d b) else Inl HeapOverflow)"
proof -
  have "unat (writeIndex b) + length d \<le> length (buf_vec b) \<longleftrightarrow> length d \<le> free_space b"
    using buf_wfD [OF assms] by (simp add: free_space_def le_diff_conv2 add.commute)
  then show ?thesis by (simp add: copy_to_write_def pushed_def)
qed

text \<open>
  \<open>append\<close> on every branch. \<open>ensureWriteableBytes\<close> compares \<open>writeIndex\<close> with \<open>len\<close>, so
  whether room is made does not depend on how much room there is.
\<close>

lemma buf_append_no_makespace:
  assumes "buf_wf b" "length d \<le> unat (writeIndex b)"
  shows "buf_append d b = (if length d \<le> free_space b then Inr (pushed d b) else Inl HeapOverflow)"
proof -
  have "unat (of_nat (length d) :: size_t) = length d"
    using assms(2) buf_wfD [OF assms(1)] by (intro unat_size_t_of_nat) simp
  then have "\<not> writeIndex b < of_nat (length d)"
    using assms(2) by (simp add: word_less_nat_alt)
  then show ?thesis
    by (simp add: buf_append_def ensureWriteableBytes_def copy_then_advance [OF assms(1)])
qed

lemma buf_append_makespace:
  assumes "buf_wf b" "unat (writeIndex b) < length d" "length d < 2 ^ 63"
  shows "buf_append d b = rbind (makespace (of_nat (length d)) b) (\<lambda>b1. Inr (pushed d b1))"
proof -
  have u: "unat (of_nat (length d) :: size_t) = length d"
    using assms(3) by (intro unat_size_t_of_nat) simp
  have lt: "writeIndex b < of_nat (length d)"
    using assms(2) u by (simp add: word_less_nat_alt)
  show ?thesis
  proof (cases "makespace (of_nat (length d)) b")
    case (Inl e)
    with lt show ?thesis by (simp add: buf_append_def ensureWriteableBytes_def)
  next
    case (Inr b1)
    with makespace_ok [OF assms(1) _ Inr] u assms(3) have "buf_wf b1" "length d \<le> free_space b1"
      by auto
    with Inr lt show ?thesis
      by (simp add: buf_append_def ensureWriteableBytes_def copy_then_advance)
  qed
qed

lemma buf_append_ok:
  assumes "buf_wf b" "length d < 2 ^ 63" "buf_append d b = Inr b'"
  shows "buf_wf b'" "contents b' = contents b @ d"
proof -
  have u: "unat (of_nat (length d) :: size_t) = length d"
    using assms(2) by (intro unat_size_t_of_nat) simp
  have "\<exists>b1. b' = pushed d b1 \<and> buf_wf b1 \<and> contents b1 = contents b \<and> length d \<le> free_space b1"
  proof (cases "length d \<le> unat (writeIndex b)")
    case True
    with assms show ?thesis by (auto simp: buf_append_no_makespace split: if_splits)
  next
    case False
    with assms obtain b1 where "makespace (of_nat (length d)) b = Inr b1" "b' = pushed d b1"
      by (auto simp: buf_append_makespace rbind_eq_Inr)
    with makespace_ok [OF assms(1)] u assms(2) show ?thesis by metis
  qed
  then show "buf_wf b'" "contents b' = contents b @ d" using pushed_ok by auto
qed

text \<open>When it succeeds: exactly where the missing bounds check does not matter.\<close>

definition append_fits :: "nat \<Rightarrow> buffer \<Rightarrow> bool" where
  "append_fits n b \<longleftrightarrow>
     (if n \<le> unat (writeIndex b) then n \<le> free_space b
      else n + 8 \<le> free_space b + unat (readerIndex b) \<or> unat (writeIndex b) + n \<le> max_size)"

lemma buf_append_fits:
  assumes "buf_wf b" "length d < 2 ^ 63"
  shows "(\<exists>b'. buf_append d b = Inr b') \<longleftrightarrow> append_fits (length d) b"
proof (cases "length d \<le> unat (writeIndex b)")
  case True
  with assms show ?thesis by (simp add: buf_append_no_makespace append_fits_def)
next
  case False
  have u: "unat (of_nat (length d) :: size_t) = length d"
    using assms(2) by (intro unat_size_t_of_nat) simp
  show ?thesis
  proof (cases "free_space b + unat (readerIndex b) < length d + 8")
    case True
    with False assms u show ?thesis
      by (simp add: buf_append_makespace makespace_resize append_fits_def)
  next
    case noresize: False
    with False assms u show ?thesis
      by (simp add: buf_append_makespace makespace_compact append_fits_def)
  qed
qed

subsection \<open>Reading from a descriptor\<close>

text \<open>
  \<open>readFd\<close> offers the kernel \<open>writeIndex\<close> bytes at the write position (not the free space)
  and then the 64 KiB on the stack. With \<open>W\<close> the write index, \<open>F\<close> the free space and \<open>n\<close>
  bytes delivered there are four outcomes; only \<open>n \<le> W\<close> and \<open>n \<le> F\<close> is what the
  callers expect.
\<close>

lemma readFd_iov0 [simp]: "fst (readFd_iov b) = writeIndex b"
  by (simp add: readFd_iov_def)

lemma readFd_capacity_eq:
  assumes "buf_wf b"
  shows "readFd_capacity b =
    unat (writeIndex b) + (if free_space b < extrabuf_size then extrabuf_size else 0)"
  by (simp add: readFd_capacity_def readFd_iov_def word_less_nat_alt unat_writeable [OF assms]
      extrabuf_size_def)

lemma readFd_len:
  assumes "buf_wf b" "n \<le> readFd_capacity b"
  shows "unat (of_nat n :: size_t) = n" "n < 2 ^ 64"
proof -
  show "n < 2 ^ 64"
    using buf_wfD [OF assms(1)] assms(2)
    by (auto simp: readFd_capacity_eq [OF assms(1)] extrabuf_size_def split: if_splits)
  then show "unat (of_nat n :: size_t) = n" by (rule unat_size_t_of_nat)
qed

definition filled :: "byte list \<Rightarrow> buffer \<Rightarrow> buffer" where
  "filled d b = b\<lparr>buf_vec := write_at (buf_vec b) (unat (writeIndex b)) d\<rparr>"

lemma copy_to_write_filled:
  assumes "buf_wf b"
  shows "copy_to_write d b = (if length d \<le> free_space b then Inr (filled d b) else Inl HeapOverflow)"
  using buf_wfD [OF assms] by (auto simp: copy_to_write_def filled_def free_space_def)

lemma filled_advance:
  assumes "buf_wf b" "length d \<le> free_space b" "unat (writeIndex b) + length d \<le> unat k"
    "unat k \<le> length (buf_vec b)"
  shows "buf_wf (filled d b\<lparr>writeIndex := k\<rparr>)"
    "contents (filled d b\<lparr>writeIndex := k\<rparr>) =
       contents b @ d @ slice (unat (writeIndex b) + length d) (unat k) (buf_vec b)"
    "free_space (filled d b\<lparr>writeIndex := k\<rparr>) = length (buf_vec b) - unat k"
    "length (buf_vec (filled d b\<lparr>writeIndex := k\<rparr>)) = length (buf_vec b)"
proof -
  note wf = buf_wfD [OF assms(1)]
  define W where "W = unat (writeIndex b)"
  define v where "v = write_at (buf_vec b) W d"
  have fit: "W + length d \<le> length (buf_vec b)"
    using assms(3,4) by (simp add: W_def)
  have len: "length v = length (buf_vec b)" using fit by (simp add: v_def)
  show l: "length (buf_vec (filled d b\<lparr>writeIndex := k\<rparr>)) = length (buf_vec b)"
    using len by (simp add: filled_def v_def W_def)
  show "free_space (filled d b\<lparr>writeIndex := k\<rparr>) = length (buf_vec b) - unat k"
    unfolding free_space_def l by simp
  show "buf_wf (filled d b\<lparr>writeIndex := k\<rparr>)"
    using wf assms(3,4) l by (auto simp: buf_wf_def filled_def)
  have tail: "slice (W + length d) (unat k) v = slice (W + length d) (unat k) (buf_vec b)"
    using fit by (simp add: slice_def v_def write_at_def)
  have "contents (filled d b\<lparr>writeIndex := k\<rparr>) = slice (unat (readerIndex b)) (unat k) v"
    by (simp add: contents_def filled_def v_def W_def)
  also have "\<dots> = slice (unat (readerIndex b)) (W + length d) v @ slice (W + length d) (unat k) v"
    using wf assms(3) by (subst slice_append) (auto simp: W_def)
  also have "slice (unat (readerIndex b)) (W + length d) v = contents b @ d"
    using wf fit by (simp add: v_def slice_write_at W_def contents_def)
  finally show "contents (filled d b\<lparr>writeIndex := k\<rparr>) =
      contents b @ d @ slice (unat (writeIndex b) + length d) (unat k) (buf_vec b)"
    by (simp add: tail) (simp add: W_def)
qed

text \<open>Whatever the operations are given, if they return they leave a well-formed buffer.\<close>

lemma buf_append_wf:
  assumes "buf_wf b" "buf_append d b = Inr b'" shows "buf_wf b'"
proof -
  from assms(2) obtain b1 b2 where b1: "ensureWriteableBytes (of_nat (length d)) b = Inr b1" "copy_to_write d b1 = Inr b2"
    by (auto simp: buf_append_def rbind_eq_Inr Let_def)
  have "length (move_to (buf_vec b) (unat (readerIndex b)) (unat (readableBytes b)) 8) = length (buf_vec b)"
    using buf_wfD [OF assms(1)] by (simp add: unat_readable [OF assms(1)] length_contents [OF assms(1)])
  then have "length (buf_vec b1) \<le> max_size"
    using b1(1) buf_wfD(5) [OF assms(1)]
    by (auto simp: ensureWriteableBytes_def makespace_def vec_resize_def Let_def split: if_splits)
  moreover have "unat (writeIndex b1) + length d \<le> length (buf_vec b1)"
    using b1(2) by (simp add: copy_to_write_def split: if_splits)
  ultimately have "length d < 2 ^ 63" by (simp add: max_size_def)
  then show ?thesis by (rule buf_append_ok(1) [OF assms(1) _ assms(2)])
qed

lemma readFd_wf:
  assumes wf: "buf_wf b" and run: "readFd answer b = Inr (n, b', e)" shows "buf_wf b'"
proof (cases answer)
  case (Inl x)
  with run wf show ?thesis by (simp add: readFd_def)
next
  case (Inr data)
  let ?k = "writeIndex b + of_nat (length data)"
  from run obtain b1 where b1: "copy_to_write (take (unat (writeIndex b)) data) b = Inr b1" and
    rest: "(if of_nat (length data) \<le> writeableBytes b then Inr (int (length data), b1\<lparr>writeIndex := writeIndex b1 + of_nat (length data)\<rparr>, None)
      else let rest = unat (of_nat (length data) - writeableBytes b) in
        if rest \<le> extrabuf_size
        then rbind (buf_append (take rest (write_at (replicate extrabuf_size 0) 0 (drop (unat (writeIndex b)) data)))
            (b1\<lparr>writeIndex := vec_size b1\<rparr>)) (\<lambda>b2. Inr (int (length data), b2, None))
        else Inl StackOverread) = Inr (n, b', e)"
    unfolding readFd_def Let_def Inr sum.case readFd_iov0 rbind_eq_Inr by blast
  have same: "length (buf_vec b1) = length (buf_vec b)" "readerIndex b1 = readerIndex b" "writeIndex b1 = writeIndex b"
    using b1 by (auto simp: copy_to_write_def split: if_splits)
  note w = buf_wfD [OF wf]
  show ?thesis
  proof (cases "of_nat (length data) \<le> writeableBytes b")
    case True
    then have le: "unat (of_nat (length data) :: size_t) \<le> free_space b"
      by (simp add: word_le_nat_alt unat_writeable [OF wf])
    then have "unat ?k = unat (writeIndex b) + unat (of_nat (length data) :: size_t)"
      using w by (intro unat_size_t_add) (simp add: free_space_def)
    moreover have "b' = b1\<lparr>writeIndex := ?k\<rparr>" using rest True same(3) by simp
    ultimately show ?thesis using w le same by (simp add: buf_wf_def free_space_def)
  next
    case False
    have "unat (vec_size b1) = length (buf_vec b)" using w(4) same(1) by (simp add: vec_size_def unat_of_nat)
    then have "buf_wf (b1\<lparr>writeIndex := vec_size b1\<rparr>)" using w same by (simp add: buf_wf_def)
    moreover obtain d where "buf_append d (b1\<lparr>writeIndex := vec_size b1\<rparr>) = Inr b'"
      using rest False by (auto simp: Let_def rbind_eq_Inr split: if_splits)
    ultimately show ?thesis by (rule buf_append_wf)
  qed
qed

text \<open>All bytes are believed to be in the vector: \<open>n \<le> F\<close>.\<close>

lemma readFd_in_vector:
  assumes "buf_wf b" "length data \<le> readFd_capacity b" "length data \<le> free_space b"
  defines "W \<equiv> unat (writeIndex b)"
  shows "\<exists>b'. readFd (Inr data) b = Inr (int (length data), b', None) \<and> buf_wf b' \<and>
    contents b' = contents b @ take W data @ slice (W + min W (length data)) (W + length data) (buf_vec b)"
proof -
  let ?n = "length data" and ?d = "take W data" and ?k = "writeIndex b + of_nat (length data)"
  note wf = buf_wfD [OF assms(1)] and n = readFd_len [OF assms(1,2)]
  have k: "unat ?k = W + ?n"
    using wf assms(3) n by (subst unat_size_t_add) (auto simp: W_def free_space_def)
  have le: "of_nat ?n \<le> writeableBytes b"
    using assms(3) n by (simp add: word_le_nat_alt unat_writeable [OF assms(1)])
  have dl: "length ?d \<le> free_space b" using assms(3) by simp
  have res: "readFd (Inr data) b = Inr (int ?n, filled ?d b\<lparr>writeIndex := ?k\<rparr>, None)"
    using dl le by (simp add: readFd_def Let_def copy_to_write_filled [OF assms(1)] W_def [symmetric])
      (simp add: filled_def)
  have k': "unat (writeIndex b) + length ?d \<le> unat ?k" "unat ?k \<le> length (buf_vec b)"
    using k assms(3) wf by (auto simp: free_space_def W_def)
  show ?thesis
    using filled_advance [OF assms(1) dl k'] res k
    by (auto simp: W_def min.commute)
qed

text \<open>More than the free space was delivered: \<open>F < n\<close>.\<close>

lemma readFd_beyond_overflow:
  assumes "buf_wf b" "free_space b < length data" "free_space b < unat (writeIndex b)"
  shows "readFd (Inr data) b = Inl HeapOverflow"
proof -
  have "copy_to_write (take (unat (writeIndex b)) data) b = Inl HeapOverflow"
    using assms by (simp add: copy_to_write_filled min_def)
  then show ?thesis by (simp add: readFd_def Let_def)
qed

lemma readFd_beyond:
  assumes "buf_wf b" "length data \<le> readFd_capacity b" "free_space b < length data"
    "unat (writeIndex b) \<le> free_space b"
  defines "W \<equiv> unat (writeIndex b)" and "rest \<equiv> length data - free_space b"
  shows "\<exists>b1. readFd (Inr data) b =
      rbind (buf_append (take rest (drop W data)) b1) (\<lambda>b2. Inr (int (length data), b2, None)) \<and>
    buf_wf b1 \<and> free_space b1 = 0 \<and> unat (writeIndex b1) = length (buf_vec b) \<and>
    contents b1 = contents b @ take W data @ slice (W + W) (length (buf_vec b)) (buf_vec b)"
proof -
  let ?d = "take W data"
  note wf = buf_wfD [OF assms(1)] and n = readFd_len [OF assms(1,2)]
  define b1 where "b1 = filled ?d b\<lparr>writeIndex := vec_size b\<rparr>"
  have F: "W + free_space b = length (buf_vec b)" using wf by (simp add: W_def free_space_def)
  have dl: "length ?d = W" "length ?d \<le> free_space b" using assms by auto
  have nle: "\<not> of_nat (length data) \<le> writeableBytes b"
    using assms(3) n by (simp add: word_le_nat_alt unat_writeable [OF assms(1)])
  then have rest: "unat (of_nat (length data) - writeableBytes b) = rest"
    using n assms(3) by (subst unat_size_t_sub) (auto simp: unat_writeable [OF assms(1)] rest_def)
  have rest_le: "rest \<le> extrabuf_size" "rest \<le> length data - W"
    using assms(2,3,4) by (auto simp: readFd_capacity_eq [OF assms(1)] rest_def W_def split: if_splits)
  have extra: "take rest (write_at (replicate extrabuf_size 0) 0 (drop W data)) = take rest (drop W data)"
    using rest_le by (simp add: write_at_def)
  have vs: "vec_size (filled ?d b) = vec_size b"
    using dl F by (simp add: vec_size_def filled_def W_def)
  have "readFd (Inr data) b =
      rbind (buf_append (take rest (drop W data)) b1) (\<lambda>b2. Inr (int (length data), b2, None))"
    using dl nle rest rest_le extra vs
    by (simp add: readFd_def Let_def copy_to_write_filled [OF assms(1)] W_def [symmetric] b1_def)
  moreover have "buf_wf b1 \<and> free_space b1 = 0 \<and> unat (writeIndex b1) = length (buf_vec b) \<and>
    contents b1 = contents b @ ?d @ slice (W + W) (length (buf_vec b)) (buf_vec b)"
    using filled_advance [OF assms(1) dl(2), of "vec_size b"] dl F
    by (simp add: b1_def W_def unat_vec_size [OF assms(1)])
  ultimately show ?thesis by blast
qed

subsection \<open>The interface: a queue of bytes\<close>

text \<open>
  What the clients of a buffer rely on: appending puts bytes at the end, taking \<open>n\<close> available
  bytes removes them from the front. A run is a sequence of such calls; \<open>ops_legal\<close> says that
  nobody asks for more than is there.
\<close>

datatype 'a queue_op = Push "'a list" | Pop nat

fun queue_run :: "('a list \<Rightarrow> 'q \<Rightarrow> 'q res) \<Rightarrow> (nat \<Rightarrow> 'q \<Rightarrow> ('a list \<times> 'q) res) \<Rightarrow>
    'a queue_op list \<Rightarrow> 'q \<Rightarrow> ('a list \<times> 'q) res" where
  "queue_run push pop [] q = Inr ([], q)"
| "queue_run push pop (Push d # ops) q = rbind (push d q) (queue_run push pop ops)"
| "queue_run push pop (Pop n # ops) q = rbind (pop n q) (\<lambda>(s, q').
     rbind (queue_run push pop ops q') (\<lambda>(out, q''). Inr (s @ out, q'')))"

fun ops_legal :: "nat \<Rightarrow> 'a queue_op list \<Rightarrow> nat \<Rightarrow> bool" where
  "ops_legal m [] k = True"
| "ops_legal m (Push d # ops) k = (length d < m \<and> ops_legal m ops (k + length d))"
| "ops_legal m (Pop n # ops) k = (n \<le> k \<and> ops_legal m ops (k - n))"

fun pushed_bytes :: "'a queue_op list \<Rightarrow> 'a list" where
  "pushed_bytes [] = []"
| "pushed_bytes (Push d # ops) = d @ pushed_bytes ops"
| "pushed_bytes (Pop n # ops) = pushed_bytes ops"

locale byte_queue =
  fixes inv :: "'q \<Rightarrow> bool" and bytes :: "'q \<Rightarrow> 'a list"
    and push :: "'a list \<Rightarrow> 'q \<Rightarrow> 'q res" and pop :: "nat \<Rightarrow> 'q \<Rightarrow> ('a list \<times> 'q) res"
    and m :: nat
  assumes push_inv: "inv q \<Longrightarrow> length d < m \<Longrightarrow> push d q = Inr q' \<Longrightarrow> inv q'"
    and push_bytes: "inv q \<Longrightarrow> length d < m \<Longrightarrow> push d q = Inr q' \<Longrightarrow> bytes q' = bytes q @ d"
    and pop_ok: "inv q \<Longrightarrow> n \<le> length (bytes q) \<Longrightarrow>
      \<exists>q'. pop n q = Inr (take n (bytes q), q') \<and> inv q' \<and> bytes q' = drop n (bytes q)"
begin

lemma fifo:
  assumes "inv q" "ops_legal m ops (length (bytes q))" "queue_run push pop ops q = Inr (out, q')"
  shows "inv q' \<and> out @ bytes q' = bytes q @ pushed_bytes ops"
  using assms
proof (induction ops arbitrary: q out)
  case Nil
  then show ?case by simp
next
  case (Cons a ops)
  show ?case
  proof (cases a)
    case (Push d)
    with Cons.prems obtain q1 where q1: "push d q = Inr q1" "queue_run push pop ops q1 = Inr (out, q')"
      by (auto simp: rbind_eq_Inr)
    moreover have "length d < m" using Cons.prems Push by simp
    ultimately have "inv q1" "bytes q1 = bytes q @ d"
      using Cons.prems(1) push_inv push_bytes by blast+
    with Cons.IH [OF _ _ q1(2)] Cons.prems Push show ?thesis by simp
  next
    case (Pop n)
    with Cons.prems have n: "n \<le> length (bytes q)" by simp
    from pop_ok [OF Cons.prems(1) n] obtain q1 where
      q1: "pop n q = Inr (take n (bytes q), q1)" "inv q1" "bytes q1 = drop n (bytes q)" by blast
    with Pop Cons.prems obtain out1 where
      o: "queue_run push pop ops q1 = Inr (out1, q')" "out = take n (bytes q) @ out1"
      by (auto simp: rbind_eq_Inr)
    have "inv q' \<and> out1 @ bytes q' = bytes q1 @ pushed_bytes ops"
      by (rule Cons.IH [OF q1(2) _ o(1)]) (use Cons.prems Pop q1 in simp)
    with o q1 Pop show ?thesis by (metis append.assoc append_take_drop_id pushed_bytes.simps(3))
  qed
qed

end

text \<open>
  Two clients: user code takes bytes out with \<open>retrieveAsString\<close>; \<open>handleWrite\<close> hands the
  readable bytes to \<open>write\<close> and drops the \<open>n\<close> bytes that were accepted.
\<close>

definition take_string :: "nat \<Rightarrow> buffer \<Rightarrow> (byte list \<times> buffer) res" where
  "take_string n b = retrieveAsString (of_nat n) b"

definition take_written :: "nat \<Rightarrow> buffer \<Rightarrow> (byte list \<times> buffer) res" where
  "take_written n b = rbind (writeFd_data b) (\<lambda>d. Inr (take n d, retrieve (of_nat n) b))"

lemma unat_of_nat_le_contents:
  assumes "buf_wf b" "n \<le> length (contents b)"
  shows "unat (of_nat n :: size_t) = n"
  using contents_bound [OF assms(1)] assms(2) by (intro unat_size_t_of_nat) simp

lemma writeFd_data_contents: "buf_wf b \<Longrightarrow> writeFd_data b = Inr (contents b)"
  by (simp add: writeFd_data_def peek_bytes_contents unat_readable)

interpretation string_queue: byte_queue buf_wf contents buf_append take_string "2 ^ 63"
  by unfold_locales
    (auto simp: buf_append_ok take_string_def retrieveAsString_ok retrieve_wf retrieve_contents
      unat_of_nat_le_contents)

interpretation write_queue: byte_queue buf_wf contents buf_append take_written "2 ^ 63"
  by unfold_locales
    (auto simp: buf_append_ok take_written_def writeFd_data_contents retrieve_wf retrieve_contents
      unat_of_nat_le_contents)

subsection \<open>Properties\<close>

text \<open>
  C30: \<open>append\<close> on every well-formed buffer and every block of memory. It succeeds exactly when
  \<open>append_fits\<close> holds, and then the readable bytes are the old ones followed by the new ones and
  the indices are still in order.
\<close>

theorem append_contract:
  assumes "buf_wf b" "length d < 2 ^ 63"
  shows "case buf_append d b of
      Inr b' \<Rightarrow> append_fits (length d) b \<and> buf_wf b' \<and> contents b' = contents b @ d
    | Inl _ \<Rightarrow> \<not> append_fits (length d) b"
proof (cases "buf_append d b")
  case (Inl e)
  then have "\<not> append_fits (length d) b" using buf_append_fits [OF assms] by auto
  with Inl show ?thesis by simp
next
  case (Inr b')
  then have "append_fits (length d) b" using buf_append_fits [OF assms] by auto
  with Inr buf_append_ok [OF assms Inr] show ?thesis by simp
qed

theorem append_contract_witness:
  "case buf_append [1, 2, 3] (mkBuffer 4) of
      Inr b' \<Rightarrow> append_fits 3 (mkBuffer 4) \<and> buf_wf b' \<and> contents b' = [1, 2, 3]
    | Inl _ \<Rightarrow> \<not> append_fits 3 (mkBuffer 4)"
proof -
  have "buf_wf (mkBuffer 4)" by (rule mkBuffer_wf) (simp add: max_size_def)
  from append_contract [OF this, of "[1, 2, 3]"] show ?thesis
    by (simp add: numeral_3_eq_3 split: sum.splits)
qed

text \<open>
  \<open>append\<close> writes past the end of the vector whenever the block does not fit into the free
  space but is no longer than \<open>writeIndex\<close>, because \<open>ensureWriteableBytes\<close> compares \<open>len\<close>
  with \<open>writeIndex\<close> and then makes no room.
\<close>

theorem append_overruns:
  assumes "buf_wf b" "free_space b < length d" "length d \<le> unat (writeIndex b)"
  shows "buf_append d b = Inl HeapOverflow"
  using assms by (simp add: buf_append_no_makespace)

theorem append_overruns_witness:
  "buf_append [1, 2] (mkBuffer 1) = Inl HeapOverflow"
proof (rule append_overruns)
  show "buf_wf (mkBuffer 1)" by (rule mkBuffer_wf) (simp add: max_size_def)
qed (simp_all add: free_space_def mkBuffer_def kCheapPrepend_def)

text \<open>
  C12: first in, first out. For any sequence of \<open>append\<close> and \<open>retrieveAsString\<close> calls that asks
  for no more than is readable and returns, the bytes handed out followed by the bytes still
  readable are the bytes readable before followed by all bytes appended, and the indices stay in
  order. \<open>makespace\<close> (growing or compacting) is invisible to the callers.
\<close>

theorem buffer_fifo:
  assumes "buf_wf b" "ops_legal (2 ^ 63) ops (length (contents b))"
    "queue_run buf_append take_string ops b = Inr (out, b')"
  shows "buf_wf b' \<and> out @ contents b' = contents b @ pushed_bytes ops"
  using assms by (rule string_queue.fifo)

theorem buffer_fifo_witness:
  "\<exists>out b'. queue_run buf_append take_string [Push [1, 2, 3], Pop 2, Push [4], Pop 1] (mkBuffer 4)
     = Inr (out, b') \<and> buf_wf b' \<and> out @ contents b' = [1, 2, 3, 4] \<and> out = [1, 2, 3]"
proof -
  let ?ops = "[Push [1, 2, 3], Pop 2, Push [4], Pop 1] :: byte queue_op list"
  have wf: "buf_wf (mkBuffer 4)" by (rule mkBuffer_wf) (simp add: max_size_def)
  have "case queue_run buf_append take_string ?ops (mkBuffer 4) of
      Inl _ \<Rightarrow> False | Inr (out, b') \<Rightarrow> out = [1, 2, 3]"
    by code_simp
  then obtain b' where run: "queue_run buf_append take_string ?ops (mkBuffer 4) = Inr ([1, 2, 3], b')"
    by (auto split: sum.splits)
  show ?thesis using buffer_fifo [OF wf _ run] run by simp
qed

text \<open>
  C31: a block appended to any well-formed buffer comes back, behind what was already readable,
  from \<open>retrieveAllAsString\<close>, which leaves an empty buffer with its indices reset.
\<close>

theorem append_retrieve_roundtrip:
  assumes "buf_wf b" "length d < 2 ^ 63" "append_fits (length d) b"
  shows "\<exists>b1 b2. buf_append d b = Inr b1 \<and> retrieveAllAsString b1 = Inr (contents b @ d, b2) \<and>
    buf_wf b2 \<and> contents b2 = [] \<and> writeIndex b2 = kCheapPrepend"
proof -
  obtain b1 where b1: "buf_append d b = Inr b1" using buf_append_fits [OF assms(1,2)] assms(3) by auto
  from buf_append_ok [OF assms(1,2) b1] show ?thesis
    by (simp add: b1 retrieveAllAsString_ok retrieveAll_wf) (simp add: retrieveAll_def)
qed

theorem append_retrieve_roundtrip_witness:
  "\<exists>b1 b2. buf_append [7, 8, 9] (mkBuffer 4) = Inr b1 \<and>
    retrieveAllAsString b1 = Inr ([7, 8, 9], b2) \<and> contents b2 = []"
proof -
  have "buf_wf (mkBuffer 4)" by (rule mkBuffer_wf) (simp add: max_size_def)
  moreover have "append_fits 3 (mkBuffer 4)"
    by (simp add: append_fits_def free_space_def mkBuffer_def kCheapPrepend_def)
  ultimately show ?thesis using append_retrieve_roundtrip [of "mkBuffer 4" "[7, 8, 9]"]
    by (auto simp: numeral_3_eq_3)
qed

text \<open>
  C32: \<open>readFd\<close> delivers a message faithfully when it is no longer than \<open>writeIndex\<close> and than
  the free space: it returns the number of bytes, appends exactly these bytes and leaves
  \<open>saveErrno\<close> alone.
\<close>

theorem readFd_delivers:
  assumes "buf_wf b" "length data \<le> unat (writeIndex b)" "length data \<le> free_space b"
  shows "\<exists>b'. readFd (Inr data) b = Inr (int (length data), b', None) \<and> buf_wf b' \<and>
    contents b' = contents b @ data"
proof -
  have "length data \<le> readFd_capacity b"
    using assms(2) by (simp add: readFd_capacity_eq [OF assms(1)])
  from readFd_in_vector [OF assms(1) this assms(3)] assms(2) show ?thesis
    by (simp add: min_absorb2)
qed

theorem readFd_delivers_witness:
  "\<exists>b'. readFd (Inr [1, 2, 3]) (mkBuffer 1024) = Inr (3, b', None) \<and> contents b' = [1, 2, 3]"
proof -
  have "buf_wf (mkBuffer 1024)" by (rule mkBuffer_wf) (simp add: max_size_def)
  from readFd_delivers [OF this, of "[1, 2, 3]"] show ?thesis
    by (auto simp: mkBuffer_numbers max_size_def)
qed

text \<open>
  A message longer than \<open>writeIndex\<close> that would fit into the free space is damaged. The
  kernel was offered only \<open>writeIndex\<close> bytes of the vector and put the rest into the stack
  buffer; \<open>readFd\<close> then counts all bytes as read into the vector. Its first \<open>writeIndex\<close> bytes
  arrive; the others are replaced by what the vector happened to hold, whatever was sent.
\<close>

theorem readFd_damages:
  assumes "buf_wf b" "unat (writeIndex b) < length data" "length data \<le> free_space b"
    "length data \<le> readFd_capacity b"
  defines "W \<equiv> unat (writeIndex b)"
  shows "\<exists>b'. readFd (Inr data) b = Inr (int (length data), b', None) \<and>
    contents b' = contents b @ take W data @ slice (2 * W) (W + length data) (buf_vec b)"
  using readFd_in_vector [OF assms(1,4,3)] assms(2)
  by (auto simp: W_def min_absorb1 mult_2)

theorem readFd_damages_witness:
  "\<exists>b'. readFd (Inr [1, 2, 3, 4, 5, 6, 7, 8, 9, 10]) (mkBuffer 16) = Inr (10, b', None) \<and>
    contents b' = [1, 2, 3, 4, 5, 6, 7, 8, 0, 0]"
proof -
  let ?d = "[1, 2, 3, 4, 5, 6, 7, 8, 9, 10] :: byte list"
  have wf: "buf_wf (mkBuffer 16)" by (rule mkBuffer_wf) (simp add: max_size_def)
  have n: "unat (16 :: size_t) \<le> max_size - 8" by (simp add: max_size_def)
  have "length ?d \<le> readFd_capacity (mkBuffer 16)"
    by (simp add: readFd_capacity_eq [OF wf] mkBuffer_numbers [OF n] extrabuf_size_def)
  moreover have "slice (2 * 8) (8 + length ?d) (replicate (16 + 8) (0 :: byte)) = [0, 0]"
    by (simp add: slice_def numeral_2_eq_2)
  ultimately show ?thesis
    using readFd_damages [OF wf, of ?d] by (simp add: mkBuffer_numbers [OF n])
qed

text \<open>
  C37: \<open>readFd\<close> with more bytes than the free space. It writes out of the vector when the free
  space is smaller than \<open>writeIndex\<close> (through \<open>readv\<close> itself), and also when the surplus is no
  longer than the vector (through \<open>append\<close>, which then makes no room); it returns only for a
  surplus longer than the whole vector.
\<close>

theorem readFd_overruns:
  assumes "buf_wf b" "length data \<le> readFd_capacity b" "free_space b < length data"
    "free_space b < unat (writeIndex b) \<or> length data - free_space b \<le> length (buf_vec b)"
  shows "readFd (Inr data) b = Inl HeapOverflow"
proof (cases "free_space b < unat (writeIndex b)")
  case True
  with assms show ?thesis by (simp add: readFd_beyond_overflow)
next
  case False
  then have le: "unat (writeIndex b) \<le> free_space b" by simp
  let ?W = "unat (writeIndex b)" and ?r = "length data - free_space b"
  from readFd_beyond [OF assms(1,2,3) le] obtain b1 where
    eq: "readFd (Inr data) b = rbind (buf_append (take ?r (drop ?W data)) b1)
           (\<lambda>b2. Inr (int (length data), b2, None))"
    and b1: "buf_wf b1" "free_space b1 = 0" "unat (writeIndex b1) = length (buf_vec b)"
    by blast
  have "length (take ?r (drop ?W data)) = ?r" using le by simp
  with b1 False assms(3,4) have "buf_append (take ?r (drop ?W data)) b1 = Inl HeapOverflow"
    by (simp add: buf_append_no_makespace)
  with eq show ?thesis by simp
qed

theorem readFd_overruns_witness:
  "readFd (Inr (replicate 20 1)) (mkBuffer 16) = Inl HeapOverflow"
proof (rule readFd_overruns)
  show wf: "buf_wf (mkBuffer 16)" by (rule mkBuffer_wf) (simp add: max_size_def)
  have "unat (16 :: size_t) \<le> max_size - 8" by (simp add: max_size_def)
  note F = mkBuffer_numbers [OF this]
  show "length (replicate 20 (1 :: byte)) \<le> readFd_capacity (mkBuffer 16)"
    by (simp add: readFd_capacity_eq [OF wf] F extrabuf_size_def)
  show "free_space (mkBuffer 16) < length (replicate 20 (1 :: byte))" by (simp add: F)
  show "free_space (mkBuffer 16) < unat (writeIndex (mkBuffer 16)) \<or>
    length (replicate 20 (1 :: byte)) - free_space (mkBuffer 16) \<le> length (buf_vec (mkBuffer 16))"
    by (simp add: F)
qed

end
