(* ===== verification/InetAddress.thy ===== *)
theory InetAddress
  imports Prelude
begin

unbundle bit_operations_syntax

section \<open>Socket addresses (InetAddress.h, InetAddress.cpp)\<close>

text \<open>
  An address is the \<open>sockaddr_in\<close> it wraps. The port and the IP address are kept in network byte
  order; the host is little-endian (x86-64 Linux, where the library is built). \<open>inet_addr\<close> of the
  C library, which parses the dotted notation, is a parameter.
\<close>

record inet_address =
  sin_family :: "16 word"
  sin_port :: "16 word"
  sin_addr :: "32 word"

definition AF_INET :: "16 word" where "AF_INET = 2"

text \<open>\<open>htons\<close> and \<open>ntohs\<close> exchange the two bytes.\<close>

definition htons :: "16 word \<Rightarrow> 16 word" where
  "htons p = push_bit 8 p OR drop_bit 8 p"

definition ntohs :: "16 word \<Rightarrow> 16 word" where "ntohs p = htons p"

definition mkInetAddress :: "(string \<Rightarrow> 32 word) \<Rightarrow> 16 word \<Rightarrow> string \<Rightarrow> inet_address" where
  "mkInetAddress inet_addr port ip =
     \<lparr>sin_family = AF_INET, sin_port = htons port, sin_addr = inet_addr ip\<rparr>"

text \<open>The memory of the structure: each field from its low byte on, then eight zero bytes.\<close>

definition bytes16 :: "16 word \<Rightarrow> byte list" where
  "bytes16 x = [ucast x, ucast (drop_bit 8 x)]"

definition bytes32 :: "32 word \<Rightarrow> byte list" where
  "bytes32 x = [ucast x, ucast (drop_bit 8 x), ucast (drop_bit 16 x), ucast (drop_bit 24 x)]"

definition sockaddr_bytes :: "inet_address \<Rightarrow> byte list" where
  "sockaddr_bytes a = bytes16 (sin_family a) @ bytes16 (sin_port a) @ bytes32 (sin_addr a) @ replicate 8 0"

text \<open>\<open>inet_ntop(AF_INET, src, ...)\<close> prints the four bytes at \<open>src\<close>.\<close>

definition show_byte :: "byte \<Rightarrow> string" where "show_byte b = show_nat (unat b)"

fun inet_ntop :: "byte list \<Rightarrow> string" where
  "inet_ntop (a # b # c # d # _) =
     show_byte a @ ''.'' @ show_byte b @ ''.'' @ show_byte c @ ''.'' @ show_byte d"
| "inet_ntop _ = []"

text \<open>The code passes the address of the whole structure.\<close>

definition toIp :: "inet_address \<Rightarrow> string" where
  "toIp a = inet_ntop (sockaddr_bytes a)"

definition toIpPort :: "inet_address \<Rightarrow> string" where
  "toIpPort a = inet_ntop (sockaddr_bytes a) @ '':'' @ show_nat (unat (ntohs (sin_port a)))"

definition toPort :: "inet_address \<Rightarrow> 16 word" where
  "toPort a = ntohs (sin_port a)"

subsection \<open>Lemmas\<close>

lemma ntohs_htons [simp]: "ntohs (htons p) = p"
  unfolding ntohs_def htons_def
  by (rule bit_word_eqI) (auto simp: bit_simps)

lemma ucast_htons:
  "(ucast (htons p) :: byte) = ucast (drop_bit 8 p)" "(ucast (drop_bit 8 (htons p)) :: byte) = ucast p"
  unfolding htons_def by (rule bit_word_eqI; auto simp: bit_simps)+

lemma show_byte_length: "length (show_byte b) \<le> 3"
proof -
  have "unat b < 2 ^ LENGTH(8)" by (rule unsigned_less)
  then have "unat b < 10 ^ 3" by simp
  then show ?thesis unfolding show_byte_def by (rule show_nat_length) simp
qed

lemma inet_ntop_length: "length (inet_ntop bs) \<le> 15"
proof (cases bs rule: inet_ntop.cases)
  case (1 a b c d r)
  then show ?thesis
    using show_byte_length [of a] show_byte_length [of b] show_byte_length [of c] show_byte_length [of d]
    by simp
qed simp_all

lemma toIpPort_length: "length (toIpPort a) \<le> 21"
proof -
  have "unat (ntohs (sin_port a)) < 2 ^ LENGTH(16)" by (rule unsigned_less)
  then have "unat (ntohs (sin_port a)) < 10 ^ 5" by simp
  then have "length (show_nat (unat (ntohs (sin_port a)))) \<le> 5" by (rule show_nat_length) simp
  with inet_ntop_length [of "sockaddr_bytes a"] show ?thesis by (simp add: toIpPort_def)
qed

subsection \<open>Properties\<close>

text \<open>The port survives the network byte order: \<open>toPort\<close> of a constructed address is the port.\<close>

theorem port_roundtrip: "toPort (mkInetAddress inet_addr port ip) = port"
  by (simp add: toPort_def mkInetAddress_def)

text \<open>
  C38: \<open>toIp\<close> does not print the IP address. It passes the start of the structure to \<open>inet_ntop\<close>,
  which prints the address family and the two bytes of the port; the result is the same for every
  IP address.
\<close>

theorem toIp_prints_family_and_port:
  "toIp (mkInetAddress inet_addr port ip) =
     ''2.0.'' @ show_nat (unat port div 256) @ ''.'' @ show_nat (unat port mod 256)"
proof -
  have "unat port < 2 ^ LENGTH(16)" by (rule unsigned_less)
  then have "unat (ucast (drop_bit 8 port) :: byte) = unat port div 256"
    by (simp add: unsigned_ucast_eq unsigned_drop_bit_eq take_bit_eq_mod)
      (simp add: drop_bit_eq_div)
  moreover have "unat (ucast port :: byte) = unat port mod 256"
    by (simp add: unsigned_ucast_eq take_bit_eq_mod)
  moreover have "char_of (50 :: nat) = CHR ''2''" "char_of (48 :: nat) = CHR ''0''" by code_simp+
  ultimately show ?thesis
    by (simp add: toIp_def mkInetAddress_def sockaddr_bytes_def bytes16_def AF_INET_def ucast_htons
        show_byte_def show_nat.simps [of 2] show_nat.simps [of 0])
qed


end
