(* ===== verification/TcpConnection.thy ===== *)
theory TcpConnection
  imports EventLoop Buffer InetAddress "HOL-Library.Sublist"
begin

section \<open>Connections (TcpConnection.h, TcpConnection.cpp)\<close>

text \<open>
  A connection owns a socket, a channel in its loop, an input and an output buffer and a state.
  Connections live in a store, so that a closure with a raw \<open>this\<close> can find its connection gone;
  so do the strings passed to \<open>send\<close>, since \<open>send\<close> from another thread hands on their address.

  User code is any function from what a callback is given to the calls it makes on connections
  and buffers. \<open>closeCallback_\<close>, which the server sets, is an argument (\<open>closeCb\<close>).
\<close>

subsection \<open>State\<close>

datatype conn_state = kDisconnected | kConnecting | kConnected | kDisconnecting

text \<open>The order in which a connection is meant to pass through them.\<close>

fun conn_rank :: "conn_state \<Rightarrow> nat" where
  "conn_rank kConnecting = 0"
| "conn_rank kConnected = 1"
| "conn_rank kDisconnecting = 2"
| "conn_rank kDisconnected = 3"

instantiation conn_state :: linorder
begin

definition less_eq_conn_state :: "conn_state \<Rightarrow> conn_state \<Rightarrow> bool" where
  "less_eq_conn_state a b \<longleftrightarrow> conn_rank a \<le> conn_rank b"

definition less_conn_state :: "conn_state \<Rightarrow> conn_state \<Rightarrow> bool" where
  "less_conn_state a b \<longleftrightarrow> conn_rank a < conn_rank b"

instance
proof
  fix x y :: conn_state
  show "x = y" if "x \<le> y" "y \<le> x"
    using that by (cases x; cases y; simp add: less_eq_conn_state_def)
qed (auto simp: less_eq_conn_state_def less_conn_state_def)

end

lemma conn_state_le [simp]:
  "st \<le> kDisconnected" "kConnecting \<le> st" "kConnected \<le> kDisconnecting"
  by (cases st; simp add: less_eq_conn_state_def)+

record tcpconn =
  conn_loop :: loop_id
  conn_name :: string
  conn_state :: conn_state
  conn_fd :: int
  conn_channel :: chan_id
  localAddr :: inet_address
  peerAddr :: inet_address
  hasConnectionCb :: bool
  hasMessageCb :: bool
  hasWriteCompleteCb :: bool
  hasHighWaterCb :: bool
  hasCloseCb :: bool
  highWaterMark :: size_t
  inputBuffer :: buffer
  outputBuffer :: buffer

record net = reactor +
  conns :: "conn_id \<Rightarrow> tcpconn option"
  strings :: "nat \<Rightarrow> byte list option"
  next_string :: nat

definition get_conn :: "'a net_scheme \<Rightarrow> conn_id \<Rightarrow> tcpconn res" where
  "get_conn s c = (case conns s c of None \<Rightarrow> Inl UseAfterFree | Some cn \<Rightarrow> Inr cn)"

definition put_conn :: "conn_id \<Rightarrow> tcpconn \<Rightarrow> 'a net_scheme \<Rightarrow> 'a net_scheme" where
  "put_conn c cn s = s\<lparr>conns := (conns s)(c := Some cn)\<rparr>"

definition upd_conn :: "conn_id \<Rightarrow> (tcpconn \<Rightarrow> tcpconn) \<Rightarrow> 'a net_scheme \<Rightarrow> 'a net_scheme res" where
  "upd_conn c f s = rbind (get_conn s c) (\<lambda>cn. Inr (put_conn c (f cn) s))"

definition setState :: "conn_state \<Rightarrow> conn_id \<Rightarrow> 'a net_scheme \<Rightarrow> 'a net_scheme res" where
  "setState st c = upd_conn c (\<lambda>cn. cn\<lparr>conn_state := st\<rparr>)"

text \<open>The setters; of a callback only whether it is empty is kept here, what it does is an argument.\<close>

definition conn_setConnectionCallback :: "bool \<Rightarrow> tcpconn \<Rightarrow> tcpconn" where
  "conn_setConnectionCallback cb cn = cn\<lparr>hasConnectionCb := cb\<rparr>"

definition conn_setMessageCallback :: "bool \<Rightarrow> tcpconn \<Rightarrow> tcpconn" where
  "conn_setMessageCallback cb cn = cn\<lparr>hasMessageCb := cb\<rparr>"

definition conn_setWriteCallback :: "bool \<Rightarrow> tcpconn \<Rightarrow> tcpconn" where
  "conn_setWriteCallback cb cn = cn\<lparr>hasWriteCompleteCb := cb\<rparr>"

definition conn_setHighWaterMarkCallback :: "bool \<Rightarrow> size_t \<Rightarrow> tcpconn \<Rightarrow> tcpconn" where
  "conn_setHighWaterMarkCallback cb mark cn = cn\<lparr>hasHighWaterCb := cb, highWaterMark := mark\<rparr>"

definition conn_setCloseCallback :: "bool \<Rightarrow> tcpconn \<Rightarrow> tcpconn" where
  "conn_setCloseCallback cb cn = cn\<lparr>hasCloseCb := cb\<rparr>"

declare conn_setConnectionCallback_def [setter_defs] conn_setMessageCallback_def [setter_defs]
  conn_setWriteCallback_def [setter_defs] conn_setHighWaterMarkCallback_def [setter_defs]
  conn_setCloseCallback_def [setter_defs]

definition connected :: "tcpconn \<Rightarrow> bool" where
  "connected cn \<longleftrightarrow> conn_state cn = kConnected"

declare connected_def [simp]

definition get_string :: "'a net_scheme \<Rightarrow> nat \<Rightarrow> byte list res" where
  "get_string s a = (case strings s a of None \<Rightarrow> Inl UseAfterFree | Some d \<Rightarrow> Inr d)"

text \<open>The channel of a connection.\<close>

definition conn_chan :: "'a net_scheme \<Rightarrow> tcpconn \<Rightarrow> channel res" where
  "conn_chan s cn = get_chan s (conn_channel cn)"

subsection \<open>Sending and shutting down\<close>

definition EWOULDBLOCK :: int where "EWOULDBLOCK = 11"
definition EPIPE :: int where "EPIPE = 32"
definition ECONNRESET :: int where "ECONNRESET = 104"

definition default_highWaterMark :: size_t where "default_highWaterMark = 64 * 1024 * 1024"

text \<open>The first part of \<open>sendInLoop\<close>: a direct write when nothing is waiting. The result is the
  number of bytes written, the number remaining, and whether the peer is gone.\<close>

definition direct_write ::
    "os \<Rightarrow> tid \<Rightarrow> conn_id \<Rightarrow> byte list \<Rightarrow> 'a net_scheme \<Rightarrow> (nat \<times> size_t \<times> bool \<times> 'a net_scheme) res" where
  "direct_write os me c msg s =
     rbind (get_conn s c) (\<lambda>cn.
     rbind (conn_chan s cn) (\<lambda>ch.
     let len = of_nat (length msg) in
     if \<not> isWriting ch \<and> readableBytes (outputBuffer cn) = 0
     then let (r, s) = do_call os me (WriteFd (conn_fd cn) msg) s in
       if 0 \<le> ret r
       then let remaining = len - of_int (ret r) in
         if remaining = 0 \<and> hasWriteCompleteCb cn
         then rbind (queueInLoop os me (conn_loop cn) (WriteCallbackFn c) s) (\<lambda>s. Inr (nat (ret r), remaining, False, s))
         else Inr (nat (ret r), remaining, False, s)
       else Inr (0, len, err r \<noteq> EWOULDBLOCK \<and> (err r = EPIPE \<or> err r = ECONNRESET), s)
     else Inr (0, len, False, s)))"

text \<open>The second part: what is left, if it crosses the high-water mark, goes to the output buffer.\<close>

definition buffer_rest ::
    "os \<Rightarrow> tid \<Rightarrow> conn_id \<Rightarrow> byte list \<Rightarrow> size_t \<Rightarrow> 'a net_scheme \<Rightarrow> 'a net_scheme res" where
  "buffer_rest os me c rest remaining s =
     rbind (get_conn s c) (\<lambda>cn.
     let oldLen = readableBytes (outputBuffer cn) in
     if highWaterMark cn \<le> oldLen + remaining \<and> oldLen < highWaterMark cn \<and> hasHighWaterCb cn
     then
       rbind (queueInLoop os me (conn_loop cn) (HighWaterMarkFn c (unat (oldLen + remaining))) s) (\<lambda>s.
       rbind (buf_append (take (unat remaining) rest) (outputBuffer cn)) (\<lambda>b.
       rbind (upd_conn c (\<lambda>cn. cn\<lparr>outputBuffer := b\<rparr>) s) (\<lambda>s.
       rbind (conn_chan s cn) (\<lambda>ch.
       if \<not> isWriting ch then set_events os me EnableWriting (conn_channel cn) s else Inr s))))
     else Inr s)"

definition sendInLoop :: "os \<Rightarrow> tid \<Rightarrow> conn_id \<Rightarrow> byte list \<Rightarrow> 'a net_scheme \<Rightarrow> 'a net_scheme res" where
  "sendInLoop os me c msg s =
     rbind (get_conn s c) (\<lambda>cn.
     if conn_state cn = kDisconnected then Inr s
     else rbind (direct_write os me c msg s) (\<lambda>(nwrote, remaining, faultError, s).
       if \<not> faultError \<and> 0 < remaining
       then buffer_rest os me c (drop nwrote msg) remaining s
       else Inr s))"

text \<open>\<open>send(const std::string& buf)\<close>: \<open>a\<close> is the address of \<open>buf\<close>.\<close>

definition send :: "os \<Rightarrow> tid \<Rightarrow> conn_id \<Rightarrow> nat \<Rightarrow> 'a net_scheme \<Rightarrow> 'a net_scheme res" where
  "send os me c a s =
     rbind (get_conn s c) (\<lambda>cn.
     if conn_state cn = kConnected
     then rbind (get_loop s (conn_loop cn)) (\<lambda>lp.
       rbind (get_string s a) (\<lambda>buf.
       if isInLoopThread me lp then sendInLoop os me c buf s
       else queueInLoop os me (conn_loop cn) (SendInLoop c a (length buf)) s))
     else Inr s)"

definition shutdownInLoop :: "os \<Rightarrow> tid \<Rightarrow> conn_id \<Rightarrow> 'a net_scheme \<Rightarrow> 'a net_scheme res" where
  "shutdownInLoop os me c s =
     rbind (get_conn s c) (\<lambda>cn.
     rbind (conn_chan s cn) (\<lambda>ch.
     if \<not> isWriting ch then Inr (snd (do_call os me (ShutdownWr (conn_fd cn)) s)) else Inr s))"

definition shutdown :: "os \<Rightarrow> tid \<Rightarrow> conn_id \<Rightarrow> 'a net_scheme \<Rightarrow> 'a net_scheme res" where
  "shutdown os me c s =
     rbind (get_conn s c) (\<lambda>cn.
     if conn_state cn = kConnected
     then rbind (setState kDisconnecting c s) (\<lambda>s. queueInLoop os me (conn_loop cn) (ShutdownInLoop c) s)
     else Inr s)"

subsection \<open>User code\<close>

datatype user_call =
    UcSend conn_id "byte list"
  | UcShutdown conn_id
  | UcRetrieve conn_id size_t
  | UcRetrieveAll conn_id

text \<open>A string that user code sends is a local variable of the callback.\<close>

fun run_call :: "os \<Rightarrow> tid \<Rightarrow> user_call \<Rightarrow> 'a net_scheme \<Rightarrow> 'a net_scheme res" where
  "run_call os me (UcSend c d) s =
     send os me c (next_string s)
       (s\<lparr>strings := (strings s)(next_string s := Some d), next_string := Suc (next_string s)\<rparr>)"
| "run_call os me (UcShutdown c) s = shutdown os me c s"
| "run_call os me (UcRetrieve c n) s = upd_conn c (\<lambda>cn. cn\<lparr>inputBuffer := retrieve n (inputBuffer cn)\<rparr>) s"
| "run_call os me (UcRetrieveAll c) s =
     rbind (get_conn s c) (\<lambda>cn.
     rbind (retrieveAllAsString (inputBuffer cn)) (\<lambda>(d, b).
     upd_conn c (\<lambda>cn. cn\<lparr>inputBuffer := b\<rparr>) s))"

text \<open>The calls of one callback; when it returns its strings are destroyed.\<close>

definition run_calls :: "os \<Rightarrow> tid \<Rightarrow> user_call list \<Rightarrow> 'a net_scheme \<Rightarrow> 'a net_scheme res" where
  "run_calls os me calls s =
     rbind (foldr_res (run_call os me) calls s) (\<lambda>s'.
     Inr (s'\<lparr>strings := (\<lambda>a. if next_string s \<le> a then None else strings s' a)\<rparr>))"

record user_code =
  onConnection :: "conn_id \<Rightarrow> bool \<Rightarrow> user_call list"
  onMessage :: "conn_id \<Rightarrow> byte list \<Rightarrow> int \<Rightarrow> user_call list"
  onWriteComplete :: "conn_id \<Rightarrow> user_call list"
  onHighWaterMark :: "conn_id \<Rightarrow> nat \<Rightarrow> user_call list"

text \<open>Calling an empty \<open>std::function\<close> throws.\<close>

definition call_connectionCb :: "os \<Rightarrow> tid \<Rightarrow> user_code \<Rightarrow> conn_id \<Rightarrow> 'a net_scheme \<Rightarrow> 'a net_scheme res" where
  "call_connectionCb os me uc c s =
     rbind (get_conn s c) (\<lambda>cn.
     if hasConnectionCb cn then run_calls os me (onConnection uc c (connected cn)) s
     else Inl BadFunctionCall)"

definition call_messageCb :: "os \<Rightarrow> tid \<Rightarrow> user_code \<Rightarrow> conn_id \<Rightarrow> int \<Rightarrow> 'a net_scheme \<Rightarrow> 'a net_scheme res" where
  "call_messageCb os me uc c t s =
     rbind (get_conn s c) (\<lambda>cn.
     if hasMessageCb cn then run_calls os me (onMessage uc c (contents (inputBuffer cn)) t) s
     else Inl BadFunctionCall)"

definition call_closeCb :: "(conn_id \<Rightarrow> 'a net_scheme \<Rightarrow> 'a net_scheme res) \<Rightarrow> conn_id \<Rightarrow>
    'a net_scheme \<Rightarrow> 'a net_scheme res" where
  "call_closeCb closeCb c s =
     rbind (get_conn s c) (\<lambda>cn. if hasCloseCb cn then closeCb c s else Inl BadFunctionCall)"

subsection \<open>The channel's callbacks\<close>

definition handleClose :: "os \<Rightarrow> tid \<Rightarrow> user_code \<Rightarrow> (conn_id \<Rightarrow> 'a net_scheme \<Rightarrow> 'a net_scheme res) \<Rightarrow>
    conn_id \<Rightarrow> 'a net_scheme \<Rightarrow> 'a net_scheme res" where
  "handleClose os me uc closeCb c s =
     rbind (setState kDisconnected c s) (\<lambda>s.
     rbind (get_conn s c) (\<lambda>cn.
     rbind (set_events os me DisableAll (conn_channel cn) s) (\<lambda>s.
     rbind (call_connectionCb os me uc c s) (\<lambda>s.
     call_closeCb closeCb c s))))"

definition handleError :: "os \<Rightarrow> tid \<Rightarrow> conn_id \<Rightarrow> 'a net_scheme \<Rightarrow> 'a net_scheme res" where
  "handleError os me c s =
     rbind (get_conn s c) (\<lambda>cn. Inr (snd (do_call os me (GetSockError (conn_fd cn)) s)))"

definition readv_lens :: "buffer \<Rightarrow> nat list" where
  "readv_lens b = unat (fst (readFd_iov b)) # (if snd (readFd_iov b) = 0 then [] else [snd (readFd_iov b)])"

definition readv_answer :: "sysret \<Rightarrow> int + byte list" where
  "readv_answer r = (if ret r < 0 then Inl (err r) else Inr (take (nat (ret r)) (rdata r)))"

definition handleRead :: "os \<Rightarrow> tid \<Rightarrow> user_code \<Rightarrow> (conn_id \<Rightarrow> 'a net_scheme \<Rightarrow> 'a net_scheme res) \<Rightarrow>
    conn_id \<Rightarrow> int \<Rightarrow> 'a net_scheme \<Rightarrow> 'a net_scheme res" where
  "handleRead os me uc closeCb c t s =
     rbind (get_conn s c) (\<lambda>cn.
     let (r, s) = do_call os me (Readv (conn_fd cn) (readv_lens (inputBuffer cn))) s in
     rbind (readFd (readv_answer r) (inputBuffer cn)) (\<lambda>(n, b, saveErrno).
     rbind (upd_conn c (\<lambda>cn. cn\<lparr>inputBuffer := b\<rparr>) s) (\<lambda>s.
     if 0 < n then call_messageCb os me uc c t s
     else if n = 0 then handleClose os me uc closeCb c s
     else handleError os me c s)))"

definition write_answer :: "sysret \<Rightarrow> int + nat" where
  "write_answer r = (if ret r < 0 then Inl (err r) else Inr (nat (ret r)))"

definition handleWrite :: "os \<Rightarrow> tid \<Rightarrow> conn_id \<Rightarrow> 'a net_scheme \<Rightarrow> 'a net_scheme res" where
  "handleWrite os me c s =
     rbind (get_conn s c) (\<lambda>cn.
     rbind (conn_chan s cn) (\<lambda>ch.
     if isWriting ch
     then rbind (writeFd_data (outputBuffer cn)) (\<lambda>data.
       let (r, s) = do_call os me (WriteFd (conn_fd cn) data) s in
       rbind (writeFd (write_answer r) (outputBuffer cn)) (\<lambda>(n, saveErrno).
       if 0 < n
       then let b = retrieve (of_int n) (outputBuffer cn) in
         rbind (upd_conn c (\<lambda>cn. cn\<lparr>outputBuffer := b\<rparr>) s) (\<lambda>s.
         if readableBytes b = 0
         then rbind (set_events os me DisableWriting (conn_channel cn) s) (\<lambda>s.
           rbind (if hasWriteCompleteCb cn
                  then queueInLoop os me (conn_loop cn) (WriteCallbackMember c) s else Inr s) (\<lambda>s.
           rbind (get_conn s c) (\<lambda>cn.
           if conn_state cn = kDisconnecting then shutdownInLoop os me c s else Inr s)))
         else Inr s)
       else Inr s))
     else Inr s))"

subsection \<open>Construction, establishment, destruction\<close>

definition CheckLoopNotNull :: "loop_id option \<Rightarrow> loop_id res" where
  "CheckLoopNotNull lo = (case lo of None \<Rightarrow> Inl FatalExit | Some l \<Rightarrow> Inr l)"

text \<open>\<open>c\<close> and \<open>p\<close> are the addresses of the new connection and of its channel.\<close>

definition mkTcpConnection :: "os \<Rightarrow> tid \<Rightarrow> loop_id option \<Rightarrow> string \<Rightarrow> int \<Rightarrow> inet_address \<Rightarrow>
    inet_address \<Rightarrow> conn_id \<Rightarrow> chan_id \<Rightarrow> 'a net_scheme \<Rightarrow> 'a net_scheme res" where
  "mkTcpConnection os me lo name sockfd local peer c p s =
     rbind (CheckLoopNotNull lo) (\<lambda>l.
     let ch = setErrorCallback (ConnHandleError c) (setWriteCallback (ConnHandleWrite c)
           (setCloseCallback (ConnHandleClose c) (setReadCallback (ConnHandleRead c) (mkChannel l sockfd))));
         cn = \<lparr>conn_loop = l, conn_name = name, conn_state = kConnecting, conn_fd = sockfd,
           conn_channel = p, localAddr = local, peerAddr = peer, hasConnectionCb = False,
           hasMessageCb = False, hasWriteCompleteCb = False, hasHighWaterCb = False, hasCloseCb = False,
           highWaterMark = default_highWaterMark, inputBuffer = mkBuffer kInitialSize,
           outputBuffer = mkBuffer kInitialSize\<rparr>;
         s = put_conn c cn (put_chan p ch s) in
     Inr (snd (do_call os me (SetSockOpt sockfd ''SO_KEEPALIVE'' True) s)))"

definition connectEstablished :: "os \<Rightarrow> tid \<Rightarrow> user_code \<Rightarrow> conn_id \<Rightarrow> 'a net_scheme \<Rightarrow> 'a net_scheme res" where
  "connectEstablished os me uc c s =
     rbind (setState kConnected c s) (\<lambda>s.
     rbind (get_conn s c) (\<lambda>cn.
     rbind (upd_chan (conn_channel cn) (tie c) s) (\<lambda>s.
     rbind (set_events os me EnableReading (conn_channel cn) s) (\<lambda>s.
     call_connectionCb os me uc c s))))"

definition connectDestroyed :: "os \<Rightarrow> tid \<Rightarrow> user_code \<Rightarrow> conn_id \<Rightarrow> 'a net_scheme \<Rightarrow> 'a net_scheme res" where
  "connectDestroyed os me uc c s =
     rbind (get_conn s c) (\<lambda>cn.
     rbind (if conn_state cn = kConnected
            then rbind (setState kDisconnected c s) (\<lambda>s.
              rbind (set_events os me DisableAll (conn_channel cn) s) (\<lambda>s.
              call_connectionCb os me uc c s))
            else Inr s) (\<lambda>s.
     channel_remove os me (conn_channel cn) s))"

text \<open>\<open>~TcpConnection\<close>: the channel and the socket go with the connection.\<close>

definition closeTcpConnection :: "os \<Rightarrow> tid \<Rightarrow> conn_id \<Rightarrow> 'a net_scheme \<Rightarrow> 'a net_scheme res" where
  "closeTcpConnection os me c s =
     rbind (get_conn s c) (\<lambda>cn.
     let s = s\<lparr>chans := (chans s)(conn_channel cn := None)\<rparr>;
         s = snd (do_call os me (CloseFd (conn_fd cn)) s) in
     Inr (s\<lparr>conns := (conns s)(c := None)\<rparr>))"

subsection \<open>What the closures do\<close>

text \<open>
  The functors and channel callbacks that concern a connection; \<open>rest\<close> is what the others do.
  Calling the closure made with \<open>&TcpConnection::writeCallback_\<close> reads the data member and drops
  the result.
\<close>

fun run_conn_functor :: "os \<Rightarrow> tid \<Rightarrow> user_code \<Rightarrow> (Functor \<Rightarrow> 'a net_scheme \<Rightarrow> 'a net_scheme res) \<Rightarrow>
    Functor \<Rightarrow> 'a net_scheme \<Rightarrow> 'a net_scheme res" where
  "run_conn_functor os me uc rest (WriteCallbackMember c) s = rbind (get_conn s c) (\<lambda>_. Inr s)"
| "run_conn_functor os me uc rest (WriteCallbackFn c) s = run_calls os me (onWriteComplete uc c) s"
| "run_conn_functor os me uc rest (HighWaterMarkFn c n) s = run_calls os me (onHighWaterMark uc c n) s"
| "run_conn_functor os me uc rest (SendInLoop c a n) s =
     rbind (get_string s a) (\<lambda>d.
     if n \<le> length d then sendInLoop os me c (take n d) s else Inl HeapOverread)"
| "run_conn_functor os me uc rest (ShutdownInLoop c) s = shutdownInLoop os me c s"
| "run_conn_functor os me uc rest (ConnectEstablished c) s = connectEstablished os me uc c s"
| "run_conn_functor os me uc rest (ConnectDestroyed c) s = connectDestroyed os me uc c s"
| "run_conn_functor os me uc rest AcceptorListen s = rest AcceptorListen s"
| "run_conn_functor os me uc rest (RemoveConnectionInLoop c) s = rest (RemoveConnectionInLoop c) s"

fun run_conn_cb :: "os \<Rightarrow> tid \<Rightarrow> user_code \<Rightarrow> (conn_id \<Rightarrow> 'a net_scheme \<Rightarrow> 'a net_scheme res) \<Rightarrow>
    (int \<Rightarrow> 'a net_scheme \<Rightarrow> 'a net_scheme res) \<Rightarrow> channel_cb \<Rightarrow> int \<Rightarrow> 'a net_scheme \<Rightarrow> 'a net_scheme res" where
  "run_conn_cb os me uc closeCb accept (ConnHandleRead c) t s = handleRead os me uc closeCb c t s"
| "run_conn_cb os me uc closeCb accept (ConnHandleClose c) t s = handleClose os me uc closeCb c s"
| "run_conn_cb os me uc closeCb accept (ConnHandleWrite c) t s = handleWrite os me c s"
| "run_conn_cb os me uc closeCb accept (ConnHandleError c) t s = handleError os me c s"
| "run_conn_cb os me uc closeCb accept (LoopHandleRead l) t s = loop_handleRead os me l s"
| "run_conn_cb os me uc closeCb accept AcceptorHandleRead t s = accept t s"

subsection \<open>Access and frames\<close>

lemma get_conn_eq_Inr [simp]: "get_conn s c = Inr cn \<longleftrightarrow> conns s c = Some cn"
  by (simp add: get_conn_def split: option.splits)

lemma get_conn_Some [simp]: "conns s c = Some cn \<Longrightarrow> get_conn s c = Inr cn"
  by simp

lemma get_string_eq_Inr [simp]: "get_string s a = Inr d \<longleftrightarrow> strings s a = Some d"
  by (simp add: get_string_def split: option.splits)

lemma put_conn_simps [simp]:
  "conns (put_conn c cn s) = (conns s)(c := Some cn)"
  "chans (put_conn c cn s) = chans s" "loops (put_conn c cn s) = loops s"
  "io_trace (put_conn c cn s) = io_trace s" "strings (put_conn c cn s) = strings s"
  "next_string (put_conn c cn s) = next_string s"
  "t_loopInthisThread (put_conn c cn s) = t_loopInthisThread s"
  by (simp_all add: put_conn_def)

lemma upd_conn_Some [simp]: "conns s c = Some cn \<Longrightarrow> upd_conn c f s = Inr (put_conn c (f cn) s)"
  by (simp add: upd_conn_def)

lemma upd_conn_eq_Inr: "upd_conn c f s = Inr s' \<longleftrightarrow> (\<exists>cn. conns s c = Some cn \<and> s' = put_conn c (f cn) s)"
  by (auto simp: upd_conn_def rbind_eq_Inr)

definition net_view :: "'a net_scheme \<Rightarrow> (conn_id \<Rightarrow> tcpconn option) \<times> (nat \<Rightarrow> byte list option) \<times> nat" where
  "net_view s = (conns s, strings s, next_string s)"

lemma reactor_ops_conns [simp]:
  "conns (put_chan p c s) = conns s" "conns (put_loop l lp s) = conns s"
  "conns (snd (do_call os me k s)) = conns s"
  "strings (put_chan p c s) = strings s" "strings (put_loop l lp s) = strings s"
  "strings (snd (do_call os me k s)) = strings s"
  "next_string (put_chan p c s) = next_string s" "next_string (put_loop l lp s) = next_string s"
  "next_string (snd (do_call os me k s)) = next_string s"
  by (simp_all add: put_chan_def put_loop_def do_call_def Let_def)

lemma more_net_view: "reactor.more s' = reactor.more s \<Longrightarrow> net_view s' = net_view s"
  by (cases s; cases s') (simp add: net_view_def)

lemma only_poller_net_view: "only_poller l s s' \<Longrightarrow> net_view s' = net_view s"
  by (auto simp: only_poller_def intro: more_net_view)

subsection \<open>What was written to a descriptor\<close>

fun written_step :: "int \<Rightarrow> (tid \<times> syscall \<times> sysret) \<Rightarrow> byte list" where
  "written_step fd (_, WriteFd fd' d, r) = (if fd' = fd \<and> 0 \<le> ret r then take (nat (ret r)) d else [])"
| "written_step fd (_, _, r) = []"

definition written :: "int \<Rightarrow> trace \<Rightarrow> byte list" where
  "written fd tr = concat (map (written_step fd) tr)"

lemma written_append [simp]: "written fd (tr @ xs) = written fd tr @ concat (map (written_step fd) xs)"
  by (simp add: written_def)

text \<open>How often the writing side was shut down.\<close>

fun is_fin :: "int \<Rightarrow> (tid \<times> syscall \<times> sysret) \<Rightarrow> bool" where
  "is_fin fd (_, ShutdownWr fd', r) = (fd' = fd)"
| "is_fin fd (_, _, r) = False"

definition fins :: "int \<Rightarrow> trace \<Rightarrow> nat" where
  "fins fd tr = length (filter (is_fin fd) tr)"

lemma fins_append [simp]: "fins fd (tr @ xs) = fins fd tr + length (filter (is_fin fd) xs)"
  by (simp add: fins_def)

text \<open>Registering channels makes no other calls than \<open>epoll_ctl\<close>.\<close>

fun is_ctl :: "(tid \<times> syscall \<times> sysret) \<Rightarrow> bool" where
  "is_ctl (_, EpollCtl ep op fd ev p, r) = True"
| "is_ctl (_, _, r) = False"

definition ctl_only :: "trace \<Rightarrow> trace \<Rightarrow> bool" where
  "ctl_only tr tr' \<longleftrightarrow> (\<exists>xs. tr' = tr @ xs \<and> list_all is_ctl xs)"

lemma ctl_only_refl [simp]: "ctl_only tr tr"
  by (auto simp: ctl_only_def)

lemma ctl_only_one: "ctl_only tr (tr @ [(me, EpollCtl ep op fd ev p, r)])"
  by (auto simp: ctl_only_def)

lemma poller_update_trace: "poller_update os me pl op p s = Inr s' \<Longrightarrow> ctl_only (io_trace s) (io_trace s')"
  by (auto simp: poller_update_def rbind_eq_Inr Let_def split_beta ctl_only_one split: if_splits)

lemma poller_updateChannel_trace:
  "poller_updateChannel os me pl p s = Inr (pl', s') \<Longrightarrow> ctl_only (io_trace s) (io_trace s')"
  by (auto simp: poller_updateChannel_def rbind_eq_Inr Let_def upd_chan_def
      split: if_splits dest!: poller_update_trace)

lemma poller_removeChannel_trace:
  "poller_removeChannel os me pl p s = Inr (pl', s') \<Longrightarrow> ctl_only (io_trace s) (io_trace s')"
  by (auto simp: poller_removeChannel_def rbind_eq_Inr Let_def upd_chan_def
      split: if_splits dest!: poller_update_trace)

lemma set_events_trace: "set_events os me ch p s = Inr s' \<Longrightarrow> ctl_only (io_trace s) (io_trace s')"
  by (auto simp: set_events_def channel_update_def updateChannel_def rbind_eq_Inr upd_chan_def set_poller_def
      upd_loop_eq_Inr dest!: poller_updateChannel_trace)

lemma channel_remove_trace: "channel_remove os me p s = Inr s' \<Longrightarrow> ctl_only (io_trace s) (io_trace s')"
  by (auto simp: channel_remove_def removeChannel_def rbind_eq_Inr set_poller_def
      upd_loop_eq_Inr dest!: poller_removeChannel_trace)

lemma is_ctl_silent: "is_ctl x \<Longrightarrow> written_step fd x = [] \<and> \<not> is_fin fd x"
  by (cases x rule: is_ctl.cases) simp_all

lemma ctl_only_silent:
  assumes "ctl_only tr tr'" shows "written fd tr' = written fd tr" "fins fd tr' = fins fd tr"
proof -
  have "concat (map (written_step fd) xs) = [] \<and> filter (is_fin fd) xs = []" if "list_all is_ctl xs" for xs
    using that by (induction xs) (auto dest: is_ctl_silent)
  with assms show "written fd tr' = written fd tr" "fins fd tr' = fins fd tr"
    by (auto simp: ctl_only_def)
qed

subsection \<open>Well-formed connections\<close>

text \<open>
  A connection in its store: its channel is live and belongs to its loop, the loop is in order and
  wakes up through another descriptor, the buffers are well-formed.
\<close>

definition conn_ok :: "os \<Rightarrow> 'a net_scheme \<Rightarrow> conn_id \<Rightarrow> tcpconn \<Rightarrow> bool" where
  "conn_ok os s c cn \<longleftrightarrow> conns s c = Some cn \<and> reg_inv os (conn_loop cn) s \<and>
     (\<exists>ch. chans s (conn_channel cn) = Some ch \<and> ch_loop ch = conn_loop cn) \<and>
     (\<exists>lp. loops s (conn_loop cn) = Some lp \<and> wakeFd lp \<noteq> conn_fd cn) \<and>
     buf_wf (inputBuffer cn) \<and> buf_wf (outputBuffer cn)"

lemma conn_okD:
  assumes "conn_ok os s c cn"
  shows "conns s c = Some cn" "get_conn s c = Inr cn" "reg_inv os (conn_loop cn) s"
    "buf_wf (inputBuffer cn)" "buf_wf (outputBuffer cn)"
  using assms by (auto simp: conn_ok_def)

definition chan_at :: "'a net_scheme \<Rightarrow> tcpconn \<Rightarrow> channel" where
  "chan_at s cn = the (chans s (conn_channel cn))"

lemma conn_ok_chan:
  assumes "conn_ok os s c cn"
  shows "chans s (conn_channel cn) = Some (chan_at s cn)" "ch_loop (chan_at s cn) = conn_loop cn"
    "conn_chan s cn = Inr (chan_at s cn)"
  using assms by (auto simp: conn_ok_def chan_at_def conn_chan_def)

lemma reg_inv_frame:
  assumes "reg_inv os l s" "loops s l = Some lp" "loops s' l = Some lp'" "loop_poller lp' = loop_poller lp"
    "chans s' = chans s" "\<And>ep. interest_of ep (io_trace s') = interest_of ep (io_trace s)"
  shows "reg_inv os l s'"
proof -
  from assms(1,2) obtain pl where pl: "loop_poller lp = Some pl" by (auto simp: reg_inv_def reg_inv_except_def)
  show ?thesis
    by (rule reg_inv_cong [OF assms(1,2) pl assms(3)]) (simp_all add: assms(4-6) pl)
qed

text \<open>Queueing a functor keeps every connection of the loop in order.\<close>

lemma queueInLoop_conn:
  assumes "conn_ok os s c cn"
  shows "\<exists>s'. queueInLoop os me (conn_loop cn) f s = Inr s' \<and> conn_ok os s' c cn \<and> net_view s' = net_view s \<and>
    chans s' = chans s \<and> written (conn_fd cn) (io_trace s') = written (conn_fd cn) (io_trace s) \<and>
    fins (conn_fd cn) (io_trace s') = fins (conn_fd cn) (io_trace s) \<and>
    (\<exists>lp lp'. loops s (conn_loop cn) = Some lp \<and> loops s' = (loops s)(conn_loop cn := Some lp') \<and>
       pendingFunctors lp' = pendingFunctors lp @ [f])"
proof -
  from assms obtain lp where lp: "loops s (conn_loop cn) = Some lp" "wakeFd lp \<noteq> conn_fd cn"
    by (auto simp: conn_ok_def)
  let ?lp' = "lp\<lparr>pendingFunctors := pendingFunctors lp @ [f]\<rparr>"
  define s' where "s' = (if must_wake me lp
      then snd (do_call os me (WriteFd (wakeFd lp) eventfd_one) (put_loop (conn_loop cn) ?lp' s))
      else put_loop (conn_loop cn) ?lp' s)"
  have "queueInLoop os me (conn_loop cn) f s = Inr s'"
    unfolding s'_def by (rule queueInLoop_ok [OF lp(1)])
  moreover have facts: "net_view s' = net_view s" "chans s' = chans s"
      "loops s' = (loops s)(conn_loop cn := Some ?lp')"
      "written (conn_fd cn) (io_trace s') = written (conn_fd cn) (io_trace s)"
      "fins (conn_fd cn) (io_trace s') = fins (conn_fd cn) (io_trace s)"
      "interest_of ep (io_trace s') = interest_of ep (io_trace s)" for ep
    using lp(2) by (simp_all add: s'_def net_view_def)
  moreover have "reg_inv os (conn_loop cn) s'"
    by (rule reg_inv_frame [where lp' = ?lp', OF conn_okD(3) [OF assms] lp(1)]) (simp_all add: facts)
  then have "conn_ok os s' c cn"
    using assms facts lp by (auto simp: conn_ok_def net_view_def)
  ultimately have "queueInLoop os me (conn_loop cn) f s = Inr s' \<and> conn_ok os s' c cn \<and> net_view s' = net_view s \<and>
      chans s' = chans s \<and> written (conn_fd cn) (io_trace s') = written (conn_fd cn) (io_trace s) \<and>
      fins (conn_fd cn) (io_trace s') = fins (conn_fd cn) (io_trace s) \<and>
      loops s (conn_loop cn) = Some lp \<and> loops s' = (loops s)(conn_loop cn := Some ?lp') \<and>
      pendingFunctors ?lp' = pendingFunctors lp @ [f]"
    using lp(1) by simp
  then show ?thesis by blast
qed

text \<open>Changing the events of the connection's channel.\<close>

lemma set_events_conn:
  assumes "conn_ok os s c cn"
  shows "\<exists>s'. set_events os me chg (conn_channel cn) s = Inr s' \<and> conn_ok os s' c cn \<and> net_view s' = net_view s \<and>
    written fd (io_trace s') = written fd (io_trace s) \<and> fins fd (io_trace s') = fins fd (io_trace s) \<and>
    ch_events (chan_at s' cn) = change_events chg (ch_events (chan_at s cn)) \<and>
    only_poller (conn_loop cn) s s' \<and> chan_entry (conn_loop cn) s' (conn_channel cn) =
      Some (entry_change chg (ch_events (chan_at s cn), ch_index (chan_at s cn) = kAdded))"
proof -
  let ?c' = "(chan_at s cn)\<lparr>ch_events := change_events chg (ch_events (chan_at s cn))\<rparr>"
  note ch = conn_ok_chan [OF assms]
  from set_events_ok [OF conn_okD(3) [OF assms] ch(1,2), of me chg] obtain s' where
    s': "set_events os me chg (conn_channel cn) s = Inr s'" "reg_inv os (conn_loop cn) s'"
      "only_poller (conn_loop cn) s s'"
      "chans s' = (chans s)(conn_channel cn := Some (?c'\<lparr>ch_index := index_after_update ?c'\<rparr>))" by blast
  have nv: "net_view s' = net_view s" using only_poller_net_view [OF s'(3)] .
  have "conn_ok os s' c cn"
    using assms s'(2-4) nv ch(2) by (auto simp: conn_ok_def net_view_def only_poller_def)
  moreover have "chan_entry (conn_loop cn) s' (conn_channel cn) =
      Some (entry_change chg (ch_events (chan_at s cn), ch_index (chan_at s cn) = kAdded))"
    using reg.change_ok [OF conn_okD(3) [OF assms] chan_entry_Some [OF ch(1,2)], of me chg] s'(1) by auto
  ultimately show ?thesis
    using s' nv ctl_only_silent [OF set_events_trace [OF s'(1)]] by (auto simp: chan_at_def)
qed

text \<open>Other system calls keep a connection in order, too, and so does storing its buffers.\<close>

fun keeps_interest :: "syscall \<Rightarrow> bool" where
  "keeps_interest (EpollCtl ep op fd ev p) = False"
| "keeps_interest (CloseFd fd) = False"
| "keeps_interest EpollCreate = False"
| "keeps_interest _ = True"

lemma keeps_interest_step: "keeps_interest k \<Longrightarrow> interest_step ep (me, k, r) m = m"
  by (cases k) simp_all

lemma call_conn:
  assumes "conn_ok os s c cn" "keeps_interest k"
  shows "conn_ok os (snd (do_call os me k s)) c cn"
proof -
  from assms(1) obtain lp where lp: "loops s (conn_loop cn) = Some lp" by (auto simp: conn_ok_def)
  have "reg_inv os (conn_loop cn) (snd (do_call os me k s))"
    by (rule reg_inv_frame [where lp' = lp, OF conn_okD(3) [OF assms(1)] lp])
      (simp_all add: lp keeps_interest_step [OF assms(2)])
  then show ?thesis using assms(1) by (simp add: conn_ok_def)
qed

lemma reg_inv_put_conn [simp]: "reg_inv os l (put_conn c cn s) \<longleftrightarrow> reg_inv os l s"
  by (simp add: reg_inv_def reg_inv_except_def poller_inv_def distinct_fds_def kernel_view_def)

lemma put_conn_ok:
  assumes "conn_ok os s c cn" "conn_loop cn' = conn_loop cn" "conn_channel cn' = conn_channel cn"
    "conn_fd cn' = conn_fd cn" "buf_wf (inputBuffer cn')" "buf_wf (outputBuffer cn')"
  shows "conn_ok os (put_conn c cn' s) c cn'"
  using assms by (simp add: conn_ok_def)

lemma chan_at_put [simp]:
  "chan_at (put_conn c cn' s) cn = chan_at s cn" "chan_at (snd (do_call os me k s)) cn = chan_at s cn"
  by (simp_all add: chan_at_def)

lemma chan_at_same: "conn_channel cn' = conn_channel cn \<Longrightarrow> chan_at s cn' = chan_at s cn"
  by (simp add: chan_at_def)

subsection \<open>Sending\<close>

text \<open>\<open>write(2)\<close> accepts no more than it is given.\<close>

definition write_documented :: "os \<Rightarrow> bool" where
  "write_documented os \<longleftrightarrow> (\<forall>tr fd d. ret (os tr (WriteFd fd d)) \<le> int (length d))"

text \<open>When \<open>sendInLoop\<close> writes directly, what the kernel answers, and how much it took.\<close>

definition writes_directly :: "'a net_scheme \<Rightarrow> tcpconn \<Rightarrow> bool" where
  "writes_directly s cn \<longleftrightarrow> \<not> isWriting (chan_at s cn) \<and> contents (outputBuffer cn) = []"

definition send_answer :: "os \<Rightarrow> 'a net_scheme \<Rightarrow> tcpconn \<Rightarrow> byte list \<Rightarrow> sysret" where
  "send_answer os s cn msg = os (io_trace s) (WriteFd (conn_fd cn) msg)"

definition sent_now :: "os \<Rightarrow> 'a net_scheme \<Rightarrow> tcpconn \<Rightarrow> byte list \<Rightarrow> nat" where
  "sent_now os s cn msg = (if writes_directly s cn then nat (ret (send_answer os s cn msg)) else 0)"

definition peer_gone :: "os \<Rightarrow> 'a net_scheme \<Rightarrow> tcpconn \<Rightarrow> byte list \<Rightarrow> bool" where
  "peer_gone os s cn msg \<longleftrightarrow> writes_directly s cn \<and> ret (send_answer os s cn msg) < 0 \<and>
     err (send_answer os s cn msg) \<in> {EPIPE, ECONNRESET}"

text \<open>The test that guards the output buffer.\<close>

definition crosses_mark :: "tcpconn \<Rightarrow> size_t \<Rightarrow> bool" where
  "crosses_mark cn remaining \<longleftrightarrow> highWaterMark cn \<le> readableBytes (outputBuffer cn) + remaining \<and>
     readableBytes (outputBuffer cn) < highWaterMark cn \<and> hasHighWaterCb cn"

lemma readable_zero: "buf_wf b \<Longrightarrow> readableBytes b = 0 \<longleftrightarrow> contents b = []"
  using unat_readable by (metis length_0_conv unat_eq_0)

lemma same_output [simp]: "cn\<lparr>outputBuffer := outputBuffer cn\<rparr> = cn"
  by simp

lemma direct_write_ok:
  assumes ok: "conn_ok os s c cn" and doc: "write_documented os" and len: "length msg < 2 ^ 63"
  shows "\<exists>s'. direct_write os me c msg s = Inr (sent_now os s cn msg,
      of_nat (length msg - sent_now os s cn msg), peer_gone os s cn msg, s') \<and> conn_ok os s' c cn \<and>
    net_view s' = net_view s \<and> chans s' = chans s \<and>
    written (conn_fd cn) (io_trace s') = written (conn_fd cn) (io_trace s) @ take (sent_now os s cn msg) msg"
proof (cases "writes_directly s cn")
  case False
  then have "\<not> (\<not> isWriting (chan_at s cn) \<and> readableBytes (outputBuffer cn) = 0)"
    using readable_zero [OF conn_okD(5) [OF ok]] by (simp add: writes_directly_def)
  with False ok show ?thesis
    by (auto simp: direct_write_def conn_okD conn_ok_chan sent_now_def peer_gone_def Let_def)
next
  case True
  define r where "r = send_answer os s cn msg"
  define s1 where "s1 = snd (do_call os me (WriteFd (conn_fd cn) msg) s)"
  have call: "do_call os me (WriteFd (conn_fd cn) msg) s = (r, s1)"
    by (simp add: r_def s1_def prod_eq_iff send_answer_def)
  have guard: "\<not> isWriting (chan_at s cn) \<and> readableBytes (outputBuffer cn) = 0"
    using True readable_zero [OF conn_okD(5) [OF ok]] by (simp add: writes_directly_def)
  have le: "ret r \<le> int (length msg)" using doc by (simp add: write_documented_def r_def send_answer_def)
  have s1: "conn_ok os s1 c cn" "net_view s1 = net_view s" "chans s1 = chans s"
      "written (conn_fd cn) (io_trace s1) = written (conn_fd cn) (io_trace s) @ take (nat (ret r)) msg"
    unfolding s1_def using call_conn [OF ok] by (auto simp: net_view_def r_def send_answer_def)
  have sent: "sent_now os s cn msg = nat (ret r)" using True by (simp add: sent_now_def r_def)
  note dw = direct_write_def conn_okD [OF ok] conn_ok_chan(3) [OF ok] guard call
  show ?thesis
  proof (cases "0 \<le> ret r")
    case False
    with True have "peer_gone os s cn msg \<longleftrightarrow> err r \<noteq> EWOULDBLOCK \<and> (err r = EPIPE \<or> err r = ECONNRESET)"
      by (auto simp: peer_gone_def r_def EWOULDBLOCK_def EPIPE_def ECONNRESET_def)
    with False s1 sent show ?thesis by (simp add: dw)
  next
    case pos: True
    have rem: "of_nat (length msg) - of_int (ret r) = (of_nat (length msg - nat (ret r)) :: size_t)"
      using le pos by (simp add: of_nat_diff)
    have gone: "\<not> peer_gone os s cn msg" using pos by (simp add: peer_gone_def r_def)
    obtain s2 where s2: "queueInLoop os me (conn_loop cn) (WriteCallbackFn c) s1 = Inr s2"
        "conn_ok os s2 c cn" "net_view s2 = net_view s1" "chans s2 = chans s1"
        "written (conn_fd cn) (io_trace s2) = written (conn_fd cn) (io_trace s1)"
      using queueInLoop_conn [OF s1(1), of me "WriteCallbackFn c"] by blast
    show ?thesis
      using pos gone s1 s2 sent by (auto simp: dw rem Let_def)
  qed
qed


text \<open>The bytes kept for later.\<close>

lemma buffer_rest_ok:
  assumes ok: "conn_ok os s c cn" and len: "length rest < 2 ^ 63" "unat remaining = length rest"
    and fits: "crosses_mark cn remaining \<Longrightarrow> append_fits (length rest) (outputBuffer cn)"
  shows "\<exists>s' b. buffer_rest os me c rest remaining s = Inr s' \<and> conn_ok os s' c (cn\<lparr>outputBuffer := b\<rparr>) \<and>
    contents b = contents (outputBuffer cn) @ (if crosses_mark cn remaining then rest else []) \<and>
    isWriting (chan_at s' cn) = (isWriting (chan_at s cn) \<or> crosses_mark cn remaining) \<and>
    written (conn_fd cn) (io_trace s') = written (conn_fd cn) (io_trace s)"
proof (cases "crosses_mark cn remaining")
  case False
  then have "buffer_rest os me c rest remaining s = Inr s"
    using conn_okD(2) [OF ok] by (auto simp: buffer_rest_def crosses_mark_def Let_def)
  then show ?thesis
    by (intro exI [of _ s] exI [of _ "outputBuffer cn"]) (use False ok in simp)
next
  case True
  from buf_append_fits [OF conn_okD(5) [OF ok] len(1)] fits [OF True] obtain b where
    b: "buf_append rest (outputBuffer cn) = Inr b" by blast
  note bok = buf_append_ok [OF conn_okD(5) [OF ok] len(1) b]
  let ?n = "unat (readableBytes (outputBuffer cn) + remaining)" and ?cn = "cn\<lparr>outputBuffer := b\<rparr>"
  obtain s1 where s1: "queueInLoop os me (conn_loop cn) (HighWaterMarkFn c ?n) s = Inr s1"
      "conn_ok os s1 c cn" "net_view s1 = net_view s" "chans s1 = chans s"
      "written (conn_fd cn) (io_trace s1) = written (conn_fd cn) (io_trace s)"
    using queueInLoop_conn [OF ok, of me "HighWaterMarkFn c ?n"] by blast
  define s2 where "s2 = put_conn c ?cn s1"
  have s2: "conn_ok os s2 c ?cn" "chan_at s2 ?cn = chan_at s cn"
      "written (conn_fd cn) (io_trace s2) = written (conn_fd cn) (io_trace s)"
    using put_conn_ok [OF s1(2), of ?cn] bok conn_okD(4) [OF ok] s1(4,5)
    by (simp_all add: s2_def chan_at_def)
  have chan: "conn_chan s2 cn = Inr (chan_at s cn)"
    using conn_ok_chan(3) [OF s2(1)] s2(2) by (simp add: conn_chan_def)
  obtain s3 where s3: "set_events os me EnableWriting (conn_channel ?cn) s2 = Inr s3" "conn_ok os s3 c ?cn"
      "written (conn_fd cn) (io_trace s3) = written (conn_fd cn) (io_trace s2)"
      "ch_events (chan_at s3 ?cn) = change_events EnableWriting (ch_events (chan_at s2 ?cn))"
    using set_events_conn [OF s2(1), of me EnableWriting "conn_fd cn"] by blast
  have "isWriting (chan_at s3 cn)"
    using s3(4) change_events_writing(1) by (simp add: isWriting_def chan_at_def channel_masks epoll_bits)
  moreover have "buffer_rest os me c rest remaining s = (if isWriting (chan_at s cn) then Inr s2 else Inr s3)"
    using True conn_okD(2) [OF ok] s1(1,2) b chan s3(1) len(2)
    by (simp add: buffer_rest_def crosses_mark_def Let_def s2_def conn_okD)
  moreover have "isWriting (chan_at s2 cn) = isWriting (chan_at s cn)" using s2(2) by (simp add: chan_at_def)
  ultimately show ?thesis using True bok(2) s2 s3(2,3) by (cases "isWriting (chan_at s cn)") auto
qed

text \<open>\<open>sendInLoop\<close> on a connection that is not disconnected, in one equation.\<close>

definition kept_for_later :: "os \<Rightarrow> 'a net_scheme \<Rightarrow> tcpconn \<Rightarrow> byte list \<Rightarrow> byte list" where
  "kept_for_later os s cn msg = (let n = sent_now os s cn msg in
     if \<not> peer_gone os s cn msg \<and> n < length msg \<and> crosses_mark cn (of_nat (length msg - n))
     then drop n msg else [])"

lemma sent_now_le: "write_documented os \<Longrightarrow> sent_now os s cn msg \<le> length msg"
  by (simp add: sent_now_def send_answer_def write_documented_def nat_le_iff)

lemma sendInLoop_ok:
  assumes ok: "conn_ok os s c cn" and doc: "write_documented os" and len: "length msg < 2 ^ 63"
    and st: "conn_state cn \<noteq> kDisconnected"
    and fits: "append_fits (length (kept_for_later os s cn msg)) (outputBuffer cn)"
  shows "\<exists>s' b. sendInLoop os me c msg s = Inr s' \<and> conn_ok os s' c (cn\<lparr>outputBuffer := b\<rparr>) \<and>
    written (conn_fd cn) (io_trace s') = written (conn_fd cn) (io_trace s) @ take (sent_now os s cn msg) msg \<and>
    contents b = contents (outputBuffer cn) @ kept_for_later os s cn msg \<and>
    isWriting (chan_at s' cn) = (isWriting (chan_at s cn) \<or> kept_for_later os s cn msg \<noteq> [])"
proof -
  define n where "n = sent_now os s cn msg"
  define remaining :: size_t where "remaining = of_nat (length msg - n)"
  have le: "n \<le> length msg" using sent_now_le [OF doc] by (simp add: n_def)
  have rem: "unat remaining = length (drop n msg)"
    using len by (simp add: remaining_def unat_size_t_of_nat)
  have pos: "0 < remaining \<longleftrightarrow> n < length msg" using rem by (simp add: word_less_nat_alt)
  obtain s1 where s1: "direct_write os me c msg s = Inr (n, remaining, peer_gone os s cn msg, s1)"
      "conn_ok os s1 c cn" "net_view s1 = net_view s" "chans s1 = chans s"
      "written (conn_fd cn) (io_trace s1) = written (conn_fd cn) (io_trace s) @ take n msg"
    using direct_write_ok [OF ok doc len, of me] by (auto simp: n_def remaining_def)
  have at: "chan_at s1 cn = chan_at s cn" using s1(4) by (simp add: chan_at_def)
  show ?thesis
  proof (cases "\<not> peer_gone os s cn msg \<and> n < length msg")
    case False
    then have "sendInLoop os me c msg s = Inr s1"
      using s1(1) st conn_okD(2) [OF ok] pos by (auto simp: sendInLoop_def)
    moreover have "kept_for_later os s cn msg = []" using False by (auto simp: kept_for_later_def n_def Let_def)
    ultimately show ?thesis
      by (intro exI [of _ s1] exI [of _ "outputBuffer cn"]) (use s1 at in \<open>simp add: n_def\<close>)
  next
    case True
    then have kept: "kept_for_later os s cn msg = (if crosses_mark cn remaining then drop n msg else [])"
      by (simp add: kept_for_later_def n_def remaining_def Let_def)
    have ne: "drop n msg \<noteq> []" using True by simp
    obtain s2 b where s2: "buffer_rest os me c (drop n msg) remaining s1 = Inr s2"
        "conn_ok os s2 c (cn\<lparr>outputBuffer := b\<rparr>)"
        "contents b = contents (outputBuffer cn) @ (if crosses_mark cn remaining then drop n msg else [])"
        "isWriting (chan_at s2 cn) = (isWriting (chan_at s1 cn) \<or> crosses_mark cn remaining)"
        "written (conn_fd cn) (io_trace s2) = written (conn_fd cn) (io_trace s1)"
      using buffer_rest_ok [OF s1(2), of "drop n msg" remaining me] len rem fits kept by fastforce
    have "sendInLoop os me c msg s = Inr s2"
      using True s1(1) s2(1) st conn_okD(2) [OF ok] pos by (simp add: sendInLoop_def)
    then show ?thesis using s2 s1(5) kept ne at by (auto simp: n_def)
  qed
qed

subsection \<open>Writing from the buffer, and the end of the stream\<close>

lemma shutdownInLoop_ok:
  assumes "conn_ok os s c cn"
  shows "\<exists>s'. shutdownInLoop os me c s = Inr s' \<and> conn_ok os s' c cn \<and> net_view s' = net_view s \<and>
    chans s' = chans s \<and> written fd (io_trace s') = written fd (io_trace s) \<and>
    fins (conn_fd cn) (io_trace s') =
      fins (conn_fd cn) (io_trace s) + (if isWriting (chan_at s cn) then 0 else 1)"
  using assms call_conn [OF assms, of "ShutdownWr (conn_fd cn)" me]
  by (simp add: shutdownInLoop_def conn_okD conn_ok_chan net_view_def)

text \<open>
  The buffer after a write that accepted \<open>n\<close> bytes, and whether the socket's writing side is
  shut down with it.
\<close>

definition drained :: "os \<Rightarrow> 'a net_scheme \<Rightarrow> tcpconn \<Rightarrow> nat" where
  "drained os s cn = nat (ret (send_answer os s cn (contents (outputBuffer cn))))"

lemma handleWrite_partial:
  assumes ok: "conn_ok os s c cn" and doc: "write_documented os" and wr: "isWriting (chan_at s cn)"
    and part: "drained os s cn < length (contents (outputBuffer cn))"
  shows "\<exists>s' b. handleWrite os me c s = Inr s' \<and> conn_ok os s' c (cn\<lparr>outputBuffer := b\<rparr>) \<and>
    contents b = drop (drained os s cn) (contents (outputBuffer cn)) \<and> isWriting (chan_at s' cn) \<and>
    written (conn_fd cn) (io_trace s') =
      written (conn_fd cn) (io_trace s) @ take (drained os s cn) (contents (outputBuffer cn)) \<and>
    fins (conn_fd cn) (io_trace s') = fins (conn_fd cn) (io_trace s)"
proof -
  let ?out = "outputBuffer cn" and ?n = "drained os s cn"
  define r where "r = send_answer os s cn (contents ?out)"
  define s1 where "s1 = snd (do_call os me (WriteFd (conn_fd cn) (contents ?out)) s)"
  have call: "do_call os me (WriteFd (conn_fd cn) (contents ?out)) s = (r, s1)"
    by (simp add: r_def s1_def prod_eq_iff send_answer_def)
  have n: "?n = nat (ret r)" by (simp add: drained_def r_def)
  have s1: "conn_ok os s1 c cn" "chan_at s1 cn = chan_at s cn"
      "written (conn_fd cn) (io_trace s1) = written (conn_fd cn) (io_trace s) @ take ?n (contents ?out)"
      "fins (conn_fd cn) (io_trace s1) = fins (conn_fd cn) (io_trace s)"
    unfolding s1_def using call_conn [OF ok] by (auto simp: n r_def send_answer_def)
  note hw = handleWrite_def conn_okD [OF ok] conn_ok_chan(3) [OF ok] wr call writeFd_data_contents
  show ?thesis
  proof (cases "0 < ret r")
    case False
    then have "handleWrite os me c s = Inr s1" by (auto simp: hw writeFd_def write_answer_def)
    then show ?thesis
      by (intro exI [of _ s1] exI [of _ ?out]) (use False s1 wr in \<open>simp add: n\<close>)
  next
    case pos: True
    let ?b = "retrieve (of_nat ?n) ?out" and ?cn = "cn\<lparr>outputBuffer := retrieve (of_nat ?n) ?out\<rparr>"
    have int: "of_int (ret r) = (of_nat ?n :: size_t)" using pos by (simp add: n)
    have un: "unat (of_nat ?n :: size_t) = ?n"
      using part unat_of_nat_le_contents [OF conn_okD(5) [OF ok]] by simp
    have b: "buf_wf ?b" "contents ?b = drop ?n (contents ?out)"
      using conn_okD(5) [OF ok] by (simp_all add: retrieve_wf retrieve_contents un)
    have "readableBytes ?b \<noteq> 0" using readable_zero [OF b(1)] b(2) part by simp
    then have "handleWrite os me c s = Inr (put_conn c ?cn s1)"
      using pos conn_okD [OF s1(1)] by (simp add: hw writeFd_def write_answer_def int Let_def)
    moreover have "conn_ok os (put_conn c ?cn s1) c ?cn"
      using put_conn_ok [OF s1(1), of ?cn] b conn_okD(4) [OF ok] by simp
    ultimately show ?thesis using b s1 wr by (intro exI [of _ "put_conn c ?cn s1"] exI [of _ ?b]) simp
  qed
qed

lemma handleWrite_drains:
  assumes ok: "conn_ok os s c cn" and wr: "isWriting (chan_at s cn)" and ne: "contents (outputBuffer cn) \<noteq> []"
    and all: "drained os s cn = length (contents (outputBuffer cn))"
  shows "\<exists>s' b. handleWrite os me c s = Inr s' \<and> conn_ok os s' c (cn\<lparr>outputBuffer := b\<rparr>) \<and>
    contents b = [] \<and> \<not> isWriting (chan_at s' cn) \<and>
    written (conn_fd cn) (io_trace s') = written (conn_fd cn) (io_trace s) @ contents (outputBuffer cn) \<and>
    fins (conn_fd cn) (io_trace s') =
      fins (conn_fd cn) (io_trace s) + (if conn_state cn = kDisconnecting then 1 else 0)"
proof -
  let ?out = "outputBuffer cn" and ?n = "drained os s cn"
  define r where "r = send_answer os s cn (contents ?out)"
  define s1 where "s1 = snd (do_call os me (WriteFd (conn_fd cn) (contents ?out)) s)"
  have call: "do_call os me (WriteFd (conn_fd cn) (contents ?out)) s = (r, s1)"
    by (simp add: r_def s1_def prod_eq_iff send_answer_def)
  have n: "?n = nat (ret r)" by (simp add: drained_def r_def)
  have pos: "0 < ret r" using all ne n by (cases "0 < ret r") simp_all
  let ?b = "retrieve (of_nat ?n) ?out" and ?cn = "cn\<lparr>outputBuffer := retrieve (of_nat ?n) ?out\<rparr>"
  have int: "of_int (ret r) = (of_nat ?n :: size_t)" using pos by (simp add: n)
  have b: "buf_wf ?b" "contents ?b = []"
    using conn_okD(5) [OF ok] all unat_of_nat_le_contents [OF conn_okD(5) [OF ok], of ?n]
    by (simp_all add: retrieve_wf retrieve_contents)
  have zero: "readableBytes ?b = 0" using readable_zero [OF b(1)] b(2) by simp
  define s2 where "s2 = put_conn c ?cn s1"
  have c1: "conn_ok os s1 c cn" unfolding s1_def using call_conn [OF ok] by simp
  have s2: "conn_ok os s2 c ?cn" "chan_at s2 ?cn = chan_at s cn"
      "written (conn_fd cn) (io_trace s2) = written (conn_fd cn) (io_trace s) @ contents ?out"
      "fins (conn_fd cn) (io_trace s2) = fins (conn_fd cn) (io_trace s)"
    using put_conn_ok [OF c1, of ?cn] b conn_okD(4) [OF ok] n all
    by (auto simp: s2_def s1_def r_def send_answer_def chan_at_def)
  obtain s3 where s3: "set_events os me DisableWriting (conn_channel ?cn) s2 = Inr s3" "conn_ok os s3 c ?cn"
      "written (conn_fd cn) (io_trace s3) = written (conn_fd cn) (io_trace s2)"
      "fins (conn_fd cn) (io_trace s3) = fins (conn_fd cn) (io_trace s2)"
      "ch_events (chan_at s3 ?cn) = change_events DisableWriting (ch_events (chan_at s2 ?cn))"
    using set_events_conn [OF s2(1), of me DisableWriting "conn_fd cn"] by blast
  have nw3: "\<not> isWriting (chan_at s3 ?cn)" using s3(5) change_events_writing(2) by (simp add: isWriting_def)
  obtain s4 where s4: "(if hasWriteCompleteCb cn
        then queueInLoop os me (conn_loop cn) (WriteCallbackMember c) s3 else Inr s3) = Inr s4"
      "conn_ok os s4 c ?cn" "chans s4 = chans s3"
      "written (conn_fd cn) (io_trace s4) = written (conn_fd cn) (io_trace s3)"
      "fins (conn_fd cn) (io_trace s4) = fins (conn_fd cn) (io_trace s3)"
    using queueInLoop_conn [OF s3(2), of me "WriteCallbackMember c"] s3(2)
    by (cases "hasWriteCompleteCb cn") auto
  have nw4: "\<not> isWriting (chan_at s4 ?cn)" using nw3 s4(3) by (simp add: chan_at_def)
  obtain s5 where s5: "shutdownInLoop os me c s4 = Inr s5" "conn_ok os s5 c ?cn" "chans s5 = chans s4"
      "written (conn_fd cn) (io_trace s5) = written (conn_fd cn) (io_trace s4)"
      "fins (conn_fd cn) (io_trace s5) = fins (conn_fd cn) (io_trace s4) + 1"
    using shutdownInLoop_ok [OF s4(2), of me "conn_fd cn"] nw4 by auto
  have "handleWrite os me c s = (if conn_state cn = kDisconnecting then Inr s5 else Inr s4)"
  proof -
    have "writeFd (write_answer r) ?out = Inr (ret r, None)"
      using pos writeFd_data_contents [OF conn_okD(5) [OF ok]] by (simp add: writeFd_def write_answer_def)
    then have "handleWrite os me c s = rbind (set_events os me DisableWriting (conn_channel cn) s2) (\<lambda>s.
           rbind (if hasWriteCompleteCb cn
                  then queueInLoop os me (conn_loop cn) (WriteCallbackMember c) s else Inr s) (\<lambda>s.
           rbind (get_conn s c) (\<lambda>cn.
           if conn_state cn = kDisconnecting then shutdownInLoop os me c s else Inr s)))"
      using pos wr conn_okD(1,2) [OF ok] conn_okD(1) [OF c1] writeFd_data_contents [OF conn_okD(5) [OF ok]]
      by (simp add: handleWrite_def conn_ok_chan(3) [OF ok] call int zero Let_def s2_def)
    also have "\<dots> = (if conn_state cn = kDisconnecting then Inr s5 else Inr s4)"
      using s3(1) s4(1) s5(1) conn_okD(2) [OF s4(2)] by simp
    finally show ?thesis .
  qed
  moreover have "\<not> isWriting (chan_at s5 cn)" "\<not> isWriting (chan_at s4 cn)"
    using nw4 s5(3) by (simp_all add: chan_at_def)
  ultimately show ?thesis
    using s2(3,4) s3(3,4) s4 s5 b(2) by (cases "conn_state cn = kDisconnecting") auto
qed

subsection \<open>Establishing and closing\<close>

text \<open>Fields of a channel that the poller does not look at.\<close>

lemma reg_inv_put_chan:
  assumes "reg_inv os l s" "chans s p = Some ch" "ch_fd ch' = ch_fd ch" "ch_loop ch' = ch_loop ch"
    "ch_events ch' = ch_events ch" "ch_index ch' = ch_index ch"
  shows "reg_inv os l (put_chan p ch' s)"
proof -
  from assms(1) obtain lp pl where lp: "loops s l = Some lp" "loop_poller lp = Some pl"
    by (auto simp: reg_inv_def reg_inv_except_def)
  have "same_chans l s (put_chan p ch' s)" using assms(2-6) by (auto simp: same_chans_def chan_sig_def)
  then show ?thesis using reg_inv_cong [OF assms(1) lp, of "put_chan p ch' s" lp] lp by simp
qed

lemma setState_conn:
  assumes "conn_ok os s c cn"
  shows "setState st c s = Inr (put_conn c (cn\<lparr>conn_state := st\<rparr>) s)"
    "conn_ok os (put_conn c (cn\<lparr>conn_state := st\<rparr>) s) c (cn\<lparr>conn_state := st\<rparr>)"
  using assms put_conn_ok [OF assms, of "cn\<lparr>conn_state := st\<rparr>"] conn_okD [OF assms]
  by (simp_all add: setState_def)

text \<open>The registration of a connection's channel.\<close>

definition conn_registered :: "'a net_scheme \<Rightarrow> tcpconn \<Rightarrow> 32 word option" where
  "conn_registered s cn = registered (conn_loop cn) s (conn_channel cn)"

lemma set_events_registered:
  assumes "conn_ok os s c cn"
  shows "\<exists>s'. set_events os me chg (conn_channel cn) s = Inr s' \<and> conn_ok os s' c cn \<and> net_view s' = net_view s \<and>
    conn_registered s' cn =
      kernel_mask (entry_change chg (ch_events (chan_at s cn), ch_index (chan_at s cn) = kAdded)) \<and>
    ch_events (chan_at s' cn) = change_events chg (ch_events (chan_at s cn))"
proof -
  obtain s' where s': "set_events os me chg (conn_channel cn) s = Inr s'" "conn_ok os s' c cn"
    "net_view s' = net_view s" "ch_events (chan_at s' cn) = change_events chg (ch_events (chan_at s cn))"
    "chan_entry (conn_loop cn) s' (conn_channel cn) =
      Some (entry_change chg (ch_events (chan_at s cn), ch_index (chan_at s cn) = kAdded))"
    using set_events_conn [OF assms, of me chg] by blast
  with registered_of_entry [OF conn_okD(3) [OF s'(2)] s'(5)] show ?thesis
    by (auto simp: conn_registered_def)
qed

lemma handleClose_ok:
  assumes ok: "conn_ok os s c cn" and add: "ch_index (chan_at s cn) = kAdded" and cb: "hasConnectionCb cn"
  shows "\<exists>s'. conn_ok os s' c (cn\<lparr>conn_state := kDisconnected\<rparr>) \<and> conn_registered s' cn = None \<and>
    ch_events (chan_at s' cn) = kNoneEvent \<and>
    handleClose os me uc closeCb c s =
      rbind (run_calls os me (onConnection uc c False) s') (call_closeCb closeCb c)"
proof -
  let ?cn = "cn\<lparr>conn_state := kDisconnected\<rparr>"
  note st = setState_conn [OF ok, of kDisconnected]
  obtain s' where s': "set_events os me DisableAll (conn_channel ?cn) (put_conn c ?cn s) = Inr s'"
      "conn_ok os s' c ?cn" "conn_registered s' ?cn =
        kernel_mask (entry_change DisableAll (ch_events (chan_at (put_conn c ?cn s) ?cn),
          ch_index (chan_at (put_conn c ?cn s) ?cn) = kAdded))"
      "ch_events (chan_at s' ?cn) = change_events DisableAll (ch_events (chan_at (put_conn c ?cn s) ?cn))"
    using set_events_registered [OF st(2), of me DisableAll] by blast
  have "conn_registered s' cn = None"
    using s'(3) add by (simp add: conn_registered_def kernel_mask_def chan_at_def)
  moreover have "handleClose os me uc closeCb c s =
      rbind (run_calls os me (onConnection uc c False) s') (call_closeCb closeCb c)"
    using st(1) s'(1) conn_okD(2) [OF st(2)] conn_okD(2) [OF s'(2)] cb
    by (simp add: handleClose_def call_connectionCb_def)
  ultimately show ?thesis using s'(2,4) by (auto simp: chan_at_def)
qed

lemma enable_reading_mask: "change_events EnableReading ev \<noteq> kNoneEvent"
proof
  assume eq: "change_events EnableReading ev = kNoneEvent"
  from change_events_reading(1) [of ev] show False
    unfolding eq by (simp add: channel_masks epoll_bits)
qed

lemma connectEstablished_ok:
  assumes ok: "conn_ok os s c cn"
  shows "\<exists>s'. conn_ok os s' c (cn\<lparr>conn_state := kConnected\<rparr>) \<and>
    conn_registered s' cn = Some (ch_events (chan_at s cn) OR kReadEvent) \<and>
    connectEstablished os me uc c s = (if hasConnectionCb cn
      then run_calls os me (onConnection uc c True) s' else Inl BadFunctionCall)"
proof -
  let ?cn = "cn\<lparr>conn_state := kConnected\<rparr>"
  note st = setState_conn [OF ok, of kConnected]
  define s1 where "s1 = put_chan (conn_channel cn) (tie c (chan_at s cn)) (put_conn c ?cn s)"
  note at = conn_ok_chan(1,2) [OF ok]
  have "reg_inv os (conn_loop cn) s1"
    unfolding s1_def using conn_okD(3) [OF st(2)] at
    by (intro reg_inv_put_chan [where ch = "chan_at s cn"]) (simp_all add: tie_def)
  then have ok1: "conn_ok os s1 c ?cn"
    using st(2) at by (auto simp: conn_ok_def s1_def tie_def)
  have u: "upd_chan (conn_channel cn) (tie c) (put_conn c ?cn s) = Inr s1"
    using at by (simp add: upd_chan_def s1_def)
  have at1: "chan_at s1 cn = tie c (chan_at s cn)" by (simp add: chan_at_def s1_def)
  obtain s' where s': "set_events os me EnableReading (conn_channel ?cn) s1 = Inr s'" "conn_ok os s' c ?cn"
      "conn_registered s' ?cn = kernel_mask (entry_change EnableReading (ch_events (chan_at s1 ?cn),
          ch_index (chan_at s1 ?cn) = kAdded))"
    using set_events_registered [OF ok1, of me EnableReading] by blast
  have "conn_registered s' cn = Some (ch_events (chan_at s cn) OR kReadEvent)"
    using s'(3) at1 enable_reading_mask [of "ch_events (chan_at s cn)"]
    by (simp add: conn_registered_def kernel_mask_def tie_def Let_def chan_at_def)
  moreover have "connectEstablished os me uc c s = (if hasConnectionCb cn
      then run_calls os me (onConnection uc c True) s' else Inl BadFunctionCall)"
    using st(1) u s'(1) conn_okD(1,2) [OF st(2)] conn_okD(1,2) [OF s'(2)]
    by (simp add: connectEstablished_def call_connectionCb_def)
  ultimately show ?thesis using s'(2) by blast
qed

lemma connectDestroyed_closed:
  assumes ok: "conn_ok os s c cn" and st: "conn_state cn \<noteq> kConnected"
  shows "\<exists>s'. connectDestroyed os me uc c s = Inr s' \<and> conn_ok os s' c cn \<and> net_view s' = net_view s \<and>
    conn_registered s' cn = None \<and> ch_index (chan_at s' cn) = kNew"
proof -
  note at = conn_ok_chan [OF ok]
  obtain s' where s': "channel_remove os me (conn_channel cn) s = Inr s'" "reg_inv os (conn_loop cn) s'"
      "only_poller (conn_loop cn) s s'"
      "chans s' = (chans s)(conn_channel cn := Some ((chan_at s cn)\<lparr>ch_index := kNew\<rparr>))"
    using channel_remove_ok [OF conn_okD(3) [OF ok] at(1,2), of me] by blast
  have nv: "net_view s' = net_view s" using only_poller_net_view [OF s'(3)] .
  have "conn_ok os s' c cn"
    using ok s'(2-4) nv at(2) by (auto simp: conn_ok_def net_view_def only_poller_def)
  moreover have "conn_registered s' cn = None"
    using registered_entry [OF s'(2), of "conn_channel cn"] s'(4) at(2)
    by (simp add: conn_registered_def kernel_mask_def index_states)
  moreover have "connectDestroyed os me uc c s = Inr s'"
    using st s'(1) conn_okD(2) [OF ok] by (simp add: connectDestroyed_def)
  ultimately show ?thesis using nv s'(4) by (auto simp: chan_at_def)
qed

subsection \<open>What the operations keep\<close>

text \<open>
  Frames that hold whatever the state is: the channel and queue operations leave the connections,
  the strings and whatever the state is extended with alone.
\<close>

lemma more_net_more: "reactor.more s' = reactor.more s \<Longrightarrow> net.more s' = net.more s"
  by (cases s; cases s') simp

definition net_frame :: "'a net_scheme \<Rightarrow> 'a net_scheme \<Rightarrow> bool" where
  "net_frame s s' \<longleftrightarrow> net_view s' = net_view s \<and> net.more s' = net.more s"

lemma net_frame_refl [simp]: "net_frame s s"
  by (simp add: net_frame_def)

lemma net_frame_trans [trans]: "net_frame s t \<Longrightarrow> net_frame t u \<Longrightarrow> net_frame s u"
  by (simp add: net_frame_def)

lemma net_frame_more: "reactor.more s' = reactor.more s \<Longrightarrow> net_frame s s'"
  unfolding net_frame_def using more_net_view more_net_more by blast

lemma poller_frame_net: "same_above s s' \<Longrightarrow> net_frame s s'"
  by (rule net_frame_more) (simp add: same_above_def)

lemma set_poller_net:
  assumes "set_poller l pl s = Inr s'" shows "net_frame s s'"
  by (rule net_frame_more) (use assms in \<open>auto simp: set_poller_def upd_loop_eq_Inr\<close>)

lemma set_events_net [frame_rules]:
  assumes "set_events os me chg p s = Inr s'" shows "net_frame s s'"
proof -
  from assms obtain c pl pl1 t where s1: "get_poller (put_chan p (c\<lparr>ch_events := change_events chg (ch_events c)\<rparr>) s) (ch_loop c) = Inr pl"
      "poller_updateChannel os me pl p (put_chan p (c\<lparr>ch_events := change_events chg (ch_events c)\<rparr>) s) = Inr (pl1, t)"
      "set_poller (ch_loop c) pl1 t = Inr s'"
    by (auto simp: set_events_def channel_update_def updateChannel_def rbind_eq_Inr upd_chan_eq_Inr)
  have "net_frame s (put_chan p (c\<lparr>ch_events := change_events chg (ch_events c)\<rparr>) s)"
    by (rule net_frame_more) simp
  also note poller_frame_net [OF poller_updateChannel_frame [OF s1(2)]]
  also note set_poller_net [OF s1(3)]
  finally show ?thesis .
qed

lemma channel_remove_net [frame_rules]:
  assumes "channel_remove os me p s = Inr s'" shows "net_frame s s'"
proof -
  from assms obtain pl pl1 t l where t: "poller_removeChannel os me pl p s = Inr (pl1, t)"
      "set_poller l pl1 t = Inr s'"
    by (auto simp: channel_remove_def removeChannel_def rbind_eq_Inr)
  from poller_frame_net [OF poller_removeChannel_frame [OF t(1)]] set_poller_net [OF t(2)]
  show ?thesis by (rule net_frame_trans)
qed

lemma queueInLoop_net [frame_rules]: "queueInLoop os me l f s = Inr s' \<Longrightarrow> net_frame s s'"
  by (auto simp: queueInLoop_def push_functor_def wakeup_def rbind_eq_Inr upd_loop_eq_Inr
      split: if_splits intro!: net_frame_more)

lemma do_call_net [frame_rules]: "net_frame s (snd (do_call os me k s))"
  by (rule net_frame_more) simp

text \<open>What never changes in a connection, and the order in which it changes.\<close>

definition conn_ident :: "tcpconn \<Rightarrow> loop_id \<times> string \<times> int \<times> chan_id \<times> inet_address \<times> inet_address" where
  "conn_ident cn = (conn_loop cn, conn_name cn, conn_fd cn, conn_channel cn, localAddr cn, peerAddr cn)"

definition bufs_le :: "tcpconn \<Rightarrow> tcpconn \<Rightarrow> bool" where
  "bufs_le cn cn' \<longleftrightarrow> (buf_wf (inputBuffer cn) \<longrightarrow> buf_wf (inputBuffer cn')) \<and>
     (buf_wf (outputBuffer cn) \<longrightarrow> buf_wf (outputBuffer cn'))"

definition conn_le :: "tcpconn \<Rightarrow> tcpconn \<Rightarrow> bool" where
  "conn_le cn cn' \<longleftrightarrow> conn_state cn \<le> conn_state cn' \<and> conn_ident cn' = conn_ident cn \<and> bufs_le cn cn'"

definition conns_le :: "'a net_scheme \<Rightarrow> 'a net_scheme \<Rightarrow> bool" where
  "conns_le s s' \<longleftrightarrow> (\<forall>c cn. conns s c = Some cn \<longrightarrow> (\<exists>cn'. conns s' c = Some cn' \<and> conn_le cn cn'))"

lemma conn_le_trans: "conn_le a b \<Longrightarrow> conn_le b c \<Longrightarrow> conn_le a c"
  by (auto simp: conn_le_def bufs_le_def)

lemma conn_le_simps [simp]:
  "conn_le cn cn" "conn_le cn (cn\<lparr>inputBuffer := b\<rparr>) \<longleftrightarrow> (buf_wf (inputBuffer cn) \<longrightarrow> buf_wf b)"
  "conn_le cn (cn\<lparr>outputBuffer := b\<rparr>) \<longleftrightarrow> (buf_wf (outputBuffer cn) \<longrightarrow> buf_wf b)"
  "conn_le cn (cn\<lparr>conn_state := st\<rparr>) \<longleftrightarrow> conn_state cn \<le> st"
  by (simp_all add: conn_le_def conn_ident_def bufs_le_def)

text \<open>
  Relations between the states before and after that all operations of connections respect: they
  hold when only the loops below change, when a connection is replaced by a later one of the same
  identity, and when strings are made and destroyed. Each operation is shown once to respect
  every such relation.
\<close>

definition advances :: "('s \<Rightarrow> 's \<Rightarrow> bool) \<Rightarrow> ('s \<Rightarrow> 's res) \<Rightarrow> bool" where
  "advances R f \<longleftrightarrow> (\<forall>s s'. f s = Inr s' \<longrightarrow> R s s')"

lemma advancesD: "advances R f \<Longrightarrow> f s = Inr s' \<Longrightarrow> R s s'"
  by (auto simp: advances_def)

lemma advances_read: "(\<And>x. advances R (f x)) \<Longrightarrow> advances R (\<lambda>s. rbind (g s) (\<lambda>x. f x s))"
  by (auto simp: advances_def rbind_eq_Inr)

lemma advances_if: "advances R f \<Longrightarrow> advances R g \<Longrightarrow> advances R (\<lambda>s. if b s then f s else g s)"
  by (simp add: advances_def)

lemma advances_case_prod: "(\<And>a b. advances R (f a b)) \<Longrightarrow> advances R (\<lambda>s. case x of (a, b) \<Rightarrow> f a b s)"
  by (cases x) simp

locale net_relation =
  fixes R :: "'a net_scheme \<Rightarrow> 'a net_scheme \<Rightarrow> bool"
  assumes R_trans: "R s t \<Longrightarrow> R t u \<Longrightarrow> R s u"
    and R_frame: "net_frame s s' \<Longrightarrow> R s s'"
    and R_put: "conns s c = Some cn \<Longrightarrow> conn_le cn cn' \<Longrightarrow> R s (put_conn c cn' s)"
    and R_strings: "R s (s\<lparr>strings := x, next_string := n\<rparr>)"
begin

lemma R_refl [simp]: "R s s"
  by (rule R_frame) (simp add: net_frame_def)

lemma advances_frames [simp, intro]:
  "advances R (set_events os me chg p)" "advances R (channel_remove os me p)" "advances R (queueInLoop os me l f)"
  "advances R Inr" "advances R (\<lambda>s. Inl e)" "advances R (\<lambda>s. Inr (snd (do_call os me k s)))"
  by (auto simp: advances_def intro: R_frame frame_rules)

lemma advances_seq: "advances R f \<Longrightarrow> advances R g \<Longrightarrow> advances R (\<lambda>s. rbind (f s) g)"
  unfolding advances_def rbind_eq_Inr by (blast intro: R_trans)

lemma advances_upd_conn: "(\<And>cn. conn_le cn (f cn)) \<Longrightarrow> advances R (upd_conn c f)"
  by (auto simp: advances_def upd_conn_eq_Inr intro: R_put)

lemma advances_call:
  assumes "\<And>r. advances R (f r)"
  shows "advances R (\<lambda>s. case do_call os me k s of (r, s') \<Rightarrow> f r s')"
  unfolding advances_def
proof (intro allI impI)
  fix s s'
  assume "(case do_call os me k s of (r, t) \<Rightarrow> f r t) = Inr s'"
  then have "f (fst (do_call os me k s)) (snd (do_call os me k s)) = Inr s'" by (simp add: split_beta)
  with assms have "R (snd (do_call os me k s)) s'" by (rule advancesD)
  with R_frame [OF do_call_net] show "R s s'" by (rule R_trans)
qed

lemmas advances_rules = advances_case_prod advances_seq advances_upd_conn advances_read advances_if
  advances_call advances_frames

lemma setState_disconnected: "advances R (setState kDisconnected c)"
  unfolding setState_def
proof (rule advances_upd_conn)
  show "conn_le cn (cn\<lparr>conn_state := kDisconnected\<rparr>)" for cn by simp
qed

lemma direct_write_advances: "direct_write os me c msg s = Inr (n, r, e, s') \<Longrightarrow> R s s'"
  by (auto simp: direct_write_def rbind_eq_Inr Let_def split_beta split: if_splits
      dest!: queueInLoop_net intro!: R_frame intro: net_frame_trans do_call_net)

lemma buffer_rest_advances: "advances R (buffer_rest os me c rest remaining)"
  unfolding advances_def
proof (intro allI impI)
  fix s s' :: "'a net_scheme" assume run: "buffer_rest os me c rest remaining s = Inr s'"
  then obtain cn where cn: "conns s c = Some cn" by (auto simp: buffer_rest_def rbind_eq_Inr)
  let ?old = "readableBytes (outputBuffer cn)"
  show "R s s'"
  proof (cases "highWaterMark cn \<le> ?old + remaining \<and> ?old < highWaterMark cn \<and> hasHighWaterCb cn")
    case False
    with run cn have "s' = s" by (auto simp: buffer_rest_def Let_def)
    then show ?thesis by simp
  next
    case True
    with run cn obtain s1 b s2 ch where
      s1: "queueInLoop os me (conn_loop cn) (HighWaterMarkFn c (unat (?old + remaining))) s = Inr s1" and
      b: "buf_append (take (unat remaining) rest) (outputBuffer cn) = Inr b" and
      s2: "upd_conn c (\<lambda>cn. cn\<lparr>outputBuffer := b\<rparr>) s1 = Inr s2" and
      s3: "(if \<not> isWriting ch then set_events os me EnableWriting (conn_channel cn) s2 else Inr s2) = Inr s'"
      unfolding buffer_rest_def Let_def by (auto simp: rbind_eq_Inr)
    have "conns s1 c = Some cn" using queueInLoop_net [OF s1] cn by (simp add: net_frame_def net_view_def)
    then have "R s1 s2" using s2 buf_append_wf [OF _ b] by (auto simp: upd_conn_eq_Inr intro!: R_put)
    moreover have "R s s1" by (rule R_frame [OF queueInLoop_net [OF s1]])
    moreover have "R s2 s'" using s3 by (auto split: if_splits intro: R_frame set_events_net)
    ultimately show ?thesis by (blast intro: R_trans)
  qed
qed

lemma sendInLoop_advances: "advances R (sendInLoop os me c msg)"
  unfolding advances_def sendInLoop_def
  using advancesD [OF buffer_rest_advances] direct_write_advances
  by (fastforce simp: rbind_eq_Inr split: if_splits intro: R_trans)

lemma send_advances: "advances R (send os me c a)"
  unfolding send_def by (intro advances_rules sendInLoop_advances)

lemma shutdownInLoop_advances: "advances R (shutdownInLoop os me c)"
  unfolding shutdownInLoop_def by (intro advances_rules)

lemma shutdown_advances: "advances R (shutdown os me c)"
proof -
  have "R s t" if "conns s c = Some cn" "conn_state cn = kConnected" "setState kDisconnecting c s = Inr t" for s t cn
    using that by (auto simp: setState_def intro!: R_put)
  then show ?thesis
    unfolding advances_def shutdown_def
    by (fastforce simp: rbind_eq_Inr split: if_splits dest: queueInLoop_net intro: R_trans R_frame)
qed

lemma run_call_advances: "advances R (run_call os me uc)"
proof (cases uc)
  case (UcSend c d)
  have "R s s'" if "send os me c a (s\<lparr>strings := x, next_string := n\<rparr>) = Inr s'" for s s' a x n
    using R_strings advancesD [OF send_advances that] by (rule R_trans)
  with UcSend show ?thesis by (auto simp: advances_def)
next
  case (UcShutdown c)
  then show ?thesis using shutdown_advances by (simp add: advances_def)
next
  case (UcRetrieve c n)
  then show ?thesis by (auto simp: advances_def upd_conn_eq_Inr retrieve_wf intro!: R_put)
next
  case (UcRetrieveAll c)
  have "buf_wf b \<Longrightarrow> retrieveAllAsString b = Inr (d, b') \<Longrightarrow> buf_wf b'" for b d b'
    using retrieveAllAsString_ok [of b] retrieveAll_wf [of b] by simp
  with UcRetrieveAll show ?thesis by (auto simp: advances_def rbind_eq_Inr upd_conn_eq_Inr intro!: R_put)
qed

lemma run_calls_advances: "advances R (run_calls os me calls)"
proof -
  have "R s t" if "foldr_res (run_call os me) calls s = Inr t" for s t
    by (rule foldr_res_inv [OF that, where P = "R s"])
      (auto intro: R_trans advancesD [OF run_call_advances])
  moreover have "R t (t\<lparr>strings := x\<rparr>)" for t x using R_strings [where s = t and x = x and n = "next_string t"] by simp
  ultimately show ?thesis
    unfolding advances_def run_calls_def rbind_eq_Inr by (blast intro: R_trans)
qed

lemma call_cb_advances:
  "advances R (call_connectionCb os me uc c)" "advances R (call_messageCb os me uc c t)"
  "(\<And>c. advances R (closeCb c)) \<Longrightarrow> advances R (call_closeCb closeCb c)"
  unfolding call_connectionCb_def call_messageCb_def call_closeCb_def
  by (intro advances_rules run_calls_advances; simp)+

lemma handleClose_advances: "(\<And>c. advances R (closeCb c)) \<Longrightarrow> advances R (handleClose os me uc closeCb c)"
  unfolding handleClose_def by (intro advances_rules setState_disconnected call_cb_advances)

lemma handleError_advances: "advances R (handleError os me c)"
  unfolding handleError_def by (intro advances_rules)

text \<open>Replacing a buffer of the connection that was just read.\<close>

lemma R_upd_buffer:
  assumes "upd_conn c f s' = Inr t" "conns s' c = Some cn" "conn_le cn (f cn)" shows "R s' t"
  using assms by (auto simp: upd_conn_eq_Inr intro: R_put)

lemma handleRead_advances:
  assumes "\<And>c. advances R (closeCb c)" shows "advances R (handleRead os me uc closeCb c t)"
  unfolding advances_def
proof (intro allI impI)
  fix s s' :: "'a net_scheme" assume run: "handleRead os me uc closeCb c t s = Inr s'"
  then obtain cn where cn: "conns s c = Some cn" by (auto simp: handleRead_def rbind_eq_Inr)
  let ?k = "Readv (conn_fd cn) (readv_lens (inputBuffer cn))"
  define s1 where "s1 = snd (do_call os me ?k s)"
  have call: "do_call os me ?k s = (os (io_trace s) ?k, s1)" by (simp add: s1_def prod_eq_iff)
  from run cn have "rbind (readFd (readv_answer (os (io_trace s) ?k)) (inputBuffer cn)) (\<lambda>(n, b, e).
      rbind (upd_conn c (\<lambda>cn. cn\<lparr>inputBuffer := b\<rparr>) s1) (\<lambda>s2.
      if 0 < n then call_messageCb os me uc c t s2 else if n = 0 then handleClose os me uc closeCb c s2
      else handleError os me c s2)) = Inr s'"
    by (simp add: handleRead_def call)
  then obtain n b e s2 where b: "readFd (readv_answer (os (io_trace s) ?k)) (inputBuffer cn) = Inr (n, b, e)" and
    s2: "upd_conn c (\<lambda>cn. cn\<lparr>inputBuffer := b\<rparr>) s1 = Inr s2" and
    s3: "(if 0 < n then call_messageCb os me uc c t s2 else if n = 0 then handleClose os me uc closeCb c s2
        else handleError os me c s2) = Inr s'"
    unfolding rbind_eq_Inr split_paired_Ex case_prod_conv by (elim exE conjE) (rule that)
  have "R s s1" unfolding s1_def by (rule R_frame [OF do_call_net])
  moreover have "R s1 s2" by (rule R_upd_buffer [OF s2, of cn]) (use cn readFd_wf [OF _ b] in \<open>simp_all add: s1_def\<close>)
  moreover have "R s2 s'" using s3 advancesD [OF call_cb_advances(2)] advancesD [OF handleClose_advances [OF assms]]
      advancesD [OF handleError_advances] by (auto split: if_splits)
  ultimately show "R s s'" by (blast intro: R_trans)
qed

lemma handleWrite_advances: "advances R (handleWrite os me c)"
  unfolding advances_def
proof (intro allI impI)
  fix s s' :: "'a net_scheme" assume run: "handleWrite os me c s = Inr s'"
  then obtain cn ch where cn: "conns s c = Some cn" and ch: "conn_chan s cn = Inr ch"
    by (auto simp: handleWrite_def rbind_eq_Inr)
  show "R s s'"
  proof (cases "isWriting ch")
    case False
    with run cn ch have "s' = s" by (simp add: handleWrite_def)
    then show ?thesis by simp
  next
    case True
    with run cn ch obtain d where d: "writeFd_data (outputBuffer cn) = Inr d"
      by (auto simp: handleWrite_def rbind_eq_Inr)
    define s1 where "s1 = snd (do_call os me (WriteFd (conn_fd cn) d) s)"
    have r1: "R s s1" unfolding s1_def by (rule R_frame [OF do_call_net])
    from run True cn ch d obtain n e where
      n: "writeFd (write_answer (os (io_trace s) (WriteFd (conn_fd cn) d))) (outputBuffer cn) = Inr (n, e)"
      by (auto simp: handleWrite_def rbind_eq_Inr split_beta Let_def)
    let ?b = "retrieve (of_int n) (outputBuffer cn)"
    define tail where "tail = (\<lambda>s. if readableBytes ?b = 0
         then rbind (set_events os me DisableWriting (conn_channel cn) s) (\<lambda>s.
           rbind (if hasWriteCompleteCb cn
                  then queueInLoop os me (conn_loop cn) (WriteCallbackMember c) s else Inr s) (\<lambda>s.
           rbind (get_conn s c) (\<lambda>cn.
           if conn_state cn = kDisconnecting then shutdownInLoop os me c s else Inr s)))
         else Inr s :: 'a net_scheme res)"
    have tail: "advances R tail" unfolding tail_def
      by (intro advances_rules shutdownInLoop_advances)
    have eq: "(if 0 < n then rbind (upd_conn c (\<lambda>cn. cn\<lparr>outputBuffer := ?b\<rparr>) s1) tail else Inr s1) = Inr s'"
      using run True cn ch d n by (simp add: handleWrite_def split_beta Let_def s1_def tail_def cong: if_cong)
    show ?thesis
    proof (cases "0 < n")
      case False
      with eq r1 show ?thesis by simp
    next
      case True
      with eq obtain s2 where s2: "upd_conn c (\<lambda>cn. cn\<lparr>outputBuffer := ?b\<rparr>) s1 = Inr s2" "tail s2 = Inr s'"
        by (auto simp: rbind_eq_Inr)
      have "R s1 s2" by (rule R_upd_buffer [OF s2(1), of cn]) (use cn in \<open>simp_all add: s1_def retrieve_wf\<close>)
      with r1 advancesD [OF tail s2(2)] show ?thesis by (blast intro: R_trans)
    qed
  qed
qed

lemma connectDestroyed_advances: "advances R (connectDestroyed os me uc c)"
  unfolding connectDestroyed_def by (intro advances_rules setState_disconnected call_cb_advances)

lemmas conn_advances = sendInLoop_advances shutdownInLoop_advances run_calls_advances connectDestroyed_advances
  handleClose_advances handleError_advances handleRead_advances handleWrite_advances

lemma loop_handleRead_advances: "advances R (loop_handleRead os me l)"
  unfolding loop_handleRead_def by (intro advances_rules)

lemma run_conn_functor_advances:
  assumes "\<And>f. advances R (rest f)" "\<And>c. f \<noteq> ConnectEstablished c"
  shows "advances R (run_conn_functor os me uc rest f)"
proof (cases f)
  case (SendInLoop c a n)
  have "advances R (run_conn_functor os me uc rest (SendInLoop c a n))"
    unfolding run_conn_functor.simps by (intro advances_rules conn_advances)
  with SendInLoop show ?thesis by simp
next
  case (WriteCallbackMember c)
  then show ?thesis by (auto simp: advances_def rbind_eq_Inr)
next
  case (WriteCallbackFn c)
  then show ?thesis using run_calls_advances by (simp add: advances_def)
next
  case (HighWaterMarkFn c n)
  then show ?thesis using run_calls_advances by (simp add: advances_def)
next
  case (ShutdownInLoop c)
  then show ?thesis using shutdownInLoop_advances by (simp add: advances_def)
next
  case (ConnectDestroyed c)
  then show ?thesis using connectDestroyed_advances by (simp add: advances_def)
qed (use assms in \<open>auto simp: advances_def\<close>)

lemma run_conn_cb_advances:
  assumes "\<And>c. advances R (closeCb c)" "\<And>t. advances R (accept t)"
  shows "advances R (run_conn_cb os me uc closeCb accept cb t)"
proof (cases cb)
  case (LoopHandleRead l)
  then show ?thesis using loop_handleRead_advances by (simp add: advances_def)
next
  case AcceptorHandleRead
  then show ?thesis using assms(2) by (simp add: advances_def)
next
  case (ConnHandleRead c)
  then show ?thesis using handleRead_advances [OF assms(1)] by (simp add: advances_def)
next
  case (ConnHandleClose c)
  then show ?thesis using handleClose_advances [OF assms(1)] by (simp add: advances_def)
next
  case (ConnHandleWrite c)
  then show ?thesis using handleWrite_advances by (simp add: advances_def)
next
  case (ConnHandleError c)
  then show ?thesis using handleError_advances by (simp add: advances_def)
qed

end

subsection \<open>The state only advances\<close>

lemma conns_le_same: "conns s' = conns s \<Longrightarrow> conns_le s s'"
  by (simp add: conns_le_def)

lemma conns_le_trans: "conns_le s t \<Longrightarrow> conns_le t u \<Longrightarrow> conns_le s u"
  unfolding conns_le_def by (meson conn_le_trans)

interpretation conns_le: net_relation conns_le
proof unfold_locales
  show "conns_le s u" if "conns_le s t" "conns_le t u" for s t u :: "'a net_scheme"
    using that by (rule conns_le_trans)
qed (simp_all add: net_frame_def net_view_def conns_le_def)

text \<open>Nor does anything touch what the state is extended with.\<close>

interpretation same_more: net_relation "\<lambda>s s'. net.more s' = net.more s"
  by unfold_locales (simp_all add: net_frame_def put_conn_def)

subsection \<open>A stream of sends and writable events\<close>

text \<open>What the flow of output relies on: the channel asks for writability exactly while bytes wait.\<close>

definition flow_inv :: "os \<Rightarrow> 'a net_scheme \<Rightarrow> conn_id \<Rightarrow> tcpconn \<Rightarrow> bool" where
  "flow_inv os s c cn \<longleftrightarrow> conn_ok os s c cn \<and> (isWriting (chan_at s cn) \<longleftrightarrow> contents (outputBuffer cn) \<noteq> [])"

lemma append_fits_0 [simp]: "append_fits 0 b"
  by (simp add: append_fits_def)

text \<open>A send that returns had room for what it kept.\<close>

lemma sendInLoop_returns_fits:
  assumes ok: "conn_ok os s c cn" and doc: "write_documented os" and len: "length msg < 2 ^ 63"
    and st: "conn_state cn \<noteq> kDisconnected" and ret: "sendInLoop os me c msg s = Inr s'"
  shows "append_fits (length (kept_for_later os s cn msg)) (outputBuffer cn)"
proof (cases "kept_for_later os s cn msg = []")
  case False
  define n where "n = sent_now os s cn msg"
  define remaining :: size_t where "remaining = of_nat (length msg - n)"
  from False have kept: "\<not> peer_gone os s cn msg" "n < length msg" "crosses_mark cn remaining"
      "kept_for_later os s cn msg = drop n msg"
    by (auto simp: kept_for_later_def n_def remaining_def Let_def split: if_splits)
  have rem: "unat remaining = length (drop n msg)" using len by (simp add: remaining_def unat_size_t_of_nat)
  then have pos: "0 < remaining" using kept(2) by (simp add: word_less_nat_alt)
  obtain s1 where s1: "direct_write os me c msg s = Inr (n, remaining, peer_gone os s cn msg, s1)"
      "conn_ok os s1 c cn"
    using direct_write_ok [OF ok doc len, of me] by (auto simp: n_def remaining_def)
  have "buffer_rest os me c (drop n msg) remaining s1 = Inr s'"
    using ret st kept(1) pos s1(1) conn_okD(2) [OF ok] by (simp add: sendInLoop_def)
  then obtain b where "buf_append (drop n msg) (outputBuffer cn) = Inr b"
    using kept(3) conn_okD(2) [OF s1(2)] rem by (auto simp: buffer_rest_def crosses_mark_def Let_def rbind_eq_Inr)
  with buf_append_fits [OF conn_okD(5) [OF ok], of "drop n msg"] len kept(4) show ?thesis by auto
qed simp

datatype stream_op = OpSend "byte list" | OpWritable

fun run_stream_op :: "os \<Rightarrow> tid \<Rightarrow> conn_id \<Rightarrow> stream_op \<Rightarrow> 'a net_scheme \<Rightarrow> 'a net_scheme res" where
  "run_stream_op os me c (OpSend d) = sendInLoop os me c d"
| "run_stream_op os me c OpWritable = handleWrite os me c"

fun op_bytes :: "stream_op \<Rightarrow> byte list" where
  "op_bytes (OpSend d) = d"
| "op_bytes OpWritable = []"

lemma kept_subseq: "subseq (take (sent_now os s cn msg) msg @ kept_for_later os s cn msg) msg"
proof (cases "kept_for_later os s cn msg = []")
  case True
  then show ?thesis using list_emb_prefix by (metis append_take_drop_id append_Nil2 subseq_append' subseq_order.order_refl)
next
  case False
  then show ?thesis by (auto simp: kept_for_later_def Let_def split: if_splits)
qed

lemma sent_now_waiting: "contents (outputBuffer cn) \<noteq> [] \<Longrightarrow> sent_now os s cn msg = 0"
  by (simp add: sent_now_def writes_directly_def)

text \<open>One operation: what it adds to the stream is a subsequence of what it was given.\<close>

lemma stream_op_ok:
  assumes inv: "flow_inv os s c cn" and doc: "write_documented os" and st: "conn_state cn \<noteq> kDisconnected"
    and len: "length (op_bytes op) < 2 ^ 63" and run: "run_stream_op os me c op s = Inr s'"
  shows "\<exists>b acc. flow_inv os s' c (cn\<lparr>outputBuffer := b\<rparr>) \<and> subseq acc (op_bytes op) \<and>
    written (conn_fd cn) (io_trace s') @ contents b =
      written (conn_fd cn) (io_trace s) @ contents (outputBuffer cn) @ acc"
proof -
  have ok: "conn_ok os s c cn" and wr: "isWriting (chan_at s cn) \<longleftrightarrow> contents (outputBuffer cn) \<noteq> []"
    using inv by (simp_all add: flow_inv_def)
  show ?thesis
  proof (cases op)
    case (OpSend d)
    then have d: "length d < 2 ^ 63" "sendInLoop os me c d s = Inr s'" using len run by simp_all
    let ?acc = "take (sent_now os s cn d) d @ kept_for_later os s cn d"
    from sendInLoop_ok [OF ok doc d(1) st sendInLoop_returns_fits [OF ok doc d(1) st d(2)], of me] d(2)
    obtain b where b: "conn_ok os s' c (cn\<lparr>outputBuffer := b\<rparr>)"
      "written (conn_fd cn) (io_trace s') = written (conn_fd cn) (io_trace s) @ take (sent_now os s cn d) d"
      "contents b = contents (outputBuffer cn) @ kept_for_later os s cn d"
      "isWriting (chan_at s' cn) = (isWriting (chan_at s cn) \<or> kept_for_later os s cn d \<noteq> [])" by auto
    have "flow_inv os s' c (cn\<lparr>outputBuffer := b\<rparr>)"
      using b wr by (auto simp: flow_inv_def chan_at_def)
    moreover have "written (conn_fd cn) (io_trace s') @ contents b =
        written (conn_fd cn) (io_trace s) @ contents (outputBuffer cn) @ ?acc"
      using b sent_now_waiting [of cn os s d] by (cases "contents (outputBuffer cn) = []") simp_all
    moreover have "subseq ?acc (op_bytes op)" using kept_subseq OpSend by simp
    ultimately show ?thesis by blast
  next
    case OpWritable
    then have hw: "handleWrite os me c s = Inr s'" using run by simp
    show ?thesis
    proof (cases "isWriting (chan_at s cn)")
      case False
      then have "s' = s" using hw conn_okD(2) [OF ok] conn_ok_chan(3) [OF ok] by (simp add: handleWrite_def)
      then show ?thesis using inv by (intro exI [of _ "outputBuffer cn"] exI [of _ "[]"]) simp
    next
      case True
      then have ne: "contents (outputBuffer cn) \<noteq> []" using wr by simp
      have le: "drained os s cn \<le> length (contents (outputBuffer cn))"
        using doc by (simp add: drained_def send_answer_def write_documented_def nat_le_iff)
      have "\<exists>b. conn_ok os s' c (cn\<lparr>outputBuffer := b\<rparr>) \<and> (isWriting (chan_at s' cn) \<longleftrightarrow> contents b \<noteq> []) \<and>
          written (conn_fd cn) (io_trace s') @ contents b =
            written (conn_fd cn) (io_trace s) @ contents (outputBuffer cn)"
        using handleWrite_partial [OF ok doc True, of me] handleWrite_drains [OF ok True ne, of me] le hw
        by (cases "drained os s cn = length (contents (outputBuffer cn))") fastforce+
      then obtain b where "conn_ok os s' c (cn\<lparr>outputBuffer := b\<rparr>)"
          "isWriting (chan_at s' cn) \<longleftrightarrow> contents b \<noteq> []" "written (conn_fd cn) (io_trace s') @ contents b =
            written (conn_fd cn) (io_trace s) @ contents (outputBuffer cn)" by blast
      then show ?thesis
        by (intro exI [of _ b] exI [of _ "[]"]) (simp add: flow_inv_def chan_at_def)
    qed
  qed
qed

lemma stream_ops_ok:
  assumes "flow_inv os s c cn" "write_documented os" "conn_state cn \<noteq> kDisconnected"
    "\<forall>op \<in> set ops. length (op_bytes op) < 2 ^ 63" "foldr_res (run_stream_op os me c) ops s = Inr s'"
  shows "\<exists>b acc. flow_inv os s' c (cn\<lparr>outputBuffer := b\<rparr>) \<and> subseq acc (concat (map op_bytes ops)) \<and>
    written (conn_fd cn) (io_trace s') @ contents b =
      written (conn_fd cn) (io_trace s) @ contents (outputBuffer cn) @ acc"
  using assms
proof (induction ops arbitrary: s cn)
  case Nil
  then show ?case by (intro exI [of _ "outputBuffer cn"] exI [of _ "[]"]) simp
next
  case (Cons op ops)
  then obtain s1 where s1: "run_stream_op os me c op s = Inr s1" "foldr_res (run_stream_op os me c) ops s1 = Inr s'"
    by (auto simp: rbind_eq_Inr)
  from stream_op_ok [OF Cons.prems(1-3) _ s1(1)] Cons.prems(4) obtain b acc where
    b: "flow_inv os s1 c (cn\<lparr>outputBuffer := b\<rparr>)" "subseq acc (op_bytes op)"
      "written (conn_fd cn) (io_trace s1) @ contents b =
        written (conn_fd cn) (io_trace s) @ contents (outputBuffer cn) @ acc" by auto
  from Cons.IH [OF b(1) Cons.prems(2) _ _ s1(2)] Cons.prems(3,4) obtain b' acc' where
    b': "flow_inv os s' c (cn\<lparr>outputBuffer := b'\<rparr>)" "subseq acc' (concat (map op_bytes ops))"
      "written (conn_fd cn) (io_trace s') @ contents b' = written (conn_fd cn) (io_trace s1) @ contents b @ acc'"
    by auto
  have "subseq (acc @ acc') (op_bytes op @ concat (map op_bytes ops))"
    using b(2) b'(2) by (rule list_emb_append_mono)
  with b'(1,3) b(3) show ?case by (intro exI [of _ b'] exI [of _ "acc @ acc'"]) (metis append.assoc concat.simps(2) list.simps(9))
qed

subsection \<open>Examples\<close>

text \<open>A kernel that takes at most \<open>k\<close> bytes per write, and a loop with one registered connection.\<close>

definition narrow_os :: "nat \<Rightarrow> os" where
  "narrow_os k tr call = (case call of WriteFd fd d \<Rightarrow> ret_val (int (min k (length d))) | _ \<Rightarrow> plain_os tr call)"

definition example_conn :: "bool \<Rightarrow> conn_state \<Rightarrow> buffer \<Rightarrow> tcpconn" where
  "example_conn hw st out = \<lparr>conn_loop = 0, conn_name = ''srv#1'', conn_state = st, conn_fd = 7, conn_channel = 1,
     localAddr = mkInetAddress (\<lambda>_. 0) 80 '''', peerAddr = mkInetAddress (\<lambda>_. 0) 81 '''',
     hasConnectionCb = True, hasMessageCb = True, hasWriteCompleteCb = False, hasHighWaterCb = hw,
     hasCloseCb = True, highWaterMark = 1, inputBuffer = mkBuffer kInitialSize, outputBuffer = out\<rparr>"

definition example_chan :: "32 word \<Rightarrow> channel" where
  "example_chan ev = (mkChannel 0 7)\<lparr>ch_events := ev, ch_index := kAdded\<rparr>"

definition example_loop :: eventloop where
  "example_loop = (idle_loop 1)\<lparr>loop_poller := Some \<lparr>epollfd = 3, channels = [7 \<mapsto> 1], evlist_size = 16\<rparr>\<rparr>"

definition example_net :: "32 word \<Rightarrow> tcpconn \<Rightarrow> net" where
  "example_net ev cn = \<lparr>io_trace = [(1, EpollCtl 3 CtlAdd 7 ev 1, ret_val 0)], chans = [1 \<mapsto> example_chan ev],
     loops = [0 \<mapsto> example_loop], t_loopInthisThread = [1 \<mapsto> 0], conns = [0 \<mapsto> cn], strings = (\<lambda>_. None),
     next_string = 0\<rparr>"

lemma narrow_os_ctl: "epoll_ctl_documented (narrow_os k)" and narrow_os_write: "write_documented (narrow_os k)"
  by (simp_all add: epoll_ctl_documented_def write_documented_def narrow_os_def plain_os_def ret_val_def)

lemma mkBuffer_initial_wf [simp]: "buf_wf (mkBuffer kInitialSize)"
  by (rule mkBuffer_wf) (simp add: kInitialSize_def max_size_def)

lemma example_net_ok:
  assumes "buf_wf out"
  shows "conn_ok (narrow_os k) (example_net ev (example_conn hw st out)) 0 (example_conn hw st out)"
proof -
  let ?s = "example_net ev (example_conn hw st out)"
  have "poller_inv {} \<lparr>epollfd = 3, channels = [7 \<mapsto> 1], evlist_size = 16\<rparr> 0 ?s"
    by (simp add: poller_inv_def distinct_fds_def kernel_view_def example_net_def interest_of_def ret_val_def
        chan_reg_def example_chan_def mkChannel_def)
  then have "reg_inv (narrow_os k) 0 ?s"
    using narrow_os_ctl [of k] by (simp add: reg_inv_def reg_inv_except_def example_net_def example_loop_def)
  then show ?thesis using assms
    by (simp add: conn_ok_def example_conn_def example_net_def example_chan_def mkChannel_def example_loop_def
        idle_loop_def)
qed

lemma example_fields [simp]:
  "conn_fd (example_conn hw st out) = 7" "outputBuffer (example_conn hw st out) = out"
  "conn_state (example_conn hw st out) = st" "hasConnectionCb (example_conn hw st out)"
  "hasMessageCb (example_conn hw st out)"
  "hasHighWaterCb (example_conn hw st out) = hw" "chan_at (example_net ev cn) (example_conn hw st out) = example_chan ev"
  "highWaterMark (example_conn hw st out) = 1"
  "written 7 (io_trace (example_net ev cn)) = []" "fins 7 (io_trace (example_net ev cn)) = 0"
  "ch_index (example_chan ev) = kAdded" "conns (example_net ev cn) = [0 \<mapsto> cn]"
  by (simp_all add: example_conn_def chan_at_def example_net_def written_def fins_def example_chan_def)

lemma example_chan_writing [simp]:
  "\<not> isWriting (example_chan kReadEvent)" "isWriting (example_chan kWriteEvent)"
  by (simp_all add: isWriting_def example_chan_def channel_masks epoll_bits)

lemma initial_fits: "n \<le> 8 \<Longrightarrow> append_fits n (mkBuffer kInitialSize)"
  using mkBuffer_numbers [of kInitialSize] by (simp add: append_fits_def kInitialSize_def max_size_def)

text \<open>A buffer with some bytes in it.\<close>

lemma small_buffer:
  assumes "length d < 8"
  shows "\<exists>b. buf_append d (mkBuffer kInitialSize) = Inr b \<and> buf_wf b \<and> contents b = d"
proof -
  let ?b = "mkBuffer kInitialSize"
  have "append_fits (length d) ?b" using assms by (intro initial_fits) simp
  with buf_append_fits [of ?b d] assms obtain b where b: "buf_append d ?b = Inr b" by auto
  with buf_append_ok [OF mkBuffer_initial_wf _ b] assms show ?thesis by auto
qed

subsection \<open>Properties\<close>

text \<open>
  C26: \<open>sendInLoop\<close> on a connection that is not disconnected, every outcome in one equation. The
  message is split into what the kernel takes at once (nothing, when bytes are waiting already),
  what goes to the output buffer behind the waiting bytes, and the rest, which is lost: after a
  partial write the remainder is kept only when the high-water test holds and the peer has not
  gone. The channel asks for writability when something was kept.
\<close>

theorem send_accounts_for_bytes:
  assumes "conn_ok os s c cn" "write_documented os" "length msg < 2 ^ 63" "conn_state cn \<noteq> kDisconnected"
    "append_fits (length (kept_for_later os s cn msg)) (outputBuffer cn)"
  shows "\<exists>s' b. sendInLoop os me c msg s = Inr s' \<and> conn_ok os s' c (cn\<lparr>outputBuffer := b\<rparr>) \<and>
    written (conn_fd cn) (io_trace s') = written (conn_fd cn) (io_trace s) @ take (sent_now os s cn msg) msg \<and>
    contents b = contents (outputBuffer cn) @ kept_for_later os s cn msg \<and>
    isWriting (chan_at s' cn) = (isWriting (chan_at s cn) \<or> kept_for_later os s cn msg \<noteq> [])"
  using assms by (rule sendInLoop_ok)

theorem send_accounts_for_bytes_witness:
  "\<exists>s' b. sendInLoop (narrow_os 2) 1 0 [1, 2, 3]
      (example_net kReadEvent (example_conn True kConnected (mkBuffer kInitialSize))) = Inr s' \<and>
    conn_ok (narrow_os 2) s' 0 (example_conn True kConnected b) \<and>
    written 7 (io_trace s') = [1, 2] \<and> contents b = [3]"
proof -
  let ?cn = "example_conn True kConnected (mkBuffer kInitialSize)"
  let ?s = "example_net kReadEvent ?cn"
  have ok: "conn_ok (narrow_os 2) ?s 0 ?cn" by (rule example_net_ok) simp
  have n: "sent_now (narrow_os 2) ?s ?cn [1, 2, 3] = 2"
    by (simp add: sent_now_def writes_directly_def send_answer_def narrow_os_def ret_val_def)
  have g: "\<not> peer_gone (narrow_os 2) ?s ?cn [1, 2, 3]"
    by (simp add: peer_gone_def send_answer_def narrow_os_def ret_val_def)
  have r: "readableBytes (mkBuffer kInitialSize) = 0" using readable_zero [OF mkBuffer_initial_wf] by simp
  have k: "kept_for_later (narrow_os 2) ?s ?cn [1, 2, 3] = [3]"
    by (simp add: kept_for_later_def n g crosses_mark_def r Let_def)
  have f: "append_fits 1 (mkBuffer kInitialSize)"
    by (rule initial_fits) simp
  have ex: "?cn\<lparr>outputBuffer := b\<rparr> = example_conn True kConnected b" for b by (simp add: example_conn_def)
  have len: "length [1, 2, 3 :: byte] < 2 ^ 63" and st: "conn_state ?cn \<noteq> kDisconnected"
    and fits: "append_fits (length (kept_for_later (narrow_os 2) ?s ?cn [1, 2, 3])) (outputBuffer ?cn)"
    using f by (simp_all add: k)
  from send_accounts_for_bytes [OF ok narrow_os_write len st fits, of 1]
  show ?thesis unfolding ex by (simp add: n k) blast
qed

text \<open>
  C34: without a high-water callback (a connection of \<open>TcpServer\<close> never has one) the rest of a
  message after a partial or refused write is dropped: \<open>sendInLoop\<close> returns, the output buffer is
  unchanged, the channel does not ask for writability.
\<close>

theorem send_drops_rest:
  assumes "conn_ok os s c cn" "write_documented os" "length msg < 2 ^ 63" "conn_state cn \<noteq> kDisconnected"
    "\<not> hasHighWaterCb cn"
  shows "\<exists>s'. sendInLoop os me c msg s = Inr s' \<and> conn_ok os s' c cn \<and>
    written (conn_fd cn) (io_trace s') = written (conn_fd cn) (io_trace s) @ take (sent_now os s cn msg) msg \<and>
    isWriting (chan_at s' cn) = isWriting (chan_at s cn)"
proof -
  have k: "kept_for_later os s cn msg = []"
    using assms(5) by (simp add: kept_for_later_def crosses_mark_def Let_def)
  obtain s1 where s1: "direct_write os me c msg s = Inr (sent_now os s cn msg,
      of_nat (length msg - sent_now os s cn msg), peer_gone os s cn msg, s1)" "conn_ok os s1 c cn"
      "chans s1 = chans s"
      "written (conn_fd cn) (io_trace s1) = written (conn_fd cn) (io_trace s) @ take (sent_now os s cn msg) msg"
    using direct_write_ok [OF assms(1-3), of me] by blast
  have "buffer_rest os me c rest r s1 = Inr s1" for rest r
    using assms(5) conn_okD(2) [OF s1(2)] by (simp add: buffer_rest_def Let_def)
  then have "sendInLoop os me c msg s = Inr s1"
    using s1(1) assms(4) conn_okD(2) [OF assms(1)] by (simp add: sendInLoop_def)
  with s1(2-4) show ?thesis by (simp add: chan_at_def)
qed

theorem send_drops_rest_witness:
  "\<exists>s'. sendInLoop (narrow_os 2) 1 0 [1, 2, 3]
      (example_net kReadEvent (example_conn False kConnected (mkBuffer kInitialSize))) = Inr s' \<and>
    conns s' 0 = Some (example_conn False kConnected (mkBuffer kInitialSize)) \<and>
    written 7 (io_trace s') = [1, 2]"
proof -
  let ?cn = "example_conn False kConnected (mkBuffer kInitialSize)"
  let ?s = "example_net kReadEvent ?cn"
  have ok: "conn_ok (narrow_os 2) ?s 0 ?cn" by (rule example_net_ok) simp
  have n: "sent_now (narrow_os 2) ?s ?cn [1, 2, 3] = 2"
    by (simp add: sent_now_def writes_directly_def send_answer_def narrow_os_def ret_val_def)
  have len: "length [1, 2, 3 :: byte] < 2 ^ 63" and st: "conn_state ?cn \<noteq> kDisconnected" and hw: "\<not> hasHighWaterCb ?cn"
    by simp_all
  from send_drops_rest [OF ok narrow_os_write len st hw, of 1]
  show ?thesis by (auto simp: n dest: conn_okD(1))
qed

text \<open>
  C22: the bytes a connection hands to the kernel. Over any sequence of \<open>sendInLoop\<close> calls and
  writable events that returns, what was written to the socket followed by what waits in the
  output buffer is what was there before followed by a subsequence of the bytes sent: nothing is
  invented, duplicated or reordered. And the channel asks for writability exactly while bytes
  wait.
\<close>

theorem output_stream:
  assumes "flow_inv os s c cn" "write_documented os" "conn_state cn \<noteq> kDisconnected"
    "\<forall>op \<in> set ops. length (op_bytes op) < 2 ^ 63" "foldr_res (run_stream_op os me c) ops s = Inr s'"
  shows "\<exists>b acc. flow_inv os s' c (cn\<lparr>outputBuffer := b\<rparr>) \<and> subseq acc (concat (map op_bytes ops)) \<and>
    written (conn_fd cn) (io_trace s') @ contents b =
      written (conn_fd cn) (io_trace s) @ contents (outputBuffer cn) @ acc"
  using assms by (rule stream_ops_ok)

theorem output_stream_witness:
  "\<exists>s' b acc. foldr_res (run_stream_op (narrow_os 2) 1 0) [OpSend [1, 2, 3]]
      (example_net kReadEvent (example_conn False kConnected (mkBuffer kInitialSize))) = Inr s' \<and>
    subseq acc [1, 2, 3] \<and> written 7 (io_trace s') @ contents b = acc"
proof -
  let ?cn = "example_conn False kConnected (mkBuffer kInitialSize)"
  let ?s = "example_net kReadEvent ?cn" and ?ops = "[OpSend [1, 2, 3]]"
  have ok: "conn_ok (narrow_os 2) ?s 0 ?cn" by (rule example_net_ok) simp
  then have fl: "flow_inv (narrow_os 2) ?s 0 ?cn" by (simp add: flow_inv_def)
  have "append_fits (length (kept_for_later (narrow_os 2) ?s ?cn [1, 2, 3])) (outputBuffer ?cn)"
    by (simp add: kept_for_later_def crosses_mark_def Let_def)
  then obtain s' where s': "foldr_res (run_stream_op (narrow_os 2) 1 0) ?ops ?s = Inr s'"
    using sendInLoop_ok [OF ok narrow_os_write, of "[1, 2, 3]" 1] by auto
  have "\<forall>op \<in> set ?ops. length (op_bytes op) < 2 ^ 63" "conn_state ?cn \<noteq> kDisconnected" by simp_all
  from output_stream [OF fl narrow_os_write this(2,1) s'] s' show ?thesis by auto
qed

text \<open>
  C24: a writable event. The bytes accepted by the kernel leave the output buffer from the front;
  the channel goes on asking for writability exactly while bytes are left; and when the last
  byte has gone on a connection that is shutting down, the writing side of the socket is shut
  down, once, and not before.
\<close>

theorem write_event_then_shutdown:
  assumes "conn_ok os s c cn" "write_documented os" "isWriting (chan_at s cn)" "contents (outputBuffer cn) \<noteq> []"
  shows "\<exists>s' b. handleWrite os me c s = Inr s' \<and> conn_ok os s' c (cn\<lparr>outputBuffer := b\<rparr>) \<and>
    contents b = drop (drained os s cn) (contents (outputBuffer cn)) \<and>
    written (conn_fd cn) (io_trace s') @ contents b =
      written (conn_fd cn) (io_trace s) @ contents (outputBuffer cn) \<and>
    isWriting (chan_at s' cn) = (contents b \<noteq> []) \<and>
    fins (conn_fd cn) (io_trace s') = fins (conn_fd cn) (io_trace s) +
      (if contents b = [] \<and> conn_state cn = kDisconnecting then 1 else 0)"
proof -
  have "drained os s cn \<le> length (contents (outputBuffer cn))"
    using assms(2) by (simp add: drained_def send_answer_def write_documented_def nat_le_iff)
  then consider "drained os s cn < length (contents (outputBuffer cn))"
    | "drained os s cn = length (contents (outputBuffer cn))" by linarith
  then show ?thesis
  proof cases
    case 1
    from handleWrite_partial [OF assms(1-3) 1, of me] obtain s' b where
      "handleWrite os me c s = Inr s'" "conn_ok os s' c (cn\<lparr>outputBuffer := b\<rparr>)"
      "contents b = drop (drained os s cn) (contents (outputBuffer cn))" "isWriting (chan_at s' cn)"
      "written (conn_fd cn) (io_trace s') =
        written (conn_fd cn) (io_trace s) @ take (drained os s cn) (contents (outputBuffer cn))"
      "fins (conn_fd cn) (io_trace s') = fins (conn_fd cn) (io_trace s)" by blast
    with 1 show ?thesis by (intro exI [of _ s'] exI [of _ b]) simp
  next
    case 2
    with handleWrite_drains [OF assms(1,3,4) 2, of me] show ?thesis by auto
  qed
qed

theorem write_event_then_shutdown_witness:
  "\<exists>out s' b. contents out = [1, 2] \<and>
    handleWrite (narrow_os 9) 1 0 (example_net kWriteEvent (example_conn True kDisconnecting out)) = Inr s' \<and>
    written 7 (io_trace s') = [1, 2] \<and> contents b = [] \<and> fins 7 (io_trace s') = 1"
proof -
  from small_buffer [of "[1, 2]"] obtain out where out: "buf_wf out" "contents out = [1, 2]" by auto
  let ?cn = "example_conn True kDisconnecting out"
  let ?s = "example_net kWriteEvent ?cn"
  have wr: "isWriting (chan_at ?s ?cn)" and ne: "contents (outputBuffer ?cn) \<noteq> []" using out by simp_all
  have d: "drained (narrow_os 9) ?s ?cn = 2" using out by (simp add: drained_def send_answer_def narrow_os_def ret_val_def)
  have ok: "conn_ok (narrow_os 9) ?s 0 ?cn" using out(1) by (rule example_net_ok)
  from write_event_then_shutdown [OF ok narrow_os_write wr ne, of 1] out d show ?thesis by fastforce
qed

text \<open>
  C27: a connection is established in its loop: when the connection callback is called, the state is
  \<open>kConnected\<close> and the kernel watches the socket for reading as well as for what it watched
  before. If the user set no connection callback the call throws instead.
\<close>

theorem connection_established:
  assumes "conn_ok os s c cn"
  shows "\<exists>s'. conn_ok os s' c (cn\<lparr>conn_state := kConnected\<rparr>) \<and>
    conn_registered s' cn = Some (ch_events (chan_at s cn) OR kReadEvent) \<and>
    connectEstablished os me uc c s = (if hasConnectionCb cn
      then run_calls os me (onConnection uc c True) s' else Inl BadFunctionCall)"
  using assms by (rule connectEstablished_ok)

definition quiet_user :: user_code where
  "quiet_user = \<lparr>onConnection = (\<lambda>_ _. []), onMessage = (\<lambda>_ _ _. []), onWriteComplete = (\<lambda>_. []),
     onHighWaterMark = (\<lambda>_ _. [])\<rparr>"

lemma run_no_calls: "run_calls os me [] s = Inr (s\<lparr>strings := (\<lambda>a. if next_string s \<le> a then None else strings s a)\<rparr>)"
  by (simp add: run_calls_def)

theorem connection_established_witness:
  "\<exists>s'. connectEstablished (narrow_os 9) 1 quiet_user 0
      (example_net kWriteEvent (example_conn False kConnecting (mkBuffer kInitialSize))) = Inr s' \<and>
    conns s' 0 = Some (example_conn False kConnected (mkBuffer kInitialSize))"
proof -
  let ?cn = "example_conn False kConnecting (mkBuffer kInitialSize)"
  let ?s = "example_net kWriteEvent ?cn"
  have ex: "?cn\<lparr>conn_state := kConnected\<rparr> = example_conn False kConnected (mkBuffer kInitialSize)"
    by (simp add: example_conn_def)
  have ok: "conn_ok (narrow_os 9) ?s 0 ?cn" by (rule example_net_ok) simp
  from connection_established [OF ok, of 1 quiet_user] show ?thesis
    unfolding ex by (auto simp: run_no_calls quiet_user_def dest: conn_okD(1))
qed

text \<open>
  Closing a registered connection. Before any user code runs, the state is
  \<open>kDisconnected\<close>, the interest mask is empty and the kernel does not watch the socket any
  more; then the connection callback runs (it sees the connection down), and then the close
  callback that the server installed.
\<close>

theorem close_then_callbacks:
  assumes "conn_ok os s c cn" "ch_index (chan_at s cn) = kAdded" "hasConnectionCb cn"
  shows "\<exists>s'. conn_ok os s' c (cn\<lparr>conn_state := kDisconnected\<rparr>) \<and> conn_registered s' cn = None \<and>
    ch_events (chan_at s' cn) = kNoneEvent \<and>
    handleClose os me uc closeCb c s =
      rbind (run_calls os me (onConnection uc c False) s') (call_closeCb closeCb c)"
  using assms by (rule handleClose_ok)

theorem close_then_callbacks_witness:
  "\<exists>s'. handleClose (narrow_os 9) 1 quiet_user (\<lambda>_. Inr) 0
      (example_net kReadEvent (example_conn False kConnected (mkBuffer kInitialSize))) = Inr s' \<and>
    conns s' 0 = Some (example_conn False kDisconnected (mkBuffer kInitialSize))"
proof -
  let ?cn = "example_conn False kConnected (mkBuffer kInitialSize)"
  let ?s = "example_net kReadEvent ?cn"
  have ex: "?cn\<lparr>conn_state := kDisconnected\<rparr> = example_conn False kDisconnected (mkBuffer kInitialSize)"
    by (simp add: example_conn_def)
  have ok: "conn_ok (narrow_os 9) ?s 0 ?cn" by (rule example_net_ok) simp
  have add: "ch_index (chan_at ?s ?cn) = kAdded" and cb: "hasConnectionCb ?cn" by simp_all
  have cc: "hasCloseCb (example_conn False kDisconnected (mkBuffer kInitialSize))" by (simp add: example_conn_def)
  from close_then_callbacks [OF ok add cb, of 1 quiet_user "\<lambda>_. Inr"] cc show ?thesis
    unfolding ex by (auto simp: run_no_calls quiet_user_def call_closeCb_def dest!: conn_okD(1))
qed

text \<open>
  Destroying a connection that was closed before calls nobody and removes its channel: the
  kernel does not watch the socket, the poller has forgotten it, everything else is as it was.
\<close>

theorem destroyed_after_close:
  assumes "conn_ok os s c cn" "conn_state cn \<noteq> kConnected"
  shows "\<exists>s'. connectDestroyed os me uc c s = Inr s' \<and> conn_ok os s' c cn \<and> net_view s' = net_view s \<and>
    conn_registered s' cn = None \<and> ch_index (chan_at s' cn) = kNew"
  using assms by (rule connectDestroyed_closed)

theorem destroyed_after_close_witness:
  "\<exists>s'. connectDestroyed (narrow_os 9) 1 quiet_user 0
      (example_net kReadEvent (example_conn False kDisconnected (mkBuffer kInitialSize))) = Inr s' \<and>
    conn_registered s' (example_conn False kDisconnected (mkBuffer kInitialSize)) = None"
proof -
  let ?cn = "example_conn False kDisconnected (mkBuffer kInitialSize)"
  have "conn_ok (narrow_os 9) (example_net kReadEvent ?cn) 0 ?cn" "conn_state ?cn \<noteq> kConnected"
    by (rule example_net_ok) simp_all
  from destroyed_after_close [OF this, of 1 quiet_user] show ?thesis by blast
qed



text \<open>
  C35: \<open>send\<close> from a thread that is not the loop's queues the address of the caller's string. When
  the callback that sent has returned, the string is gone, and the queued closure reads freed
  memory.
\<close>

theorem cross_thread_send_dangles:
  assumes "conns s c = Some cn" "conn_state cn = kConnected" "loops s (conn_loop cn) = Some lp" "threadId lp \<noteq> me"
  shows "\<exists>s' lp'. run_calls os me [UcSend c d] s = Inr s' \<and> loops s' (conn_loop cn) = Some lp' \<and>
    pendingFunctors lp' = pendingFunctors lp @ [SendInLoop c (next_string s) (length d)] \<and>
    run_conn_functor os (threadId lp) uc rest (SendInLoop c (next_string s) (length d)) s' = Inl UseAfterFree"
proof -
  let ?t = "s\<lparr>strings := (strings s)(next_string s := Some d), next_string := Suc (next_string s)\<rparr>"
  let ?f = "SendInLoop c (next_string s) (length d)"
  have t: "conns ?t c = Some cn" "loops ?t (conn_loop cn) = Some lp" using assms by simp_all
  have "send os me c (next_string s) ?t = queueInLoop os me (conn_loop cn) ?f ?t"
    using t assms(2,4) by (simp add: send_def isInLoopThread_def get_string_def)
  moreover note queueInLoop_ok [OF t(2), of os me ?f]
  ultimately show ?thesis
    by (auto simp: run_calls_def get_string_def must_wake_def isInLoopThread_def)
qed

theorem cross_thread_send_dangles_witness:
  "\<exists>s' lp'. run_calls (narrow_os 9) 2 [UcSend 0 [5]]
      (example_net kReadEvent (example_conn False kConnected (mkBuffer kInitialSize))) = Inr s' \<and>
    loops s' 0 = Some lp' \<and> pendingFunctors lp' = [SendInLoop 0 0 1] \<and>
    run_conn_functor (narrow_os 9) 1 quiet_user (\<lambda>_. Inr) (SendInLoop 0 0 1) s' = Inl UseAfterFree"
proof -
  let ?cn = "example_conn False kConnected (mkBuffer kInitialSize)"
  let ?s = "example_net kReadEvent ?cn"
  have "conns ?s 0 = Some ?cn" "conn_state ?cn = kConnected" "loops ?s (conn_loop ?cn) = Some example_loop"
    "threadId example_loop \<noteq> 2"
    by (simp_all add: example_net_def example_conn_def example_loop_def idle_loop_def)
  from cross_thread_send_dangles [OF this, of "narrow_os 9" "[5]" quiet_user "\<lambda>_. Inr"] show ?thesis
    by (simp add: example_conn_def example_net_def example_loop_def idle_loop_def)
qed

end
