(* ===== verification/Acceptor.thy ===== *)
theory Acceptor
  imports TcpConnection
begin

section \<open>Sockets and the acceptor (Socket.h, Socket.cpp, Acceptor.h, Acceptor.cpp)\<close>

text \<open>
  A \<open>Socket\<close> is its descriptor. The acceptor owns the listening socket and its channel in the base
  loop; when the channel is readable it accepts one connection and hands it to a callback, which
  is an argument here. Addresses that the kernel stores come back as bytes.
\<close>

subsection \<open>Sockets\<close>

definition word16_at :: "byte list \<Rightarrow> nat \<Rightarrow> 16 word" where
  "word16_at d i = (let b = (\<lambda>j. if j < length d then ucast (d ! j) else 0) in b i OR push_bit 8 (b (i + 1)))"

definition word32_at :: "byte list \<Rightarrow> nat \<Rightarrow> 32 word" where
  "word32_at d i = (let b = (\<lambda>j. if j < length d then ucast (d ! j) else 0) in
     b i OR push_bit 8 (b (i + 1)) OR push_bit 16 (b (i + 2)) OR push_bit 24 (b (i + 3)))"

text \<open>A \<open>sockaddr_in\<close> that was zeroed and then filled with the bytes of the answer.\<close>

definition sockaddr_of :: "byte list \<Rightarrow> inet_address" where
  "sockaddr_of d = \<lparr>sin_family = word16_at d 0, sin_port = word16_at d 2, sin_addr = word32_at d 4\<rparr>"

definition closeSocket :: "os \<Rightarrow> tid \<Rightarrow> int \<Rightarrow> 'a io_scheme \<Rightarrow> 'a io_scheme" where
  "closeSocket os me fd s = snd (do_call os me (CloseFd fd) s)"

definition bindAddress :: "os \<Rightarrow> tid \<Rightarrow> int \<Rightarrow> inet_address \<Rightarrow> 'a io_scheme \<Rightarrow> 'a io_scheme res" where
  "bindAddress os me fd a s = (let (r, s) = do_call os me (Bind fd (sockaddr_bytes a)) s in
     if ret r \<noteq> 0 then Inl FatalExit else Inr s)"

definition socket_listen :: "os \<Rightarrow> tid \<Rightarrow> int \<Rightarrow> 'a io_scheme \<Rightarrow> 'a io_scheme res" where
  "socket_listen os me fd s = (let (r, s) = do_call os me (Listen fd 1024) s in
     if ret r \<noteq> 0 then Inl FatalExit else Inr s)"

text \<open>\<open>accept\<close>: the descriptor, and the peer's address when there is one.\<close>

definition socket_accept :: "os \<Rightarrow> tid \<Rightarrow> int \<Rightarrow> inet_address \<Rightarrow> 'a io_scheme \<Rightarrow> int \<times> inet_address \<times> 'a io_scheme" where
  "socket_accept os me fd peer s = (let (r, s) = do_call os me (Accept fd) s in
     (ret r, if 0 \<le> ret r then sockaddr_of (rdata r) else peer, s))"

definition shutdownWrite :: "os \<Rightarrow> tid \<Rightarrow> int \<Rightarrow> 'a io_scheme \<Rightarrow> 'a io_scheme" where
  "shutdownWrite os me fd s = snd (do_call os me (ShutdownWr fd) s)"

definition setOption :: "os \<Rightarrow> tid \<Rightarrow> string \<Rightarrow> bool \<Rightarrow> int \<Rightarrow> 'a io_scheme \<Rightarrow> 'a io_scheme" where
  "setOption os me opt on fd s = snd (do_call os me (SetSockOpt fd opt on) s)"

definition setTcpNoDelay :: "os \<Rightarrow> tid \<Rightarrow> bool \<Rightarrow> int \<Rightarrow> 'a io_scheme \<Rightarrow> 'a io_scheme" where
  "setTcpNoDelay os me = setOption os me ''TCP_NODELAY''"

definition setReusePort :: "os \<Rightarrow> tid \<Rightarrow> bool \<Rightarrow> int \<Rightarrow> 'a io_scheme \<Rightarrow> 'a io_scheme" where
  "setReusePort os me = setOption os me ''SO_REUSEPORT''"

definition setReuseAddr :: "os \<Rightarrow> tid \<Rightarrow> bool \<Rightarrow> int \<Rightarrow> 'a io_scheme \<Rightarrow> 'a io_scheme" where
  "setReuseAddr os me = setOption os me ''SO_REUSEADDR''"

definition setKeepAlive :: "os \<Rightarrow> tid \<Rightarrow> bool \<Rightarrow> int \<Rightarrow> 'a io_scheme \<Rightarrow> 'a io_scheme" where
  "setKeepAlive os me = setOption os me ''SO_KEEPALIVE''"

text \<open>What a structure's bytes say is the structure.\<close>

lemma sockaddr_round_trip: "sockaddr_of (sockaddr_bytes a) = a"
proof -
  have 16: "word16_at (ucast x # ucast (drop_bit 8 x) # d) 0 = x" for x :: "16 word" and d
    unfolding word16_at_def Let_def
    by (rule bit_word_eqI) (auto simp: bit_simps)
  have 32: "ucast (ucast x :: byte) OR push_bit 8 (ucast (ucast (drop_bit 8 x) :: byte)) OR
      push_bit 16 (ucast (ucast (drop_bit 16 x) :: byte)) OR push_bit 24 (ucast (ucast (drop_bit 24 x) :: byte)) = x"
    for x :: "32 word"
  proof (rule bit_word_eqI)
    fix n assume "n < LENGTH(32)"
    then consider "n < 8" | "8 \<le> n" "n < 16" | "16 \<le> n" "n < 24" | "24 \<le> n" "n < 32" by fastforce
    then show "bit (ucast (ucast x :: byte) OR push_bit 8 (ucast (ucast (drop_bit 8 x) :: byte)) OR
      push_bit 16 (ucast (ucast (drop_bit 16 x) :: byte)) OR push_bit 24 (ucast (ucast (drop_bit 24 x) :: byte)) :: 32 word) n
      \<longleftrightarrow> bit x n"
      by cases (auto simp: bit_simps)
  qed
  have off: "word16_at (a # b # d) 2 = word16_at d 0" for a b d
    by (simp add: word16_at_def Let_def)
  show ?thesis
    using 16 32
    by (cases a) (simp add: sockaddr_of_def sockaddr_bytes_def bytes16_def bytes32_def off word32_at_def Let_def)
qed

subsection \<open>The acceptor\<close>

record acceptor =
  acc_loop :: loop_id
  acc_fd :: int
  acc_chan :: chan_id
  hasNewConnectionCb :: bool
  listenning :: bool

definition CreateNoblocking :: "os \<Rightarrow> tid \<Rightarrow> 'a io_scheme \<Rightarrow> (int \<times> 'a io_scheme) res" where
  "CreateNoblocking os me s = (let (r, s) = do_call os me SocketNew s in
     if ret r < 0 then Inl FatalExit else Inr (ret r, s))"

text \<open>The constructor; \<open>p\<close> is the address of the channel. The parameter \<open>setReusePort\<close> of the code is
  \<open>reuse\<close>: it is not used.\<close>

definition mkAcceptor :: "os \<Rightarrow> tid \<Rightarrow> loop_id \<Rightarrow> inet_address \<Rightarrow> bool \<Rightarrow> chan_id \<Rightarrow> 'a reactor_scheme \<Rightarrow>
    (acceptor \<times> 'a reactor_scheme) res" where
  "mkAcceptor os me l listenAddr reuse p s =
     rbind (CreateNoblocking os me s) (\<lambda>(fd, s).
     let s = put_chan p (mkChannel l fd) s;
         s = setReuseAddr os me True fd s;
         s = setReusePort os me True fd s in
     rbind (bindAddress os me fd listenAddr s) (\<lambda>s.
     rbind (upd_chan p (\<lambda>c. setReadCallback AcceptorHandleRead c) s) (\<lambda>s.
     Inr (\<lparr>acc_loop = l, acc_fd = fd, acc_chan = p, hasNewConnectionCb = False, listenning = False\<rparr>, s))))"

definition acceptor_listen :: "os \<Rightarrow> tid \<Rightarrow> acceptor \<Rightarrow> 'a reactor_scheme \<Rightarrow> (acceptor \<times> 'a reactor_scheme) res" where
  "acceptor_listen os me a s =
     rbind (socket_listen os me (acc_fd a) s) (\<lambda>s.
     rbind (set_events os me EnableReading (acc_chan a) s) (\<lambda>s.
     Inr (a\<lparr>listenning := True\<rparr>, s)))"

definition acceptor_handleRead :: "os \<Rightarrow> tid \<Rightarrow> (int \<Rightarrow> inet_address \<Rightarrow> 'a reactor_scheme \<Rightarrow> 'a reactor_scheme res) \<Rightarrow>
    inet_address \<Rightarrow> acceptor \<Rightarrow> 'a reactor_scheme \<Rightarrow> 'a reactor_scheme res" where
  "acceptor_handleRead os me newConnection default_peer a s =
     (let (connfd, peer, s) = socket_accept os me (acc_fd a) default_peer s in
      if 0 \<le> connfd
      then if hasNewConnectionCb a then newConnection connfd peer s
           else Inr (closeSocket os me connfd s)
      else Inr s)"

text \<open>The destructor; the socket is closed after the channel is gone.\<close>

definition closeAcceptor :: "os \<Rightarrow> tid \<Rightarrow> acceptor \<Rightarrow> 'a reactor_scheme \<Rightarrow> 'a reactor_scheme res" where
  "closeAcceptor os me a s =
     rbind (set_events os me DisableAll (acc_chan a) s) (\<lambda>s.
     rbind (channel_remove os me (acc_chan a) s) (\<lambda>s.
     Inr (closeSocket os me (acc_fd a) (s\<lparr>chans := (chans s)(acc_chan a := None)\<rparr>))))"


subsection \<open>Lemmas\<close>

lemma acceptor_listen_ok:
  assumes reg: "reg_inv os l s" and ch: "chans s (acc_chan a) = Some ch" "ch_loop ch = l"
    and ok: "ret (os (io_trace s) (Listen (acc_fd a) 1024)) = 0"
  shows "\<exists>s'. acceptor_listen os me a s = Inr (a\<lparr>listenning := True\<rparr>, s') \<and> reg_inv os l s' \<and>
    registered l s' (acc_chan a) = Some (ch_events ch OR kReadEvent) \<and> only_poller l s s'"
proof -
  define s1 where "s1 = snd (do_call os me (Listen (acc_fd a) 1024) s)"
  from reg obtain lp where lp: "loops s l = Some lp" by (auto simp: reg_inv_def reg_inv_except_def)
  have reg1: "reg_inv os l s1"
    by (rule reg_inv_frame [OF reg lp, where lp' = lp]) (simp_all add: s1_def lp)
  have ch1: "chans s1 (acc_chan a) = Some ch" by (simp add: s1_def ch(1))
  from reg.change_ok [OF reg1 chan_entry_Some [OF ch1 ch(2)], of me EnableReading] obtain s' where
    s': "set_events os me EnableReading (acc_chan a) s1 = Inr s'" "reg_inv os l s'"
      "chan_entry l s' (acc_chan a) = Some (entry_change EnableReading (ch_events ch, ch_index ch = kAdded))"
    by auto
  have op: "only_poller l s1 s'" using set_events_ok [OF reg1 ch1 ch(2), of me EnableReading] s'(1) by auto
  have "only_poller l s s'" using op lp unfolding only_poller_def s1_def by simp
  moreover have "registered l s' (acc_chan a) = Some (ch_events ch OR kReadEvent)"
    using registered_of_entry [OF s'(2,3)] enable_reading_mask [of "ch_events ch"]
    by (simp add: kernel_mask_def Let_def)
  moreover have "socket_listen os me (acc_fd a) s = Inr s1"
    using ok by (simp add: socket_listen_def s1_def split_beta Let_def)
  ultimately show ?thesis using s'(1,2) by (simp add: acceptor_listen_def)
qed

subsection \<open>Properties\<close>



end
