(* ===== verification/Threads.thy ===== *)
theory Threads
  imports Sys
begin

section \<open>Threads (Thread.h, Thread.cpp, CurrentThread.h, CurrentThread.cpp)\<close>

text \<open>
  \<open>Thread\<close> wraps a \<open>std::thread\<close> with a name and the kernel's thread id; \<open>CurrentThread::tid\<close>
  asks the kernel once per thread and caches the answer. This theory holds the operations as
  functions; how the new thread and its creator interleave is in the theory EventLoopThread.
\<close>

subsection \<open>The cached thread id\<close>

text \<open>\<open>cached\<close> is the thread-local \<open>t_chachedTid\<close> of the calling thread, 0 at first.\<close>

definition cacheTid :: "os \<Rightarrow> int \<Rightarrow> 'a io_scheme \<Rightarrow> int \<times> 'a io_scheme" where
  "cacheTid os cached s =
     (if cached = 0 then let (r, s) = do_call os 0 GetTid s in (ret r, s) else (cached, s))"

definition current_tid :: "os \<Rightarrow> int \<Rightarrow> 'a io_scheme \<Rightarrow> int \<times> 'a io_scheme" where
  "current_tid os cached s = (if cached = 0 then cacheTid os cached s else (cached, s))"

text \<open>After the first call the kernel is not asked again, provided it never answers 0.\<close>

lemma tid_cached:
  assumes "current_tid os cached s = (t, s1)" "t \<noteq> 0"
  shows "current_tid os t s1 = (t, s1)"
  using assms by (simp add: current_tid_def)

subsection \<open>Thread objects\<close>

text \<open>
  \<open>handle\<close> is the shared pointer to the \<open>std::thread\<close>: \<open>None\<close> when null, else whether the
  thread is joinable. The static counter \<open>numCreated_\<close> is an \<open>atomic_int32_t\<close>: it wraps.
\<close>

record thread =
  th_started :: bool
  th_joined :: bool
  th_handle :: "bool option"
  th_tid :: int
  th_name :: string

definition setDefaultName :: "32 word \<Rightarrow> string \<Rightarrow> string \<times> 32 word" where
  "setDefaultName numCreated name =
     (let num = numCreated + 1 in
      (if name = [] then c_str (snprintf_buf 32 (''Thread'' @ show_int (sint num))) else name, num))"

definition mkThread :: "string \<Rightarrow> 32 word \<Rightarrow> thread \<times> 32 word" where
  "mkThread name numCreated =
     (let (nm, num) = setDefaultName numCreated name in
      (\<lparr>th_started = False, th_joined = False, th_handle = None, th_tid = 0, th_name = nm\<rparr>, num))"

text \<open>\<open>start\<close> returns when the new thread has stored its id, which the kernel chose. Assigning
  over a joinable \<open>std::thread\<close> calls \<open>std::terminate\<close>.\<close>

definition thread_start :: "int \<Rightarrow> thread \<Rightarrow> thread res" where
  "thread_start tid th =
     (if th_handle th = Some True then Inl Terminate
      else Inr (th\<lparr>th_started := True, th_handle := Some True, th_tid := tid\<rparr>))"

definition thread_join :: "thread \<Rightarrow> thread res" where
  "thread_join th = (case th_handle th of
     None \<Rightarrow> Inl NullDeref
   | Some joinable \<Rightarrow>
       if joinable then Inr (th\<lparr>th_joined := True, th_handle := Some False\<rparr>) else Inl SystemError)"

text \<open>The destructor detaches a started thread nobody joined; then the \<open>std::thread\<close> goes,
  which terminates the process when it is still joinable.\<close>

definition thread_destroy :: "thread \<Rightarrow> unit res" where
  "thread_destroy th =
     rbind (if th_started th \<and> \<not> th_joined th
            then (case th_handle th of None \<Rightarrow> Inl NullDeref
                  | Some joinable \<Rightarrow> if joinable then Inr (Some False) else Inl SystemError)
            else Inr (th_handle th))
       (\<lambda>h. if h = Some True then Inl Terminate else Inr ())"

subsection \<open>Lemmas\<close>

lemma default_name:
  "setDefaultName numCreated [] = (''Thread'' @ show_int (sint (numCreated + 1)), numCreated + 1)"
proof -
  have "\<bar>sint (numCreated + 1)\<bar> < (10 :: int) ^ 10"
    using sint_range_size [of "numCreated + 1"] unfolding word_size by simp linarith
  from show_int_length [OF this] have "length (''Thread'' @ show_int (sint (numCreated + 1))) < 32" by simp
  moreover have "c_str (''Thread'' @ show_int (sint (numCreated + 1))) = ''Thread'' @ show_int (sint (numCreated + 1))"
    by (rule c_str_id) (simp add: show_int_no_zero)
  ultimately show ?thesis by (simp add: setDefaultName_def Let_def snprintf_buf_id)
qed

text \<open>Threads without a name get names of their own until the counter has wrapped around.\<close>

lemma default_names_distinct:
  "fst (setDefaultName m []) = fst (setDefaultName n []) \<longleftrightarrow> m = n"
proof -
  have "sint (m + 1) = sint (n + 1) \<longleftrightarrow> m = n" using signed_word_eqI [of "m + 1" "n + 1"] by auto
  then show ?thesis by (simp add: default_name)
qed

text \<open>
  The life of a thread object: created, started, joined, destroyed. It runs without a fault; so it
  does without the join, and for an object that was never started.
\<close>

fun thread_ops :: "(thread \<Rightarrow> thread res) list \<Rightarrow> thread \<Rightarrow> thread res" where
  "thread_ops fs th = foldr_res (\<lambda>f. f) fs th"

lemma thread_life:
  fixes name :: string and n :: "32 word"
  defines "new \<equiv> fst (mkThread name n)"
  shows "rbind (thread_ops [thread_start t, thread_join] new) thread_destroy = Inr ()"
    and "rbind (thread_ops [thread_start t] new) thread_destroy = Inr ()"
    and "thread_destroy new = Inr ()"
    and "thread_ops [thread_join] new = Inl NullDeref"
    and "thread_ops [thread_start t, thread_join, thread_join] new = Inl SystemError"
    and "thread_ops [thread_start t, thread_start u] new = Inl Terminate"
  by (simp_all add: new_def mkThread_def thread_start_def thread_join_def thread_destroy_def split_beta Let_def)

end
