(* ===== verification/EventLoopThread.thy ===== *)
theory EventLoopThread
  imports Threads EventLoop
begin

section \<open>A thread with a loop (EventLoopThread.h, EventLoopThread.cpp)\<close>

text \<open>
  \<open>startLoop\<close> starts a thread whose function constructs a loop on its stack, publishes the pointer
  under a mutex, notifies a condition variable and runs the loop; \<open>startLoop\<close> waits for the
  pointer. The destructor asks the loop to quit and joins. Two threads take part, the owner and
  the child; the model interleaves them at every point where they can observe each other.
\<close>

subsection \<open>The object\<close>

record event_loop_thread =
  elt_loop :: "loop_id option"
  exiting :: bool
  elt_thread :: thread
  hasCallback :: bool

text \<open>The constructor leaves \<open>callback_\<close> empty: its argument \<open>cb\<close> is not used.\<close>

definition mkEventLoopThread :: "bool \<Rightarrow> string \<Rightarrow> 32 word \<Rightarrow> event_loop_thread \<times> 32 word" where
  "mkEventLoopThread cb name numCreated =
     (let (th, num) = mkThread name numCreated in
      (\<lparr>elt_loop = None, exiting = False, elt_thread = th, hasCallback = False\<rparr>, num))"

subsection \<open>Owner and child\<close>

text \<open>
  The owner: before \<open>startLoop\<close>; in \<open>sem_wait\<close> of \<open>Thread::start\<close>; about to lock; at the test of
  \<open>loop_\<close>, with the lock; waiting on the condition variable; woken and about to lock again;
  after \<open>startLoop\<close>, with its result; in the destructor about to call \<open>quit\<close>; in \<open>join\<close>; done;
  or dead with a fault.
\<close>

datatype owner_pc = OIdle | OSem | OLock | OTest | OWait | ORelock | OGot "loop_id option"
  | OQuit | OJoin | ODone | OFault fault

text \<open>
  The child: not started; storing its thread id; in \<open>threadFunc\<close>, constructing the loop; at the
  test of \<open>callback_\<close>; about to lock; with the lock, about to store \<open>loop_\<close>; about to notify;
  about to unlock; entering \<open>loop\<close>; in it; after it about to lock; about to unlock; destroying the
  loop; ended.
\<close>

datatype child_pc = CNone | CTid | CConstruct | CCallback | CLock | CPublish | CNotify | CUnlock
  | CEnter | CLooping | CLock2 | CUnlock2 | CDestroy | CExit

datatype who = Owner | Child

record elt_sys =
  opc :: owner_pc
  cpc :: child_pc
  mutex :: "who option"
  sem :: nat
  loop_ptr :: "loop_id option"
  waiting :: bool
  flag :: bool

text \<open>The loop object lives on the child's stack.\<close>

fun loop_alive :: "child_pc \<Rightarrow> bool" where
  "loop_alive CNone = False" | "loop_alive CTid = False" | "loop_alive CConstruct = False"
| "loop_alive CExit = False" | "loop_alive _ = True"

text \<open>
  One step of one thread; \<open>l\<close> is the address of the loop. Entering \<open>loop\<close> clears the quit flag, and
  \<open>loop\<close> ends when the flag is set (theory LoopThreads has that part in detail).
\<close>

inductive elt_step :: "loop_id \<Rightarrow> elt_sys \<Rightarrow> elt_sys \<Rightarrow> bool" for l where
  start: "opc s = OIdle \<Longrightarrow> elt_step l s (s\<lparr>opc := OSem, cpc := CTid, sem := 0\<rparr>)"
| sem_wait: "opc s = OSem \<Longrightarrow> 0 < sem s \<Longrightarrow> elt_step l s (s\<lparr>opc := OLock, sem := sem s - 1\<rparr>)"
| lock: "opc s = OLock \<Longrightarrow> mutex s = None \<Longrightarrow> elt_step l s (s\<lparr>opc := OTest, mutex := Some Owner\<rparr>)"
| wait: "opc s = OTest \<Longrightarrow> loop_ptr s = None \<Longrightarrow>
    elt_step l s (s\<lparr>opc := OWait, mutex := None, waiting := True\<rparr>)"
| got: "opc s = OTest \<Longrightarrow> loop_ptr s \<noteq> None \<Longrightarrow>
    elt_step l s (s\<lparr>opc := OGot (loop_ptr s), mutex := None\<rparr>)"
| woken: "opc s = OWait \<Longrightarrow> \<not> waiting s \<Longrightarrow> elt_step l s (s\<lparr>opc := ORelock\<rparr>)"
| relock: "opc s = ORelock \<Longrightarrow> mutex s = None \<Longrightarrow> elt_step l s (s\<lparr>opc := OTest, mutex := Some Owner\<rparr>)"
| dtor: "opc s = OGot r \<Longrightarrow> loop_ptr s \<noteq> None \<Longrightarrow> elt_step l s (s\<lparr>opc := OQuit\<rparr>)"
| dtor_null: "opc s = OGot r \<Longrightarrow> loop_ptr s = None \<Longrightarrow> elt_step l s (s\<lparr>opc := ODone\<rparr>)"
| quit_null: "opc s = OQuit \<Longrightarrow> loop_ptr s = None \<Longrightarrow> elt_step l s (s\<lparr>opc := OFault NullDeref\<rparr>)"
| quit: "opc s = OQuit \<Longrightarrow> loop_ptr s \<noteq> None \<Longrightarrow> elt_step l s (s\<lparr>opc := OJoin, flag := True\<rparr>)"
| join: "opc s = OJoin \<Longrightarrow> cpc s = CExit \<Longrightarrow> elt_step l s (s\<lparr>opc := ODone\<rparr>)"
| tid: "cpc s = CTid \<Longrightarrow> elt_step l s (s\<lparr>cpc := CConstruct, sem := Suc (sem s)\<rparr>)"
| construct: "cpc s = CConstruct \<Longrightarrow> elt_step l s (s\<lparr>cpc := CCallback, flag := False\<rparr>)"
| callback: "cpc s = CCallback \<Longrightarrow> elt_step l s (s\<lparr>cpc := CLock\<rparr>)"
| child_lock: "cpc s = CLock \<Longrightarrow> mutex s = None \<Longrightarrow> elt_step l s (s\<lparr>cpc := CPublish, mutex := Some Child\<rparr>)"
| publish: "cpc s = CPublish \<Longrightarrow> elt_step l s (s\<lparr>cpc := CNotify, loop_ptr := Some l\<rparr>)"
| notify: "cpc s = CNotify \<Longrightarrow> elt_step l s (s\<lparr>cpc := CUnlock, waiting := False\<rparr>)"
| unlock: "cpc s = CUnlock \<Longrightarrow> elt_step l s (s\<lparr>cpc := CEnter, mutex := None\<rparr>)"
| enter: "cpc s = CEnter \<Longrightarrow> elt_step l s (s\<lparr>cpc := CLooping, flag := False\<rparr>)"
| leave: "cpc s = CLooping \<Longrightarrow> flag s \<Longrightarrow> elt_step l s (s\<lparr>cpc := CLock2\<rparr>)"
| child_lock2: "cpc s = CLock2 \<Longrightarrow> mutex s = None \<Longrightarrow>
    elt_step l s (s\<lparr>cpc := CUnlock2, mutex := Some Child, loop_ptr := None\<rparr>)"
| unlock2: "cpc s = CUnlock2 \<Longrightarrow> elt_step l s (s\<lparr>cpc := CDestroy, mutex := None\<rparr>)"
| destroy: "cpc s = CDestroy \<Longrightarrow> elt_step l s (s\<lparr>cpc := CExit\<rparr>)"

text \<open>Each thread's step is determined: the relation as a function, for running schedules.\<close>

definition owner_turn :: "elt_sys \<Rightarrow> elt_sys option" where
  "owner_turn s = (case opc s of
     OIdle \<Rightarrow> Some (s\<lparr>opc := OSem, cpc := CTid, sem := 0\<rparr>)
   | OSem \<Rightarrow> if 0 < sem s then Some (s\<lparr>opc := OLock, sem := sem s - 1\<rparr>) else None
   | OLock \<Rightarrow> if mutex s = None then Some (s\<lparr>opc := OTest, mutex := Some Owner\<rparr>) else None
   | OTest \<Rightarrow> if loop_ptr s = None then Some (s\<lparr>opc := OWait, mutex := None, waiting := True\<rparr>)
              else Some (s\<lparr>opc := OGot (loop_ptr s), mutex := None\<rparr>)
   | OWait \<Rightarrow> if waiting s then None else Some (s\<lparr>opc := ORelock\<rparr>)
   | ORelock \<Rightarrow> if mutex s = None then Some (s\<lparr>opc := OTest, mutex := Some Owner\<rparr>) else None
   | OGot r \<Rightarrow> if loop_ptr s \<noteq> None then Some (s\<lparr>opc := OQuit\<rparr>) else Some (s\<lparr>opc := ODone\<rparr>)
   | OQuit \<Rightarrow> if loop_ptr s = None then Some (s\<lparr>opc := OFault NullDeref\<rparr>)
              else Some (s\<lparr>opc := OJoin, flag := True\<rparr>)
   | OJoin \<Rightarrow> if cpc s = CExit then Some (s\<lparr>opc := ODone\<rparr>) else None
   | ODone \<Rightarrow> None
   | OFault e \<Rightarrow> None)"

definition child_turn :: "loop_id \<Rightarrow> elt_sys \<Rightarrow> elt_sys option" where
  "child_turn l s = (case cpc s of
     CNone \<Rightarrow> None
   | CTid \<Rightarrow> Some (s\<lparr>cpc := CConstruct, sem := Suc (sem s)\<rparr>)
   | CConstruct \<Rightarrow> Some (s\<lparr>cpc := CCallback, flag := False\<rparr>)
   | CCallback \<Rightarrow> Some (s\<lparr>cpc := CLock\<rparr>)
   | CLock \<Rightarrow> if mutex s = None then Some (s\<lparr>cpc := CPublish, mutex := Some Child\<rparr>) else None
   | CPublish \<Rightarrow> Some (s\<lparr>cpc := CNotify, loop_ptr := Some l\<rparr>)
   | CNotify \<Rightarrow> Some (s\<lparr>cpc := CUnlock, waiting := False\<rparr>)
   | CUnlock \<Rightarrow> Some (s\<lparr>cpc := CEnter, mutex := None\<rparr>)
   | CEnter \<Rightarrow> Some (s\<lparr>cpc := CLooping, flag := False\<rparr>)
   | CLooping \<Rightarrow> if flag s then Some (s\<lparr>cpc := CLock2\<rparr>) else None
   | CLock2 \<Rightarrow> if mutex s = None
               then Some (s\<lparr>cpc := CUnlock2, mutex := Some Child, loop_ptr := None\<rparr>) else None
   | CUnlock2 \<Rightarrow> Some (s\<lparr>cpc := CDestroy, mutex := None\<rparr>)
   | CDestroy \<Rightarrow> Some (s\<lparr>cpc := CExit\<rparr>)
   | CExit \<Rightarrow> None)"

fun turn_of :: "loop_id \<Rightarrow> who \<Rightarrow> elt_sys \<Rightarrow> elt_sys option" where
  "turn_of l Owner s = owner_turn s"
| "turn_of l Child s = child_turn l s"

text \<open>A schedule is the sequence of threads that take a step.\<close>

fun schedule :: "loop_id \<Rightarrow> who list \<Rightarrow> elt_sys \<Rightarrow> elt_sys option" where
  "schedule l [] s = Some s"
| "schedule l (w # ws) s = (case turn_of l w s of None \<Rightarrow> None | Some s' \<Rightarrow> schedule l ws s')"

text \<open>
  What else can happen: the condition variable wakes without a notification; and whoever got the
  pointer from \<open>startLoop\<close> calls \<open>quit\<close> on the loop while it lives.
\<close>

inductive elt_env :: "elt_sys \<Rightarrow> elt_sys \<Rightarrow> bool" where
  spurious: "opc s = OWait \<Longrightarrow> elt_env s (s\<lparr>waiting := False\<rparr>)"
| user_quit: "opc s = OGot r \<Longrightarrow> loop_alive (cpc s) \<Longrightarrow> elt_env s (s\<lparr>flag := True\<rparr>)"

definition elt_init :: elt_sys where
  "elt_init = \<lparr>opc = OIdle, cpc = CNone, mutex = None, sem = 0, loop_ptr = None, waiting = False, flag = False\<rparr>"

inductive elt_reachable :: "loop_id \<Rightarrow> elt_sys \<Rightarrow> bool" for l where
  init: "elt_reachable l elt_init"
| step: "elt_reachable l s \<Longrightarrow> elt_step l s s' \<Longrightarrow> elt_reachable l s'"
| env: "elt_reachable l s \<Longrightarrow> elt_env s s' \<Longrightarrow> elt_reachable l s'"

subsection \<open>The invariant\<close>

fun starting :: "owner_pc \<Rightarrow> bool" where
  "starting OIdle = True" | "starting OSem = True" | "starting OLock = True" | "starting OTest = True"
| "starting OWait = True" | "starting ORelock = True" | "starting _ = False"

text \<open>Where the child is with respect to the published pointer and the lock.\<close>

fun published :: "child_pc \<Rightarrow> bool" where
  "published CNotify = True" | "published CUnlock = True" | "published CEnter = True"
| "published CLooping = True" | "published CLock2 = True" | "published _ = False"

fun child_locks :: "child_pc \<Rightarrow> bool" where
  "child_locks CPublish = True" | "child_locks CNotify = True" | "child_locks CUnlock = True"
| "child_locks CUnlock2 = True" | "child_locks _ = False"

fun before_notify :: "child_pc \<Rightarrow> bool" where
  "before_notify CTid = True" | "before_notify CConstruct = True" | "before_notify CCallback = True"
| "before_notify CLock = True" | "before_notify CPublish = True" | "before_notify CNotify = True"
| "before_notify _ = False"

fun ended :: "child_pc \<Rightarrow> bool" where
  "ended CLock2 = True" | "ended CUnlock2 = True" | "ended CDestroy = True" | "ended CExit = True"
| "ended _ = False"

definition elt_inv :: "loop_id \<Rightarrow> elt_sys \<Rightarrow> bool" where
  "elt_inv l s \<longleftrightarrow>
     (opc s = OIdle \<longleftrightarrow> cpc s = CNone) \<and>
     (mutex s = Some Owner \<longleftrightarrow> opc s = OTest) \<and>
     (mutex s = Some Child \<longleftrightarrow> child_locks (cpc s)) \<and>
     loop_ptr s = (if published (cpc s) then Some l else None) \<and>
     (opc s = OSem \<longrightarrow> sem s = (if cpc s = CTid then 0 else 1)) \<and>
     (cpc s = CTid \<longrightarrow> opc s = OSem) \<and>
     (opc s = OWait \<longrightarrow> waiting s \<longrightarrow> before_notify (cpc s)) \<and>
     (starting (opc s) \<longrightarrow> \<not> flag s \<and> \<not> ended (cpc s)) \<and>
     (\<forall>r. opc s = OGot r \<longrightarrow> r = Some l)"

lemma child_places: "c \<noteq> CNone \<Longrightarrow> \<not> published c \<Longrightarrow> \<not> ended c \<Longrightarrow> before_notify c"
  by (cases c) simp_all

lemma elt_init_inv: "elt_inv l elt_init"
  by (simp add: elt_inv_def elt_init_def)

inductive_cases elt_envE: "elt_env s s'"

lemma elt_step_inv: "elt_step l s s' \<Longrightarrow> elt_inv l s \<Longrightarrow> elt_inv l s'"
  by (induction rule: elt_step.induct) (auto simp: elt_inv_def child_places split: if_splits)

lemma elt_env_inv: "elt_env s s' \<Longrightarrow> elt_inv l s \<Longrightarrow> elt_inv l s'"
  by (induction rule: elt_env.induct) (auto simp: elt_inv_def)

lemma elt_reachable_inv: "elt_reachable l s \<Longrightarrow> elt_inv l s"
  by (induction rule: elt_reachable.induct) (auto intro: elt_init_inv elt_step_inv elt_env_inv)

lemma elt_steps_reachable: "(elt_step l)\<^sup>*\<^sup>* s s' \<Longrightarrow> elt_reachable l s \<Longrightarrow> elt_reachable l s'"
  by (induction rule: rtranclp_induct) (auto intro: elt_reachable.step)

lemma owner_turn_step: "owner_turn s = Some s' \<Longrightarrow> elt_step l s s'"
  by (cases "opc s") (auto simp: owner_turn_def simp del: One_nat_def intro: elt_step.intros split: if_splits)

lemma child_turn_step: "child_turn l s = Some s' \<Longrightarrow> elt_step l s s'"
  by (cases "cpc s") (auto simp: child_turn_def intro: elt_step.intros split: if_splits)

lemma turn_step: "turn_of l w s = Some s' \<Longrightarrow> elt_step l s s'"
  by (cases w) (simp_all add: owner_turn_step child_turn_step)

lemma schedule_steps: "schedule l ws s = Some s' \<Longrightarrow> (elt_step l ^^ length ws) s s'"
proof (induction ws arbitrary: s)
  case (Cons w ws)
  then obtain t where t: "turn_of l w s = Some t" "schedule l ws t = Some s'"
    by (auto split: option.splits)
  from relpowp_Suc_I2 [OF turn_step [OF t(1)] Cons.IH [OF t(2)]] show ?case by simp
qed simp

subsection \<open>\<open>startLoop\<close> returns\<close>

text \<open>While \<open>startLoop\<close> runs, one of the two threads can always move.\<close>

lemma child_moves:
  assumes "elt_inv l s" "before_notify (cpc s) \<or> child_locks (cpc s)" "mutex s \<noteq> Some Owner"
  shows "child_turn l s \<noteq> None"
proof -
  have "mutex s = None \<or> mutex s = Some Child" using assms(3) by (metis not_None_eq who.exhaust)
  with assms(1,2) show ?thesis by (cases "cpc s") (auto simp: elt_inv_def child_turn_def)
qed

lemma startLoop_progress:
  assumes inv: "elt_inv l s" and "starting (opc s)"
  shows "\<exists>s'. elt_step l s s'"
proof -
  have "owner_turn s \<noteq> None \<or> child_turn l s \<noteq> None"
  proof (cases "owner_turn s = None")
    case blocked: True
    have "mutex s \<noteq> Some Owner"
      using inv blocked by (auto simp: elt_inv_def owner_turn_def split: if_splits)
    moreover have "before_notify (cpc s) \<or> child_locks (cpc s)"
      using assms blocked by (cases "opc s")
        (auto simp: owner_turn_def elt_inv_def split: if_splits elim: who.exhaust, (metis who.exhaust)+)
    ultimately show ?thesis using child_moves [OF inv] by blast
  qed simp
  then show ?thesis by (metis turn_step not_None_eq turn_of.simps)
qed

text \<open>
  And each step brings it closer: the child moves forward, or the owner does, where a wait counts
  as progress because the notification that ends it comes only once.
\<close>

fun child_left :: "child_pc \<Rightarrow> nat" where
  "child_left CNone = 10" | "child_left CTid = 9" | "child_left CConstruct = 8" | "child_left CCallback = 7"
| "child_left CLock = 6" | "child_left CPublish = 5" | "child_left CNotify = 4" | "child_left CUnlock = 3"
| "child_left CEnter = 2" | "child_left _ = 1"

fun owner_left :: "bool \<Rightarrow> owner_pc \<Rightarrow> nat" where
  "owner_left p OIdle = 7" | "owner_left p OSem = 6" | "owner_left p OLock = 5"
| "owner_left p OTest = (if p then 1 else 4)" | "owner_left p OWait = 3" | "owner_left p ORelock = 2"
| "owner_left p _ = 0"

definition start_left :: "elt_sys \<Rightarrow> nat" where
  "start_left s = 8 * child_left (cpc s) + owner_left (loop_ptr s \<noteq> None) (opc s)"

lemma owner_left_published [simp]: "owner_left True p < 8 + owner_left False p"
  by (cases p) simp_all

text \<open>Without spurious wakeups a woken owner finds the pointer.\<close>

definition woken_inv :: "elt_sys \<Rightarrow> bool" where
  "woken_inv s \<longleftrightarrow> (opc s = ORelock \<or> opc s = OWait \<and> \<not> waiting s \<longrightarrow> loop_ptr s \<noteq> None)"

lemma woken_step: "elt_step l s s' \<Longrightarrow> elt_inv l s \<Longrightarrow> woken_inv s \<Longrightarrow> woken_inv s'"
  by (induction rule: elt_step.induct) (auto simp: elt_inv_def woken_inv_def)

lemma start_left_decreases:
  "elt_step l s s' \<Longrightarrow> elt_inv l s \<Longrightarrow> woken_inv s \<Longrightarrow> starting (opc s) \<Longrightarrow> start_left s' < start_left s"
  by (induction rule: elt_step.induct) (auto simp: elt_inv_def woken_inv_def start_left_def)

text \<open>Once over, \<open>startLoop\<close> is over.\<close>

lemma starting_before: "elt_step l s s' \<Longrightarrow> starting (opc s') \<Longrightarrow> starting (opc s)"
  by (induction rule: elt_step.induct) (auto split: if_splits)

lemma start_run:
  assumes "(elt_step l ^^ n) elt_init s" "starting (opc s)"
  shows "elt_inv l s \<and> woken_inv s \<and> n + start_left s \<le> start_left elt_init"
  using assms
proof (induction n arbitrary: s)
  case 0
  then show ?case using elt_init_inv by (auto simp: woken_inv_def elt_init_def)
next
  case (Suc n)
  then obtain t where t: "(elt_step l ^^ n) elt_init t" "elt_step l t s" by auto
  with Suc.IH starting_before Suc.prems(2) have
    "elt_inv l t" "woken_inv t" "n + start_left t \<le> start_left elt_init" "starting (opc t)" by blast+
  with t(2) show ?case
    using elt_step_inv woken_step start_left_decreases by (metis Suc_leI add_Suc add_Suc_right add_le_cancel_left order_trans)
qed

subsection \<open>The destructor\<close>

text \<open>A destructor that runs before the child has entered its loop waits for ever.\<close>

definition stuck :: "elt_sys \<Rightarrow> bool" where
  "stuck s \<longleftrightarrow> opc s = OJoin \<and> cpc s = CLooping \<and> \<not> flag s"

lemma stuck_step: "elt_step l s s' \<Longrightarrow> \<not> stuck s" and stuck_env: "elt_env s s' \<Longrightarrow> \<not> stuck s"
  by (auto simp: stuck_def elim: elt_step.cases elt_env.cases)

subsection \<open>Properties\<close>

text \<open>Two schedules: up to the return of \<open>startLoop\<close>, and on to the deadlock of the destructor.\<close>

definition start_schedule :: "who list" where
  "start_schedule = [Owner, Child, Child, Child, Child, Child, Child, Child, Owner, Owner, Owner]"

definition elt_returned :: "loop_id \<Rightarrow> elt_sys" where
  "elt_returned l = \<lparr>opc = OGot (Some l), cpc = CEnter, mutex = None, sem = 0, loop_ptr = Some l,
     waiting = False, flag = False\<rparr>"

lemmas turn_defs = owner_turn_def child_turn_def

lemma start_schedule_run: "schedule l start_schedule elt_init = Some (elt_returned l)"
  by (simp add: start_schedule_def elt_init_def turn_defs elt_returned_def)

lemma relpowp_reachable: "(elt_step l ^^ n) s s' \<Longrightarrow> elt_reachable l s \<Longrightarrow> elt_reachable l s'"
  by (induction n arbitrary: s') (auto intro: elt_reachable.step)

lemma schedule_reachable: "schedule l ws s = Some s' \<Longrightarrow> elt_reachable l s \<Longrightarrow> elt_reachable l s'"
  using schedule_steps relpowp_reachable by blast

lemma elt_returned_reachable: "elt_reachable l (elt_returned l)"
  by (rule schedule_reachable [OF start_schedule_run elt_reachable.init])

text \<open>
  C15: \<open>startLoop\<close> returns. Under every interleaving of the two threads, \<open>startLoop\<close> is over after at
  most 87 steps, and until then one of the threads can move: there is no deadlock and no lost
  notification.
\<close>

theorem startLoop_terminates:
  assumes "(elt_step l ^^ n) elt_init s" "starting (opc s)"
  shows "n \<le> 87 \<and> (\<exists>s'. elt_step l s s')"
proof -
  have "start_left elt_init = 87" by (simp add: start_left_def elt_init_def)
  with start_run [OF assms] startLoop_progress [OF _ assms(2)] show ?thesis by force
qed

theorem startLoop_terminates_witness: "\<exists>s'. elt_step 0 elt_init s'"
proof -
  have "(elt_step 0 ^^ 0) elt_init elt_init" "starting (opc elt_init)" by (simp_all add: elt_init_def)
  from startLoop_terminates [OF this] show ?thesis by blast
qed

text \<open>
  C16: what \<open>startLoop\<close> returns is never null: in every reachable state, spurious wakeups included,
  the step that ends it yields the pointer to the child's loop, which the child has
  constructed, published and not destroyed.
\<close>

theorem startLoop_returns_live_loop:
  assumes "elt_reachable l s" "elt_step l s s'" "starting (opc s)" "\<not> starting (opc s')"
  shows "opc s' = OGot (Some l) \<and> loop_ptr s' = Some l \<and> loop_alive (cpc s')"
proof -
  have inv: "elt_inv l s'" using elt_step_inv [OF assms(2)] elt_reachable_inv [OF assms(1)] by blast
  have "\<exists>r. opc s' = OGot r \<and> loop_ptr s' \<noteq> None" using assms(2-4) by cases (auto split: if_splits)
  moreover have "published c \<Longrightarrow> loop_alive c" for c by (cases c) simp_all
  ultimately show ?thesis using inv by (auto simp: elt_inv_def split: if_splits)
qed

theorem startLoop_returns_live_loop_witness: "loop_ptr (elt_returned 5) = Some 5 \<and> loop_alive (cpc (elt_returned 5))"
proof -
  obtain s where s: "schedule 5 (butlast start_schedule) elt_init = Some s"
    "turn_of 5 Owner s = Some (elt_returned 5)" "starting (opc s)"
    by (simp add: start_schedule_def elt_init_def turn_defs elt_returned_def)
  have "\<not> starting (opc (elt_returned 5))" by (simp add: elt_returned_def)
  from startLoop_returns_live_loop [OF schedule_reachable [OF s(1) elt_reachable.init] turn_step [OF s(2)] s(3) this]
  show ?thesis by blast
qed

text \<open>
  C36: the destructor is not safe. After \<open>startLoop\<close> has returned there is an interleaving in which
  it never ends: it asks the loop to quit before the child has entered \<open>loop\<close>, which clears the
  flag, and then neither thread can ever move again. And there is one in which it dereferences
  null, because the loop was told to quit by others and the child cleared the pointer between
  the test and the call.
\<close>

theorem destructor_hangs_or_faults:
  "(\<exists>s. (elt_step l)\<^sup>*\<^sup>* (elt_returned l) s \<and> opc s = OJoin \<and> (\<forall>s'. \<not> elt_step l s s' \<and> \<not> elt_env s s')) \<and>
   (\<exists>s. elt_reachable l s \<and> opc s = OFault NullDeref)"
proof
  obtain s where s: "schedule l [Owner, Owner, Child] (elt_returned l) = Some s" "stuck s"
    by (simp add: elt_returned_def turn_defs stuck_def)
  have "(elt_step l)\<^sup>*\<^sup>* (elt_returned l) s" using schedule_steps [OF s(1)] by (rule relpowp_imp_rtranclp)
  with s(2) stuck_step stuck_env show "\<exists>s. (elt_step l)\<^sup>*\<^sup>* (elt_returned l) s \<and> opc s = OJoin \<and>
      (\<forall>s'. \<not> elt_step l s s' \<and> \<not> elt_env s s')"
    by (auto simp: stuck_def)
next
  obtain s where s: "schedule l [Child] (elt_returned l) = Some s" "opc s = OGot (Some l)" "loop_alive (cpc s)"
    "schedule l [Owner, Child, Child, Owner] (s\<lparr>flag := True\<rparr>) \<noteq> None"
    "opc (the (schedule l [Owner, Child, Child, Owner] (s\<lparr>flag := True\<rparr>))) = OFault NullDeref"
    by (simp add: elt_returned_def turn_defs)
  have "elt_reachable l (s\<lparr>flag := True\<rparr>)"
    using schedule_reachable [OF s(1) elt_returned_reachable] elt_env.user_quit [OF s(2,3)] by (rule elt_reachable.env)
  moreover obtain t where t: "schedule l [Owner, Child, Child, Owner] (s\<lparr>flag := True\<rparr>) = Some t"
    using s(4) by blast
  ultimately have "elt_reachable l t" using schedule_reachable by blast
  with s(5) t show "\<exists>s. elt_reachable l s \<and> opc s = OFault NullDeref" by auto
qed
end
