(* ===== verification/EventLoopThreadPool.thy ===== *)
theory EventLoopThreadPool
  imports EventLoopThread "HOL-Library.Multiset"
begin

section \<open>A pool of loops (EventLoopThreadPool.h, EventLoopThreadPool.cpp)\<close>

text \<open>
  The pool starts the given number of threads with a loop each and hands the loops out in turn;
  without threads it hands out the base loop. \<open>startLoop\<close> is taken here as one operation: the new
  thread constructs its loop and its creator gets the pointer (theory EventLoopThread shows that
  this is what every interleaving comes to).
\<close>

subsection \<open>State and operations\<close>

record thread_pool =
  baseLoop :: loop_id
  pool_name :: string
  pool_started :: bool
  numThreads :: int
  next_loop :: int
  pool_threads :: "event_loop_thread list"
  pool_loops :: "loop_id list"

definition mkThreadPool :: "loop_id \<Rightarrow> string \<Rightarrow> thread_pool" where
  "mkThreadPool base name = \<lparr>baseLoop = base, pool_name = name, pool_started = False, numThreads = 0,
     next_loop = 0, pool_threads = [], pool_loops = []\<rparr>"

text \<open>\<open>startLoop\<close>: \<open>t\<close> is the id of the new thread, \<open>l\<close> and \<open>p\<close> the addresses of its loop and of the
  loop's wakeup channel.\<close>

definition startLoop :: "os \<Rightarrow> bool \<Rightarrow> tid \<times> loop_id \<times> chan_id \<Rightarrow> event_loop_thread \<Rightarrow> 'a reactor_scheme \<Rightarrow>
    (loop_id \<times> event_loop_thread \<times> 'a reactor_scheme) res" where
  "startLoop os use_poll place e s =
     (case place of (t, l, p) \<Rightarrow>
       rbind (thread_start t (elt_thread e)) (\<lambda>th.
       rbind (mkEventLoop os t use_poll l p s) (\<lambda>s.
       Inr (l, e\<lparr>elt_thread := th, elt_loop := Some l\<rparr>, s))))"

definition thread_name :: "string \<Rightarrow> int \<Rightarrow> string" where
  "thread_name name i = c_str (snprintf_buf (length name + 32) (c_str name @ show_int i))"

text \<open>One round of the \<open>for\<close> loop of \<open>start\<close>; \<open>num\<close> is \<open>Thread::numCreated_\<close> and \<open>place i\<close> where the
  \<open>i\<close>-th thread ends up.\<close>

definition start_one :: "os \<Rightarrow> bool \<Rightarrow> (nat \<Rightarrow> tid \<times> loop_id \<times> chan_id) \<Rightarrow> bool \<Rightarrow> nat \<Rightarrow>
    thread_pool \<times> 32 word \<times> 'a reactor_scheme \<Rightarrow> (thread_pool \<times> 32 word \<times> 'a reactor_scheme) res" where
  "start_one os use_poll place cb i st =
     (case st of (pool, num, s) \<Rightarrow>
       let (e, num) = mkEventLoopThread cb (thread_name (pool_name pool) (int i)) num in
       rbind (startLoop os use_poll (place i) e s) (\<lambda>(l, e, s).
       Inr (pool\<lparr>pool_threads := pool_threads pool @ [e], pool_loops := pool_loops pool @ [l]\<rparr>, num, s)))"

text \<open>\<open>start(cb)\<close>: \<open>init_cb\<close> is what the callback does, \<open>None\<close> an empty one.\<close>

definition pool_start :: "os \<Rightarrow> bool \<Rightarrow> (nat \<Rightarrow> tid \<times> loop_id \<times> chan_id) \<Rightarrow>
    (loop_id \<Rightarrow> 'a reactor_scheme \<Rightarrow> 'a reactor_scheme res) option \<Rightarrow>
    thread_pool \<times> 32 word \<times> 'a reactor_scheme \<Rightarrow> (thread_pool \<times> 32 word \<times> 'a reactor_scheme) res" where
  "pool_start os use_poll place init_cb st =
     (case st of (pool, num, s) \<Rightarrow>
       rbind (foldr_res (start_one os use_poll place (init_cb \<noteq> None)) [0..<nat (numThreads pool)]
           (pool\<lparr>pool_started := True\<rparr>, num, s)) (\<lambda>(pool, num, s).
       if numThreads pool = 0
       then (case init_cb of None \<Rightarrow> Inl BadFunctionCall
             | Some f \<Rightarrow> rbind (f (baseLoop pool) s) (\<lambda>s. Inr (pool, num, s)))
       else Inr (pool, num, s)))"

definition getNextLoop :: "thread_pool \<Rightarrow> (loop_id \<times> thread_pool) res" where
  "getNextLoop pool =
     (if pool_loops pool \<noteq> []
      then if 0 \<le> next_loop pool \<and> next_loop pool < int (length (pool_loops pool))
        then let nxt = next_loop pool + 1 in
          Inr (pool_loops pool ! nat (next_loop pool),
            pool\<lparr>next_loop := if int (length (pool_loops pool)) \<le> nxt then 0 else nxt\<rparr>)
        else Inl HeapOverread
      else Inr (baseLoop pool, pool))"

definition getAllLoops :: "thread_pool \<Rightarrow> loop_id list" where
  "getAllLoops pool = (if pool_loops pool = [] then [baseLoop pool] else pool_loops pool)"

subsection \<open>Taking turns\<close>

text \<open>
  What the server relies on when it hands out connections: each choice yields the next worker in
  a cycle. In a number of choices that is a multiple of the number of workers, every worker is
  chosen equally often.
\<close>

fun picks :: "('p \<Rightarrow> ('l \<times> 'p) res) \<Rightarrow> nat \<Rightarrow> 'p \<Rightarrow> ('l list \<times> 'p) res" where
  "picks pick 0 p = Inr ([], p)"
| "picks pick (Suc n) p = rbind (pick p) (\<lambda>(l, p). rbind (picks pick n p) (\<lambda>(ls, p). Inr (l # ls, p)))"

lemma mset_rotate [simp]: "mset (rotate n xs) = mset xs"
proof (induction n)
  case (Suc n)
  have "mset (rotate1 ys) = mset ys" for ys :: "'a list" by (cases ys) simp_all
  with Suc show ?case by simp
qed simp

locale turn_taking =
  fixes pick :: "'p \<Rightarrow> ('l \<times> 'p) res" and workers :: "'p \<Rightarrow> 'l list" and pos :: "'p \<Rightarrow> nat"
    and ok :: "'p \<Rightarrow> bool"
  assumes pos_bound: "ok p \<Longrightarrow> pos p < length (workers p)"
    and pick_next: "ok p \<Longrightarrow> \<exists>p'. pick p = Inr (workers p ! pos p, p') \<and> ok p' \<and>
      workers p' = workers p \<and> pos p' = Suc (pos p) mod length (workers p)"
begin

lemma picks_cycle:
  assumes "ok p"
  shows "\<exists>p'. picks pick n p =
      Inr (map (\<lambda>i. workers p ! ((pos p + i) mod length (workers p))) [0..<n], p') \<and> ok p' \<and>
    workers p' = workers p \<and> pos p' = (pos p + n) mod length (workers p)"
  using assms
proof (induction n arbitrary: p)
  case 0
  then show ?case using pos_bound by auto
next
  case (Suc n)
  from pick_next [OF Suc.prems] obtain q where q: "pick p = Inr (workers p ! pos p, q)" "ok q"
    "workers q = workers p" "pos q = Suc (pos p) mod length (workers p)" by blast
  from Suc.IH [OF q(2)] obtain r where r: "picks pick n q =
      Inr (map (\<lambda>i. workers p ! ((pos q + i) mod length (workers p))) [0..<n], r)" "ok r"
    "workers r = workers p" "pos r = (pos q + n) mod length (workers p)" unfolding q(3) by blast
  have "(pos q + i) mod length (workers p) = (pos p + Suc i) mod length (workers p)" for i
    by (simp add: q(4) mod_add_left_eq)
  moreover have "pos p mod length (workers p) = pos p" using pos_bound [OF Suc.prems] by simp
  ultimately show ?case using q(1) r
    by (simp add: upt_conv_Cons map_Suc_upt [symmetric] comp_def del: upt_Suc)
qed

lemma rotate_cycle:
  assumes "k < length xs"
  shows "map (\<lambda>i. xs ! ((k + i) mod length xs)) [0..<length xs] = rotate k xs"
  by (rule nth_equalityI) (simp_all add: nth_rotate add.commute)

lemma picks_fair:
  assumes "ok p"
  shows "\<exists>ls p'. picks pick (length (workers p)) p = Inr (ls, p') \<and> mset ls = mset (workers p) \<and> ok p' \<and>
    workers p' = workers p \<and> pos p' = pos p"
proof -
  from picks_cycle [OF assms, of "length (workers p)"] obtain p' where
    p': "picks pick (length (workers p)) p = Inr (rotate (pos p) (workers p), p')" "ok p'"
      "workers p' = workers p" "pos p' = (pos p + length (workers p)) mod length (workers p)"
    using rotate_cycle [OF pos_bound [OF assms]] by auto
  have "pos p' = pos p" using p'(4) pos_bound [OF assms] by simp
  with p' show ?thesis by (metis mset_rotate)
qed

end

definition pool_ok :: "thread_pool \<Rightarrow> bool" where
  "pool_ok pool \<longleftrightarrow> 0 \<le> next_loop pool \<and> next_loop pool < int (length (pool_loops pool))"

interpretation pool: turn_taking getNextLoop pool_loops "\<lambda>pool. nat (next_loop pool)" pool_ok
proof unfold_locales
  fix p
  assume "pool_ok p"
  then have "0 \<le> next_loop p" "next_loop p < int (length (pool_loops p))" by (simp_all add: pool_ok_def)
  then show "nat (next_loop p) < length (pool_loops p)" by linarith
next
  fix p
  assume ok: "pool_ok p"
  define n where "n = nat (next_loop p)"
  have "0 \<le> next_loop p" "next_loop p < int (length (pool_loops p))" using ok by (simp_all add: pool_ok_def)
  then have n: "next_loop p = int n" "n < length (pool_loops p)" unfolding n_def by linarith+
  show "\<exists>p'. getNextLoop p = Inr (pool_loops p ! nat (next_loop p), p') \<and> pool_ok p' \<and>
      pool_loops p' = pool_loops p \<and>
      nat (next_loop p') = Suc (nat (next_loop p)) mod length (pool_loops p)"
  proof (cases "Suc n = length (pool_loops p)")
    case True
    with n show ?thesis by (auto simp: getNextLoop_def pool_ok_def Let_def)
  next
    case False
    with n have "Suc n < length (pool_loops p)" by simp
    with n show ?thesis by (auto simp: getNextLoop_def pool_ok_def Let_def nat_add_distrib)
  qed
qed

subsection \<open>Starting\<close>

lemma thread_name_full:
  assumes "CHR 0x00 \<notin> set name" "0 \<le> i" "i < 2 ^ 31"
  shows "thread_name name i = name @ show_int i"
proof -
  have "length (show_int i) \<le> Suc 10" by (rule show_int_length) (use assms in simp_all)
  then have "length (name @ show_int i) < length name + 32" by simp
  moreover have "CHR 0x00 \<notin> set (name @ show_int i)" using assms(1) show_int_no_zero by simp
  ultimately show ?thesis using assms(1) by (simp add: thread_name_def snprintf_buf_id)
qed

text \<open>The places of the new threads, loops and channels are new and different.\<close>

definition fresh_places :: "(nat \<Rightarrow> tid \<times> loop_id \<times> chan_id) \<Rightarrow> nat \<Rightarrow> nat \<Rightarrow> 'a reactor_scheme \<Rightarrow> bool" where
  "fresh_places place i n s \<longleftrightarrow>
     (\<forall>j \<in> {i..<n}. case place j of (t, l, p) \<Rightarrow> t_loopInthisThread s t = None \<and> chans s p = None \<and>
       (\<forall>q d. chans s q = Some d \<longrightarrow> ch_loop d \<noteq> l)) \<and>
     (\<forall>j \<in> {i..<n}. \<forall>k \<in> {i..<n}. j \<noteq> k \<longrightarrow> (case place j of (t, l, p) \<Rightarrow>
       case place k of (t', l', p') \<Rightarrow> t \<noteq> t' \<and> l \<noteq> l' \<and> p \<noteq> p'))"

definition loop_fds_given :: "os \<Rightarrow> bool" where
  "loop_fds_given os \<longleftrightarrow> epoll_ctl_documented os \<and>
     (\<forall>tr. 0 \<le> ret (os tr EpollCreate) \<and> 0 \<le> ret (os tr EventFd))"

text \<open>A pool after \<open>k\<close> threads: their loops, each in a thread of its own, in the order of creation.\<close>

definition pool_has :: "(nat \<Rightarrow> tid \<times> loop_id \<times> chan_id) \<Rightarrow> nat \<Rightarrow> thread_pool \<Rightarrow> 'a reactor_scheme \<Rightarrow> bool" where
  "pool_has place k pool s \<longleftrightarrow> pool_loops pool = map (\<lambda>i. fst (snd (place i))) [0..<k] \<and>
     map (th_name \<circ> elt_thread) (pool_threads pool) = map (\<lambda>i. pool_name pool @ show_int (int i)) [0..<k] \<and>
     (\<forall>i < k. case place i of (t, l, p) \<Rightarrow> t_loopInthisThread s t = Some l \<and>
        (\<exists>lp. loops s l = Some lp \<and> threadId lp = t))"

text \<open>What starting another loop leaves alone of the loop \<open>b\<close>: all of it.\<close>

definition loop_frame :: "os \<Rightarrow> loop_id \<Rightarrow> 'a reactor_scheme \<Rightarrow> 'a reactor_scheme \<Rightarrow> bool" where
  "loop_frame os b s s' \<longleftrightarrow> loops s' b = loops s b \<and>
     (\<forall>q d. ch_loop d = b \<longrightarrow> (chans s' q = Some d \<longleftrightarrow> chans s q = Some d)) \<and>
     (\<forall>ep. (\<forall>tr. ret (os tr EpollCreate) \<noteq> ep) \<longrightarrow> interest_of ep (io_trace s') = interest_of ep (io_trace s))"

lemma loop_frame_refl [simp]: "loop_frame os b s s"
  by (simp add: loop_frame_def)

lemma loop_frame_trans: "loop_frame os b s t \<Longrightarrow> loop_frame os b t u \<Longrightarrow> loop_frame os b s u"
  by (simp add: loop_frame_def)

lemma reg_inv_loop_frame:
  assumes reg: "reg_inv os b s" and fr: "loop_frame os b s s'" and lp: "loops s b = Some lp" "loop_poller lp = Some pl"
    and old: "\<And>tr. ret (os tr EpollCreate) \<noteq> epollfd pl"
  shows "reg_inv os b s'"
proof -
  have "same_chans b s s'" using fr by (auto simp: loop_frame_def same_chans_def)
  moreover have "loops s' b = Some lp" "interest_of (epollfd pl) (io_trace s') = interest_of (epollfd pl) (io_trace s)"
    using fr lp(1) old by (simp_all add: loop_frame_def)
  ultimately show ?thesis using reg_inv_cong [OF reg lp] lp(2) by blast
qed

lemma start_one_ok:
  assumes os: "loop_fds_given os" and fresh: "fresh_places place 0 n s0"
    and frame: "\<forall>j \<in> {i..<n}. case place j of (t, l, p) \<Rightarrow> t_loopInthisThread s t = None \<and> chans s p = None \<and>
       (\<forall>q d. chans s q = Some d \<longrightarrow> ch_loop d \<noteq> l)"
    and has: "pool_has place i pool s" and i: "i < n" "n \<le> 2 ^ 31" and nm: "CHR 0x00 \<notin> set (pool_name pool)" "pool_name pool \<noteq> []"
  shows "\<exists>pool' num' s'. start_one os False place cb i (pool, num, s) = Inr (pool', num', s') \<and>
    pool_has place (Suc i) pool' s' \<and> pool_name pool' = pool_name pool \<and> numThreads pool' = numThreads pool \<and>
    next_loop pool' = next_loop pool \<and> pool_started pool' = pool_started pool \<and>
    (\<forall>j \<in> {Suc i..<n}. case place j of (t, l, p) \<Rightarrow> t_loopInthisThread s' t = None \<and> chans s' p = None \<and>
       (\<forall>q d. chans s' q = Some d \<longrightarrow> ch_loop d \<noteq> l)) \<and>
    (\<forall>b. b \<noteq> fst (snd (place i)) \<longrightarrow> loop_frame os b s s')"
proof -
  obtain t l p where pl: "place i = (t, l, p)" by (cases "place i")
  have new: "new_loop_ok os t l p s"
    using os bspec [OF frame, of i] i(1) by (auto simp: new_loop_ok_def loop_fds_given_def pl)
  from mkEventLoop_chans [OF new] obtain s' lp c where s': "mkEventLoop os t False l p s = Inr s'"
    "loops s' = (loops s)(l := Some lp)" "threadId lp = t"
    "t_loopInthisThread s' = (t_loopInthisThread s)(t := Some l)" "chans s' = (chans s)(p := Some c)" "ch_loop c = l"
    "\<forall>ep. (\<forall>tr. ret (os tr EpollCreate) \<noteq> ep) \<longrightarrow> interest_of ep (io_trace s') = interest_of ep (io_trace s)"
    by (elim exE conjE) (rule that)
  have diff: "t \<noteq> t' \<and> l \<noteq> l' \<and> p \<noteq> p'" if "place j = (t', l', p')" "j < n" "j \<noteq> i" for j t' l' p'
    using fresh that i(1) pl unfolding fresh_places_def by fastforce
  define e where "e = fst (mkEventLoopThread cb (thread_name (pool_name pool) (int i)) num)"
  have e: "th_handle (elt_thread e) = None" "th_name (elt_thread e) = pool_name pool @ show_int (int i)"
    using thread_name_full [OF nm(1), of "int i"] i nm(2)
    by (auto simp: e_def mkEventLoopThread_def mkThread_def setDefaultName_def split_beta Let_def)
  let ?th = "(elt_thread e)\<lparr>th_started := True, th_handle := Some True, th_tid := t\<rparr>"
  let ?pool = "pool\<lparr>pool_threads := pool_threads pool @ [e\<lparr>elt_thread := ?th, elt_loop := Some l\<rparr>],
      pool_loops := pool_loops pool @ [l]\<rparr>"
  have run: "start_one os False place cb i (pool, num, s) =
      Inr (?pool, snd (mkEventLoopThread cb (thread_name (pool_name pool) (int i)) num), s')"
    using s'(1) e(1) by (simp add: start_one_def startLoop_def pl split_beta Let_def e_def [symmetric] thread_start_def)
  have "pool_has place (Suc i) ?pool s'"
    unfolding pool_has_def
  proof (intro conjI allI impI)
    fix j assume j: "j < Suc i"
    show "case place j of (t, l, p) \<Rightarrow> t_loopInthisThread s' t = Some l \<and>
        (\<exists>lp. loops s' l = Some lp \<and> threadId lp = t)"
    proof (cases "j = i")
      case True
      with s' pl show ?thesis by simp
    next
      case False
      obtain t' l' p' where pj: "place j = (t', l', p')" by (cases "place j")
      have "t_loopInthisThread s t' = Some l' \<and> (\<exists>lp. loops s l' = Some lp \<and> threadId lp = t')"
      proof -
        have "j < i" using False j by simp
        with has have "case place j of (t, l, p) \<Rightarrow> t_loopInthisThread s t = Some l \<and>
            (\<exists>lp. loops s l = Some lp \<and> threadId lp = t)" by (simp add: pool_has_def)
        then show ?thesis by (simp add: pj)
      qed
      with diff [OF pj] False j i(1) s' pj show ?thesis by auto
    qed
  qed (use has pl e(2) in \<open>auto simp: pool_has_def\<close>)
  moreover have "case place j of (t, l, p) \<Rightarrow> t_loopInthisThread s' t = None \<and> chans s' p = None \<and>
       (\<forall>q d. chans s' q = Some d \<longrightarrow> ch_loop d \<noteq> l)" if "j \<in> {Suc i..<n}" for j
  proof -
    obtain t' l' p' where pj: "place j = (t', l', p')" by (cases "place j")
    with bspec [OF frame, of j] that have "t_loopInthisThread s t' = None" "chans s p' = None"
      "\<forall>q d. chans s q = Some d \<longrightarrow> ch_loop d \<noteq> l'" by simp_all
    with diff [OF pj] that s'(4-6) pj show ?thesis by auto
  qed
  moreover have "loop_frame os b s s'" if "b \<noteq> fst (snd (place i))" for b
    using that s'(2,5,6,7) new pl by (auto simp: loop_frame_def new_loop_ok_def)
  ultimately show ?thesis using run by auto
qed

lemma start_rounds:
  assumes "loop_fds_given os" "fresh_places place 0 n s0" "n \<le> 2 ^ 31"
    "CHR 0x00 \<notin> set (pool_name pool)" "pool_name pool \<noteq> []" "k \<le> n" "pool_has place 0 pool s0"
  shows "\<exists>pool' num' s'. foldr_res (start_one os False place cb) [0..<k] (pool, num, s0) = Inr (pool', num', s') \<and>
    pool_has place k pool' s' \<and> pool_name pool' = pool_name pool \<and> numThreads pool' = numThreads pool \<and>
    next_loop pool' = next_loop pool \<and> pool_started pool' = pool_started pool \<and>
    (\<forall>j \<in> {k..<n}. case place j of (t, l, p) \<Rightarrow> t_loopInthisThread s' t = None \<and> chans s' p = None \<and>
       (\<forall>q d. chans s' q = Some d \<longrightarrow> ch_loop d \<noteq> l)) \<and>
    (\<forall>b. b \<notin> (\<lambda>i. fst (snd (place i))) ` {..<k} \<longrightarrow> loop_frame os b s0 s')"
  using assms(6)
proof (induction k)
  case 0
  then show ?case using assms(2,7) by (simp add: fresh_places_def)
next
  case (Suc k)
  then obtain pool1 num1 s1 where p1: "foldr_res (start_one os False place cb) [0..<k] (pool, num, s0) = Inr (pool1, num1, s1)"
    "pool_has place k pool1 s1" "pool_name pool1 = pool_name pool" "numThreads pool1 = numThreads pool"
    "next_loop pool1 = next_loop pool" "pool_started pool1 = pool_started pool"
    "\<forall>j \<in> {k..<n}. case place j of (t, l, p) \<Rightarrow> t_loopInthisThread s1 t = None \<and> chans s1 p = None \<and>
       (\<forall>q d. chans s1 q = Some d \<longrightarrow> ch_loop d \<noteq> l)"
    "\<forall>b. b \<notin> (\<lambda>i. fst (snd (place i))) ` {..<k} \<longrightarrow> loop_frame os b s0 s1" by auto
  have "k < n" using Suc.prems by simp
  from start_one_ok [OF assms(1,2) p1(7,2) this assms(3) assms(4,5) [folded p1(3)], of cb num1]
  obtain pool2 num2 s2 where p2: "start_one os False place cb k (pool1, num1, s1) = Inr (pool2, num2, s2)"
    "pool_has place (Suc k) pool2 s2" "pool_name pool2 = pool_name pool1" "numThreads pool2 = numThreads pool1"
    "next_loop pool2 = next_loop pool1" "pool_started pool2 = pool_started pool1"
    "\<forall>j \<in> {Suc k..<n}. case place j of (t, l, p) \<Rightarrow> t_loopInthisThread s2 t = None \<and> chans s2 p = None \<and>
       (\<forall>q d. chans s2 q = Some d \<longrightarrow> ch_loop d \<noteq> l)"
    "\<forall>b. b \<noteq> fst (snd (place k)) \<longrightarrow> loop_frame os b s1 s2" by (elim exE conjE) (rule that)
  have "foldr_res (start_one os False place cb) [0..<Suc k] (pool, num, s0) = Inr (pool2, num2, s2)"
    using p1(1) p2(1) by (simp add: foldr_res_append)
  moreover have "loop_frame os b s0 s2" if "b \<notin> (\<lambda>i. fst (snd (place i))) ` {..<Suc k}" for b
    using that p1(8) p2(8) by (intro loop_frame_trans [of os b s0 s1 s2]) (auto simp: lessThan_Suc)
  ultimately show ?case using p1(3-6) p2(2-7) by (intro exI [of _ pool2] exI [of _ num2] exI [of _ s2]) simp
qed

lemma pool_starts:
  assumes "loop_fds_given os" "fresh_places place 0 n s" "0 < n" "n \<le> 2 ^ 31"
    "CHR 0x00 \<notin> set name" "name \<noteq> []"
  shows "\<exists>pool num' s'. pool_start os False place cb ((mkThreadPool base name)\<lparr>numThreads := int n\<rparr>, num, s)
      = Inr (pool, num', s') \<and>
    pool_started pool \<and> pool_loops pool = map (\<lambda>i. fst (snd (place i))) [0..<n] \<and> pool_ok pool \<and> next_loop pool = 0 \<and>
    map (th_name \<circ> elt_thread) (pool_threads pool) = map (\<lambda>i. name @ show_int (int i)) [0..<n] \<and>
    (\<forall>i < n. case place i of (t, l, p) \<Rightarrow> t_loopInthisThread s' t = Some l \<and>
       (\<exists>lp. loops s' l = Some lp \<and> threadId lp = t)) \<and>
    (\<forall>b. b \<notin> (\<lambda>i. fst (snd (place i))) ` {..<n} \<longrightarrow> loop_frame os b s s')"
proof -
  let ?p0 = "(mkThreadPool base name)\<lparr>numThreads := int n, pool_started := True\<rparr>"
  have "pool_has place 0 ?p0 s" by (simp add: pool_has_def mkThreadPool_def)
  from start_rounds [OF assms(1,2,4) _ _ order_refl this, of "cb \<noteq> None" num] assms(5,6)
  obtain pool num' s' where p: "foldr_res (start_one os False place (cb \<noteq> None)) [0..<n] (?p0, num, s) = Inr (pool, num', s')"
    "pool_has place n pool s'" "pool_name pool = name" "numThreads pool = int n" "next_loop pool = 0" "pool_started pool"
    "\<forall>b. b \<notin> (\<lambda>i. fst (snd (place i))) ` {..<n} \<longrightarrow> loop_frame os b s s'"
    by (auto simp: mkThreadPool_def)
  then have "pool_start os False place cb ((mkThreadPool base name)\<lparr>numThreads := int n\<rparr>, num, s) = Inr (pool, num', s')"
    using assms(3) by (simp add: pool_start_def)
  then show ?thesis using p(2,3,5,6,7) assms(3) by (simp add: pool_has_def pool_ok_def)
qed

subsection \<open>Properties\<close>

text \<open>
  C18: starting a pool of \<open>n\<close> threads, \<open>n\<close> positive, with a kernel that gives out descriptors: no
  fault; the pool holds \<open>n\<close> loops, in the order of creation, each belonging to a thread of its
  own; the threads are named after the pool with their number, never cut off; and the first
  loop to be handed out is the first.
\<close>

theorem thread_pool_starts:
  assumes "loop_fds_given os" "fresh_places place 0 n s" "0 < n" "n \<le> 2 ^ 31"
    "CHR 0x00 \<notin> set name" "name \<noteq> []"
  shows "\<exists>pool num' s'. pool_start os False place cb ((mkThreadPool base name)\<lparr>numThreads := int n\<rparr>, num, s)
      = Inr (pool, num', s') \<and>
    pool_started pool \<and> pool_loops pool = map (\<lambda>i. fst (snd (place i))) [0..<n] \<and> pool_ok pool \<and> next_loop pool = 0 \<and>
    map (th_name \<circ> elt_thread) (pool_threads pool) = map (\<lambda>i. name @ show_int (int i)) [0..<n] \<and>
    (\<forall>i < n. case place i of (t, l, p) \<Rightarrow> t_loopInthisThread s' t = Some l \<and>
       (\<exists>lp. loops s' l = Some lp \<and> threadId lp = t))"
  using pool_starts [OF assms] by blast

lemma plain_os_gives_fds: "loop_fds_given plain_os"
  using plain_os_documented by (simp add: loop_fds_given_def) (simp add: plain_os_def ret_val_def)

theorem thread_pool_starts_witness:
  "\<exists>pool num' s'. pool_start plain_os False (\<lambda>i. (int i + 2, i + 1, i + 1)) None
      ((mkThreadPool 0 ''srv'')\<lparr>numThreads := 2\<rparr>, 0, reactor0) = Inr (pool, num', s') \<and> pool_loops pool = [1, 2]"
proof -
  have "fresh_places (\<lambda>i. (int i + 2, i + 1, i + 1)) 0 2 reactor0"
    by (auto simp: fresh_places_def reactor0_def)
  from thread_pool_starts [OF plain_os_gives_fds this, of "''srv''" None 0 0] obtain pool num' s' where
    "pool_start plain_os False (\<lambda>i. (int i + 2, i + 1, i + 1)) None
      ((mkThreadPool 0 ''srv'')\<lparr>numThreads := int 2\<rparr>, 0, reactor0) = Inr (pool, num', s')"
    "pool_loops pool = map (\<lambda>i. fst (snd (int i + 2, i + 1, i + 1))) [0..<2]" by auto
  then show ?thesis by (simp add: upt_rec)
qed

text \<open>
  C17: the loops take turns. From any position in the cycle, as many calls of \<open>getNextLoop\<close> as there
  are loops succeed, hand out every loop exactly once, and end at the same position.
\<close>

theorem loops_take_turns:
  assumes "pool_ok pool"
  shows "\<exists>ls pool'. picks getNextLoop (length (pool_loops pool)) pool = Inr (ls, pool') \<and>
    mset ls = mset (pool_loops pool) \<and> pool_ok pool' \<and> pool_loops pool' = pool_loops pool \<and>
    nat (next_loop pool') = nat (next_loop pool)"
  using assms by (rule pool.picks_fair)

theorem loops_take_turns_witness:
  "\<exists>ls pool'. picks getNextLoop 3 ((mkThreadPool 0 ''srv'')\<lparr>pool_loops := [4, 5, 6], next_loop := 1\<rparr>) = Inr (ls, pool') \<and>
    mset ls = {#4, 5, 6#}"
proof -
  have "pool_ok ((mkThreadPool 0 ''srv'')\<lparr>pool_loops := [4, 5, 6], next_loop := 1\<rparr>)"
    by (simp add: pool_ok_def)
  from loops_take_turns [OF this] show ?thesis by (auto simp: numeral_3_eq_3)
qed

end
