(* ===== verification/LoopTurns.thy ===== *)
theory LoopTurns
  imports TcpConnection
begin

section \<open>Whole turns of a loop\<close>

text \<open>
  What every callback and every functor keeps, a whole turn of a loop (\<open>EventLoop::loop\<close>) keeps:
  the poll, the dispatch of the active channels, \<open>doPendingFunctors\<close>. Relations that only look at
  the identity of connections are also kept by \<open>connectEstablished\<close>. The theories above use these
  lemmas with the relations of the server.
\<close>

lemma upd_loop_net [frame_rules]: "upd_loop l f s = Inr s' \<Longrightarrow> net_frame s s'"
  by (rule net_frame_more) (auto simp: upd_loop_eq_Inr)

lemma upd_chan_net [frame_rules]: "upd_chan p f s = Inr s' \<Longrightarrow> net_frame s s'"
  by (rule net_frame_more) (auto simp: upd_chan_eq_Inr)

lemma poll_phase_net [frame_rules]:
  assumes "poll_phase os me l s = Inr (active, now, s')" shows "net_frame s s'"
proof -
  from assms obtain s1 pl pl' s2 where s: "upd_loop l (\<lambda>lp. lp\<lparr>activeChannels := []\<rparr>) s = Inr s1"
      "poller_poll os me pl kPollTimeMS s1 = Inr (pl', active, now, s2)"
      "upd_loop l (\<lambda>lp. lp\<lparr>loop_poller := Some pl', activeChannels := active, pollReturnTime := now\<rparr>) s2 = Inr s'"
    by (auto simp: poll_phase_def rbind_eq_Inr)
  note upd_loop_net [OF s(1)]
  also note poller_frame_net [OF poller_poll_frame [OF s(2)]]
  also note upd_loop_net [OF s(3)]
  finally show ?thesis .
qed

lemma swap_pending_net [frame_rules]: "swap_pending l s = Inr (fs, s') \<Longrightarrow> net_frame s s'"
  by (rule net_frame_more) (auto simp: swap_pending_def rbind_eq_Inr)

context net_relation
begin

lemma runInLoop_advances: "advances R (run f) \<Longrightarrow> advances R (runInLoop os me run l f)"
  unfolding runInLoop_def by (intro advances_rules)

lemma foldr_res_advances:
  assumes "\<And>x. advances R (f x)" shows "advances R (foldr_res f xs)"
proof -
  have "R s t" if "foldr_res f xs s = Inr t" for s t
    by (rule foldr_res_inv [OF that, where P = "R s"]) (auto intro: R_trans advancesD [OF assms])
  then show ?thesis by (simp add: advances_def)
qed

lemma handleEvent_advances:
  assumes "\<And>cb t. advances R (run cb t)" shows "advances R (handleEvent alive run p t)"
proof -
  have call: "advances R (call_if run t b cb)" for b cb
    using assms by (cases cb) (simp_all add: call_if_def advances_def)
  then have guard: "advances R (handleEventWithGuard run p t)"
    unfolding handleEventWithGuard_def by (intro advances_rules)
  have "advances R (\<lambda>s. case w of None \<Rightarrow> Inr s
      | Some obj \<Rightarrow> if alive obj s then handleEventWithGuard run p t s else Inr s)" for w
    using guard by (cases w) (auto simp: advances_def)
  with guard show ?thesis unfolding handleEvent_def by (intro advances_rules)
qed

lemma doPendingFunctors_advances:
  assumes "\<And>f. advances R (run f)" "\<And>fs. advances R (destroy fs)"
  shows "advances R (doPendingFunctors run destroy l)"
  unfolding advances_def
proof (intro allI impI)
  fix s s' assume "doPendingFunctors run destroy l s = Inr s'"
  then obtain s1 fs s2 s3 s4 where s: "set_calling True l s = Inr s1" "swap_pending l s1 = Inr (fs, s2)"
    "foldr_res run fs s2 = Inr s3" "set_calling False l s3 = Inr s4" "destroy fs s4 = Inr s'"
    unfolding doPendingFunctors_def rbind_eq_Inr split_paired_Ex case_prod_conv by (elim exE conjE) (rule that)
  have "R s s1" using s(1) unfolding set_calling_def by (intro R_frame upd_loop_net)
  moreover have "R s1 s2" by (rule R_frame [OF swap_pending_net [OF s(2)]])
  moreover have "R s2 s3" by (rule advancesD [OF foldr_res_advances [OF assms(1)] s(3)])
  moreover have "R s3 s4" using s(4) unfolding set_calling_def by (intro R_frame upd_loop_net)
  moreover have "R s4 s'" by (rule advancesD [OF assms(2) s(5)])
  ultimately show "R s s'" by (blast intro: R_trans)
qed

lemma loop_turn_advances:
  assumes "\<And>cb t. advances R (run_cb cb t)" "\<And>f. advances R (run f)" "\<And>fs. advances R (destroy fs)"
  shows "advances R (loop_turn os me alive run_cb run destroy l)"
  unfolding advances_def
proof (intro allI impI)
  fix s s' assume "loop_turn os me alive run_cb run destroy l s = Inr s'"
  then obtain active now s1 s2 where s: "poll_phase os me l s = Inr (active, now, s1)"
    "foldr_res (\<lambda>p. handleEvent alive run_cb p now) active s1 = Inr s2" "doPendingFunctors run destroy l s2 = Inr s'"
    unfolding loop_turn_def rbind_eq_Inr split_paired_Ex case_prod_conv by (elim exE conjE) (rule that)
  have "R s s1" by (rule R_frame [OF poll_phase_net [OF s(1)]])
  moreover have "R s1 s2"
    by (rule advancesD [OF foldr_res_advances s(2)]) (rule handleEvent_advances [OF assms(1)])
  moreover have "R s2 s'" by (rule advancesD [OF doPendingFunctors_advances [OF assms(2,3)] s(3)])
  ultimately show "R s s'" by (blast intro: R_trans)
qed

end

locale net_ident_relation = net_relation +
  assumes R_ident: "conns s c = Some cn \<Longrightarrow> conn_ident cn' = conn_ident cn \<Longrightarrow> bufs_le cn cn' \<Longrightarrow> R s (put_conn c cn' s)"
begin

lemma connectEstablished_advances: "advances R (connectEstablished os me uc c)"
proof -
  have "advances R (setState kConnected c)"
    by (auto simp: advances_def setState_def upd_conn_eq_Inr conn_ident_def bufs_le_def intro!: R_ident)
  moreover have "advances R (upd_chan p f)" for p f
    by (auto simp: advances_def intro: R_frame upd_chan_net)
  ultimately show ?thesis
    unfolding connectEstablished_def by (intro advances_rules call_cb_advances)
qed

lemma any_functor_advances:
  assumes "\<And>f. advances R (rest f)" shows "advances R (run_conn_functor os me uc rest f)"
proof (cases "\<exists>c. f = ConnectEstablished c")
  case True
  then show ?thesis using connectEstablished_advances by (auto simp: advances_def)
next
  case False
  then show ?thesis by (intro run_conn_functor_advances assms) blast
qed

end

end
