(* ===== verification/TcpServer.thy ===== *)
theory TcpServer
  imports Acceptor EventLoopThreadPool LoopTurns
begin

section \<open>The server (TcpServer.h, TcpServer.cpp)\<close>

text \<open>
  The server owns the acceptor, the thread pool and, by name, its connections. A new connection is
  given to the next loop of the pool; a closed one is removed in the base loop and destroyed in
  its own. A connection lives as long as the map or a queued closure holds a reference to it.
\<close>

subsection \<open>State\<close>

text \<open>\<open>connections_\<close> is the list of the entries of the unordered map; \<open>started_\<close> wraps like an atomic int.\<close>

record tcpserver =
  srv_loop :: loop_id
  ipPort :: string
  srv_name :: string
  srv_acceptor :: acceptor
  srv_pool :: thread_pool
  srvConnectionCb :: bool
  srvMessageCb :: bool
  srvWriteCb :: bool
  srvThreadInitCb :: bool
  srv_started :: "32 word"
  nextConnId :: int
  connections :: "(string \<times> conn_id) list"

text \<open>One server, with the counters that addresses of new connections and channels come from.\<close>

record server_net = net +
  srv :: tcpserver
  numCreated :: "32 word"
  next_conn :: conn_id
  next_chan :: chan_id

definition put_srv :: "tcpserver \<Rightarrow> 'a server_net_scheme \<Rightarrow> 'a server_net_scheme" where
  "put_srv sv s = s\<lparr>srv := sv\<rparr>"

subsection \<open>Construction\<close>

definition mkTcpServer :: "os \<Rightarrow> tid \<Rightarrow> loop_id option \<Rightarrow> inet_address \<Rightarrow> string \<Rightarrow> bool \<Rightarrow>
    'a server_net_scheme \<Rightarrow> 'a server_net_scheme res" where
  "mkTcpServer os me lo listenAddr name reuse s =
     rbind (CheckLoopNotNull lo) (\<lambda>l.
     rbind (mkAcceptor os me l listenAddr reuse (next_chan s) s) (\<lambda>(a, s).
     Inr (s\<lparr>next_chan := Suc (next_chan s),
       srv := \<lparr>srv_loop = l, ipPort = toIpPort listenAddr, srv_name = name,
         srv_acceptor = a\<lparr>hasNewConnectionCb := True\<rparr>, srv_pool = mkThreadPool l name,
         srvConnectionCb = False, srvMessageCb = False, srvWriteCb = False, srvThreadInitCb = False,
         srv_started = 0, nextConnId = 1, connections = []\<rparr>\<rparr>)))"

definition setThreadNum :: "int \<Rightarrow> tcpserver \<Rightarrow> tcpserver" where
  "setThreadNum n sv = sv\<lparr>srv_pool := (srv_pool sv)\<lparr>numThreads := n\<rparr>\<rparr>"

definition setConnectionCallback :: "bool \<Rightarrow> tcpserver \<Rightarrow> tcpserver" where
  "setConnectionCallback cb sv = sv\<lparr>srvConnectionCb := cb\<rparr>"

definition setMessageCallback :: "bool \<Rightarrow> tcpserver \<Rightarrow> tcpserver" where
  "setMessageCallback cb sv = sv\<lparr>srvMessageCb := cb\<rparr>"

definition setWriteCallback :: "bool \<Rightarrow> tcpserver \<Rightarrow> tcpserver" where
  "setWriteCallback cb sv = sv\<lparr>srvWriteCb := cb\<rparr>"

definition setThreadInitCallback :: "bool \<Rightarrow> tcpserver \<Rightarrow> tcpserver" where
  "setThreadInitCallback cb sv = sv\<lparr>srvThreadInitCb := cb\<rparr>"

declare setThreadNum_def [setter_defs] setConnectionCallback_def [setter_defs] setMessageCallback_def [setter_defs]
  setWriteCallback_def [setter_defs] setThreadInitCallback_def [setter_defs]

subsection \<open>Connections come and go\<close>

text \<open>The name: \<open>char buf[64]\<close> filled by \<open>snprintf\<close> and appended to the server's name.\<close>

definition conn_suffix :: "string \<Rightarrow> int \<Rightarrow> string" where
  "conn_suffix ip_port n = c_str (snprintf_buf 64 (''-'' @ c_str ip_port @ ''#'' @ show_int n))"

definition INT_MAX :: int where "INT_MAX = 2 ^ 31 - 1"

definition erase_conn :: "string \<Rightarrow> (string \<times> conn_id) list \<Rightarrow> (string \<times> conn_id) list" where
  "erase_conn nm cs = filter (\<lambda>(n, c). n \<noteq> nm) cs"

definition newConnection :: "os \<Rightarrow> tid \<Rightarrow> (Functor \<Rightarrow> 'a server_net_scheme \<Rightarrow> 'a server_net_scheme res) \<Rightarrow>
    int \<Rightarrow> inet_address \<Rightarrow> 'a server_net_scheme \<Rightarrow> 'a server_net_scheme res" where
  "newConnection os me run sockfd peer s =
     rbind (getNextLoop (srv_pool (srv s))) (\<lambda>(ioloop, pool).
     if nextConnId (srv s) = INT_MAX then Inl SignedOverflow
     else
       let connName = srv_name (srv s) @ conn_suffix (ipPort (srv s)) (nextConnId (srv s));
           s = put_srv ((srv s)\<lparr>srv_pool := pool, nextConnId := nextConnId (srv s) + 1\<rparr>) s;
           (r, s) = do_call os me (GetSockName sockfd) s;
           local = sockaddr_of (if ret r = 0 then rdata r else []);
           c = next_conn s; p = next_chan s;
           s = s\<lparr>next_conn := Suc c, next_chan := Suc p\<rparr> in
       rbind (mkTcpConnection os me (Some ioloop) connName sockfd local peer c p s) (\<lambda>s.
       let s = put_srv ((srv s)\<lparr>connections := (connName, c) # erase_conn connName (connections (srv s))\<rparr>) s in
       rbind (upd_conn c (\<lambda>cn. conn_setCloseCallback True (conn_setWriteCallback (srvWriteCb (srv s))
           (conn_setMessageCallback (srvMessageCb (srv s)) (conn_setConnectionCallback (srvConnectionCb (srv s)) cn)))) s) (\<lambda>s.
       runInLoop os me run ioloop (ConnectEstablished c) s)))"

definition removeConnection :: "os \<Rightarrow> tid \<Rightarrow> (Functor \<Rightarrow> 'a server_net_scheme \<Rightarrow> 'a server_net_scheme res) \<Rightarrow>
    conn_id \<Rightarrow> 'a server_net_scheme \<Rightarrow> 'a server_net_scheme res" where
  "removeConnection os me run c s = runInLoop os me run (srv_loop (srv s)) (RemoveConnectionInLoop c) s"

definition removeConnectionInLoop :: "os \<Rightarrow> tid \<Rightarrow> conn_id \<Rightarrow> 'a server_net_scheme \<Rightarrow> 'a server_net_scheme res" where
  "removeConnectionInLoop os me c s =
     rbind (get_conn s c) (\<lambda>cn.
     queueInLoop os me (conn_loop cn) (ConnectDestroyed c)
       (put_srv ((srv s)\<lparr>connections := erase_conn (conn_name cn) (connections (srv s))\<rparr>) s))"

subsection \<open>What the closures of the server do\<close>

definition server_listen :: "os \<Rightarrow> tid \<Rightarrow> 'a server_net_scheme \<Rightarrow> 'a server_net_scheme res" where
  "server_listen os me s = rbind (acceptor_listen os me (srv_acceptor (srv s)) s) (\<lambda>(a, s).
     Inr (put_srv ((srv s)\<lparr>srv_acceptor := a\<rparr>) s))"

fun server_rest :: "os \<Rightarrow> tid \<Rightarrow> Functor \<Rightarrow> 'a server_net_scheme \<Rightarrow> 'a server_net_scheme res" where
  "server_rest os me AcceptorListen s = server_listen os me s"
| "server_rest os me (RemoveConnectionInLoop c) s = removeConnectionInLoop os me c s"
| "server_rest os me _ s = Inr s"

definition server_run :: "os \<Rightarrow> tid \<Rightarrow> user_code \<Rightarrow> Functor \<Rightarrow> 'a server_net_scheme \<Rightarrow> 'a server_net_scheme res" where
  "server_run os me uc = run_conn_functor os me uc (server_rest os me)"

definition server_accept :: "os \<Rightarrow> tid \<Rightarrow> user_code \<Rightarrow> inet_address \<Rightarrow> int \<Rightarrow> 'a server_net_scheme \<Rightarrow> 'a server_net_scheme res" where
  "server_accept os me uc default_peer t s =
     acceptor_handleRead os me (newConnection os me (server_run os me uc)) default_peer (srv_acceptor (srv s)) s"

definition server_cb :: "os \<Rightarrow> tid \<Rightarrow> user_code \<Rightarrow> inet_address \<Rightarrow> channel_cb \<Rightarrow> int \<Rightarrow> 'a server_net_scheme \<Rightarrow> 'a server_net_scheme res" where
  "server_cb os me uc default_peer =
     run_conn_cb os me uc (removeConnection os me (server_run os me uc)) (server_accept os me uc default_peer)"

subsection \<open>Starting\<close>

text \<open>\<open>start\<close>: the pool is started with \<open>threadInitCallback_\<close>, then the acceptor listens.\<close>

definition server_start :: "os \<Rightarrow> tid \<Rightarrow> user_code \<Rightarrow> bool \<Rightarrow> (nat \<Rightarrow> tid \<times> loop_id \<times> chan_id) \<Rightarrow>
    (loop_id \<Rightarrow> 'a server_net_scheme \<Rightarrow> 'a server_net_scheme res) \<Rightarrow>
    'a server_net_scheme \<Rightarrow> 'a server_net_scheme res" where
  "server_start os me uc use_poll place init_cb s =
     (let started = srv_started (srv s);
          s = put_srv ((srv s)\<lparr>srv_started := started + 1\<rparr>) s in
      if started = 0
      then
        rbind (pool_start os use_poll place (if srvThreadInitCb (srv s) then Some init_cb else None)
            (srv_pool (srv s), numCreated s, s)) (\<lambda>(pool, num, s).
        let s = put_srv ((srv s)\<lparr>srv_pool := pool\<rparr>) (s\<lparr>numCreated := num\<rparr>) in
        runInLoop os me (server_run os me uc) (srv_loop (srv s)) AcceptorListen s)
      else Inr s)"

subsection \<open>References\<close>

text \<open>A connection is owned by the map and by the closures queued in the server's loops.\<close>

definition server_loops :: "tcpserver \<Rightarrow> loop_id list" where
  "server_loops sv = srv_loop sv # pool_loops (srv_pool sv)"

definition queued_in :: "'a server_net_scheme \<Rightarrow> loop_id \<Rightarrow> Functor list" where
  "queued_in s l = (case loops s l of None \<Rightarrow> [] | Some lp \<Rightarrow> pendingFunctors lp)"

definition owned :: "conn_id \<Rightarrow> 'a server_net_scheme \<Rightarrow> bool" where
  "owned c s \<longleftrightarrow> c \<in> snd ` set (connections (srv s)) \<or>
     Some c \<in> functor_owner ` set (concat (map (queued_in s) (server_loops (srv s))))"

text \<open>One reference goes; \<open>P\<close> are the connections that closures outside the queues still hold.\<close>

definition release :: "os \<Rightarrow> tid \<Rightarrow> conn_id set \<Rightarrow> conn_id \<Rightarrow> 'a server_net_scheme \<Rightarrow> 'a server_net_scheme res" where
  "release os me P c s =
     (if conns s c = None \<or> owned c s \<or> c \<in> P then Inr s else closeTcpConnection os me c s)"

text \<open>The batch of functors that was run is destroyed in its order, and with it its references.\<close>

definition owners :: "Functor list \<Rightarrow> conn_id list" where
  "owners fs = List.map_filter functor_owner fs"

fun drop_list :: "os \<Rightarrow> tid \<Rightarrow> conn_id list \<Rightarrow> 'a server_net_scheme \<Rightarrow> 'a server_net_scheme res" where
  "drop_list os me [] s = Inr s"
| "drop_list os me (c # cs) s = rbind (release os me (set cs) c s) (drop_list os me cs)"

definition drop_refs :: "os \<Rightarrow> tid \<Rightarrow> Functor list \<Rightarrow> 'a server_net_scheme \<Rightarrow> 'a server_net_scheme res" where
  "drop_refs os me fs s = drop_list os me (owners fs) s"

definition server_turn :: "os \<Rightarrow> tid \<Rightarrow> user_code \<Rightarrow> inet_address \<Rightarrow> loop_id \<Rightarrow> 'a server_net_scheme \<Rightarrow> 'a server_net_scheme res" where
  "server_turn os me uc default_peer l s =
     loop_turn os me (\<lambda>c s. conns s c \<noteq> None) (server_cb os me uc default_peer) (server_run os me uc)
       (drop_refs os me) l s"

text \<open>\<open>~TcpServer\<close>: every connection is destroyed in its loop, then the acceptor goes. The threads of
  the pool are joined by their own destructors (theory EventLoopThread).\<close>

definition closeTcpServer :: "os \<Rightarrow> tid \<Rightarrow> user_code \<Rightarrow> 'a server_net_scheme \<Rightarrow> 'a server_net_scheme res" where
  "closeTcpServer os me uc s =
     rbind (foldr_res (\<lambda>(n, c) s.
         rbind (get_conn s c) (\<lambda>cn.
         rbind (runInLoop os me (server_run os me uc) (conn_loop cn) (ConnectDestroyed c)
           (put_srv ((srv s)\<lparr>connections := erase_conn n (connections (srv s))\<rparr>) s)) (\<lambda>s.
         release os me {} c s))) (connections (srv s)) s) (\<lambda>s.
     closeAcceptor os me (srv_acceptor (srv s)) s)"

subsection \<open>Names\<close>

lemma digit_set: "set (show_nat n) \<subseteq> char_of ` {48 .. 57::nat}"
  using show_nat_digits by blast

lemma toIpPort_plain: "CHR 0x00 \<notin> set (toIpPort a)" "CHR ''#'' \<notin> set (toIpPort a)"
  using show_nat_no_zero show_nat_no_sep(2)
  by (auto simp: toIpPort_def sockaddr_bytes_def bytes16_def bytes32_def show_byte_def)

text \<open>No name is cut off: the address has at most 21 characters and the number at most 11.\<close>

lemma conn_suffix_full:
  assumes "0 \<le> n" "n \<le> INT_MAX"
  shows "conn_suffix (toIpPort a) n = ''-'' @ toIpPort a @ ''#'' @ show_int n"
proof -
  have "length (show_int n) \<le> Suc 10" by (rule show_int_length) (use assms in \<open>simp_all add: INT_MAX_def\<close>)
  then have "length (''-'' @ toIpPort a @ ''#'' @ show_int n) < 64" using toIpPort_length [of a] by simp
  moreover have "CHR 0x00 \<notin> set (''-'' @ toIpPort a @ ''#'' @ show_int n)"
    using toIpPort_plain(1) show_int_no_zero by simp
  ultimately show ?thesis using toIpPort_plain(1) by (simp add: conn_suffix_def snprintf_buf_id del: append.simps)
qed

text \<open>
  The names in the map: each is made from a number that was given out before, no two are equal.
\<close>

definition names_ok :: "tcpserver \<Rightarrow> bool" where
  "names_ok sv \<longleftrightarrow> (\<exists>a. ipPort sv = toIpPort a) \<and> 1 \<le> nextConnId sv \<and> nextConnId sv \<le> INT_MAX \<and>
     distinct (map fst (connections sv)) \<and>
     (\<forall>(n, c) \<in> set (connections sv). \<exists>i. 1 \<le> i \<and> i < nextConnId sv \<and>
        n = srv_name sv @ conn_suffix (ipPort sv) i)"

definition next_name :: "tcpserver \<Rightarrow> string" where
  "next_name sv = srv_name sv @ conn_suffix (ipPort sv) (nextConnId sv)"

lemma next_name_new:
  assumes "names_ok sv" shows "next_name sv \<notin> fst ` set (connections sv)"
proof
  assume "next_name sv \<in> fst ` set (connections sv)"
  then obtain c where c: "(next_name sv, c) \<in> set (connections sv)" by auto
  from assms obtain a where a: "ipPort sv = toIpPort a" "1 \<le> nextConnId sv" "nextConnId sv \<le> INT_MAX"
    by (auto simp: names_ok_def)
  have "\<exists>i. 1 \<le> i \<and> i < nextConnId sv \<and> next_name sv = srv_name sv @ conn_suffix (ipPort sv) i"
    using assms c unfolding names_ok_def by fastforce
  then obtain i where i: "1 \<le> i" "i < nextConnId sv" "next_name sv = srv_name sv @ conn_suffix (ipPort sv) i"
    by blast
  from i(3) have "conn_suffix (toIpPort a) i = conn_suffix (toIpPort a) (nextConnId sv)"
    by (simp add: next_name_def a(1))
  then have "show_int i = show_int (nextConnId sv)" using i a(2,3) by (simp add: conn_suffix_full)
  with i(2) show False by simp
qed

lemma erase_other: "nm \<notin> fst ` set cs \<Longrightarrow> erase_conn nm cs = cs"
  by (induction cs) (auto simp: erase_conn_def)

lemma names_ok_add:
  assumes "names_ok sv" "nextConnId sv < INT_MAX"
  shows "names_ok (sv\<lparr>srv_pool := pool, nextConnId := nextConnId sv + 1,
    connections := (next_name sv, c) # erase_conn (next_name sv) (connections sv)\<rparr>)"
  using assms next_name_new [OF assms(1)]
  by (fastforce simp: names_ok_def erase_other next_name_def image_iff)

lemma names_ok_erase:
  assumes "names_ok sv" shows "names_ok (sv\<lparr>connections := erase_conn nm (connections sv)\<rparr>)"
  using assms
  by (auto simp: names_ok_def erase_conn_def distinct_map inj_on_def)

subsection \<open>New connections\<close>

lemma put_srv_simps [simp]:
  "conns (put_srv sv s) = conns s" "chans (put_srv sv s) = chans s" "loops (put_srv sv s) = loops s"
  "io_trace (put_srv sv s) = io_trace s" "srv (put_srv sv s) = sv" "next_conn (put_srv sv s) = next_conn s"
  "next_chan (put_srv sv s) = next_chan s" "strings (put_srv sv s) = strings s"
  by (simp_all add: put_srv_def)

lemma put_conn_server_simps [simp]:
  "srv (put_conn c cn s) = srv s" "next_conn (put_conn c cn s) = next_conn s" "next_chan (put_conn c cn s) = next_chan s"
  by (simp_all add: put_conn_def)

text \<open>A descriptor that neither the loop nor its channels have.\<close>

definition unknown_fd :: "loop_id \<Rightarrow> int \<Rightarrow> 'a reactor_scheme \<Rightarrow> bool" where
  "unknown_fd l fd s \<longleftrightarrow> (\<forall>q d. chans s q = Some d \<longrightarrow> ch_loop d = l \<longrightarrow> ch_fd d \<noteq> fd) \<and>
     (\<exists>lp. loops s l = Some lp \<and> wakeFd lp \<noteq> fd)"

lemma reg_inv_new_chan:
  assumes "reg_inv os l s" "unknown_fd l fd s" "chans s p = None" "ch_fd ch = fd" "ch_loop ch = l" "ch_index ch = kNew"
    "chans s' = (chans s)(p := Some ch)" "loops s' = loops s"
    "\<And>ep. interest_of ep (io_trace s') = interest_of ep (io_trace s)"
  shows "reg_inv os l s'"
proof -
  from assms(1) obtain lp pl where lp: "epoll_ctl_documented os" "loops s l = Some lp" "loop_poller lp = Some pl"
    "poller_inv {} pl l s" by (auto simp: reg_inv_def reg_inv_except_def)
  have kv: "kernel_view pl s' = kernel_view pl s" using assms(9) by (simp add: kernel_view_def)
  have none: "kernel_view pl s fd = None"
  proof (rule ccontr)
    assume "kernel_view pl s fd \<noteq> None"
    then obtain ev q where "kernel_view pl s fd = Some (ev, q)" by auto
    with lp(4) obtain d where "chans s q = Some d" "ch_loop d = l" "ch_fd d = fd" unfolding poller_inv_def by blast
    with assms(2) show False by (auto simp: unknown_fd_def)
  qed
  have df: "distinct_fds l s'"
    unfolding distinct_fds_def
  proof (intro allI impI)
    fix q r c d
    assume cd: "chans s' q = Some c" "chans s' r = Some d" "ch_loop c = l" "ch_loop d = l" "ch_fd c = ch_fd d"
    have no: "ch_fd e \<noteq> fd" if "chans s u = Some e" "ch_loop e = l" for u e
      using assms(2) that by (auto simp: unknown_fd_def)
    have "distinct_fds l s" using lp(4) by (simp add: poller_inv_def)
    then have "chans s q = Some c \<Longrightarrow> chans s r = Some d \<Longrightarrow> q = r" using cd(3-5) unfolding distinct_fds_def by blast
    with cd no [of q c] no [of r d] assms(4) show "q = r" unfolding assms(7) by (auto split: if_splits)
  qed
  have new: "chan_reg pl (kernel_view pl s') p ch"
  proof -
    have "channels pl fd = None"
    proof (rule ccontr)
      assume "channels pl fd \<noteq> None"
      then obtain q where "channels pl fd = Some q" by auto
      with lp(4) obtain d where "chans s q = Some d" "ch_loop d = l" "ch_fd d = fd" unfolding poller_inv_def by blast
      with assms(2) show False by (auto simp: unknown_fd_def)
    qed
    then show ?thesis using none assms(4,6) by (simp add: chan_reg_def kv)
  qed
  have "chan_reg pl (kernel_view pl s') q d" if "chans s' q = Some d" "ch_loop d = l" for q d
  proof (cases "q = p")
    case True
    with that new show ?thesis by (simp add: assms(7))
  next
    case False
    with that have "chans s q = Some d" by (simp add: assms(7))
    from poller_invD(1) [OF lp(4) this that(2)] show ?thesis by (simp add: kv)
  qed
  moreover have "\<exists>c. chans s' q = Some c \<and> ch_loop c = l \<and> ch_fd c = fd'"
    if "kernel_view pl s' fd' = Some (ev, q) \<or> channels pl fd' = Some q" for fd' ev q
  proof -
    from lp(4) that obtain c where c: "chans s q = Some c" "ch_loop c = l" "ch_fd c = fd'"
      unfolding poller_inv_def kv by metis
    then have "q \<noteq> p" using assms(3) by auto
    with c show ?thesis by (simp add: assms(7))
  qed
  ultimately have "poller_inv {} pl l s'" using df unfolding poller_inv_def by (simp, blast)
  with lp assms(8) show ?thesis by (auto simp: reg_inv_def reg_inv_except_def)
qed


text \<open>
  A connection for a loop of another thread: everything \<open>newConnection\<close> does, up to the closure it
  leaves in the queue of that loop.
\<close>

definition answer_addr :: "sysret \<Rightarrow> inet_address" where
  "answer_addr r = sockaddr_of (if ret r = 0 then rdata r else [])"

lemma sockopt_interest [simp]:
  "interest_step ep (me, GetSockName fd, r) m = m" "interest_step ep (me, SetSockOpt fd opt on, r') m = m"
  "interest_step ep (me, WriteFd fd d, r'') m = m"
  by simp_all

lemma same_srv: "net.more s' = net.more s \<Longrightarrow> srv s = sv \<Longrightarrow> srv s' = sv"
  by (cases s; cases s') (simp only: net.select_convs server_net.select_convs server_net.ext_inject)

lemma net_frame_srv: "net_frame s s' \<Longrightarrow> srv s = sv \<Longrightarrow> srv s' = sv"
  unfolding net_frame_def by (erule conjE, rule same_srv)

text \<open>The connection and the channel that \<open>newConnection\<close> makes, and the state in which it runs or queues
  \<open>connectEstablished\<close>.\<close>

definition new_chan :: "loop_id \<Rightarrow> int \<Rightarrow> conn_id \<Rightarrow> channel" where
  "new_chan l fd c = (mkChannel l fd)\<lparr>readCallback := Some (ConnHandleRead c), closeCallback := Some (ConnHandleClose c),
      writeCallback := Some (ConnHandleWrite c), errorCallback := Some (ConnHandleError c)\<rparr>"

definition new_tcpconn :: "tcpserver \<Rightarrow> loop_id \<Rightarrow> int \<Rightarrow> chan_id \<Rightarrow> inet_address \<Rightarrow> inet_address \<Rightarrow> tcpconn" where
  "new_tcpconn sv l fd p local peer = \<lparr>conn_loop = l, conn_name = next_name sv, conn_state = kConnecting,
      conn_fd = fd, conn_channel = p, localAddr = local, peerAddr = peer, hasConnectionCb = srvConnectionCb sv,
      hasMessageCb = srvMessageCb sv, hasWriteCompleteCb = srvWriteCb sv, hasHighWaterCb = False, hasCloseCb = True,
      highWaterMark = default_highWaterMark, inputBuffer = mkBuffer kInitialSize, outputBuffer = mkBuffer kInitialSize\<rparr>"

lemma newConnection_made:
  assumes nxt: "getNextLoop (srv_pool (srv s)) = Inr (l, pool)" and id: "nextConnId (srv s) \<noteq> INT_MAX"
  shows "\<exists>s3 loc. newConnection os me run fd peer s = runInLoop os me run l (ConnectEstablished (next_conn s)) s3 \<and>
    conns s3 = (conns s)(next_conn s := Some (new_tcpconn (srv s) l fd (next_chan s) loc peer)) \<and>
    chans s3 = (chans s)(next_chan s := Some (new_chan l fd (next_conn s))) \<and> loops s3 = loops s \<and>
    srv s3 = (srv s)\<lparr>srv_pool := pool, nextConnId := nextConnId (srv s) + 1,
      connections := (next_name (srv s), next_conn s) # erase_conn (next_name (srv s)) (connections (srv s))\<rparr> \<and>
    next_conn s3 = Suc (next_conn s) \<and> next_chan s3 = Suc (next_chan s) \<and>
    (\<forall>ep. interest_of ep (io_trace s3) = interest_of ep (io_trace s)) \<and>
    open_fds (io_trace s3) = open_fds (io_trace s) \<and>
    (\<forall>fd'. written fd' (io_trace s3) = written fd' (io_trace s) \<and> fins fd' (io_trace s3) = fins fd' (io_trace s)) \<and>
    (\<exists>tr. io_trace s3 = io_trace s @ tr)"
proof -
  let ?c = "next_conn s" and ?p = "next_chan s" and ?sv = "srv s"
  let ?sv1 = "?sv\<lparr>srv_pool := pool, nextConnId := nextConnId ?sv + 1\<rparr>"
  define r where "r = os (io_trace s) (GetSockName fd)"
  define s0 where "s0 = snd (do_call os me (GetSockName fd) (put_srv ?sv1 s))"
  define s1 where "s1 = s0\<lparr>next_conn := Suc ?c, next_chan := Suc ?p\<rparr>"
  have call: "do_call os me (GetSockName fd) (put_srv ?sv1 s) = (r, s0)" "next_conn s0 = ?c" "next_chan s0 = ?p"
    by (simp_all add: r_def s0_def prod_eq_iff do_call_def Let_def put_srv_def)
  define ch where "ch = new_chan l fd ?c"
  define cn where "cn = new_tcpconn ?sv l fd ?p (answer_addr r) peer"
  define cn0 where "cn0 = cn\<lparr>hasConnectionCb := False, hasMessageCb := False, hasWriteCompleteCb := False, hasCloseCb := False\<rparr>"
  define s2 where "s2 = snd (do_call os me (SetSockOpt fd ''SO_KEEPALIVE'' True) (put_conn ?c cn0 (put_chan ?p ch s1)))"
  define sv2 where "sv2 = ?sv1\<lparr>connections := (next_name ?sv, ?c) # erase_conn (next_name ?sv) (connections ?sv)\<rparr>"
  define s3 where "s3 = put_conn ?c cn (put_srv sv2 s2)"
  have mk: "mkTcpConnection os me (Some l) (next_name ?sv) fd (answer_addr r) peer ?c ?p s1 = Inr s2"
    by (simp add: mkTcpConnection_def CheckLoopNotNull_def Let_def s2_def cn0_def cn_def new_tcpconn_def ch_def new_chan_def)
  have s2: "srv s2 = ?sv1" "loops s2 = loops s" "conns s2 = (conns s)(?c := Some cn0)" "chans s2 = (chans s)(?p := Some ch)"
      "next_conn s2 = Suc ?c" "next_chan s2 = Suc ?p" "interest_of ep (io_trace s2) = interest_of ep (io_trace s)"
      "written fd' (io_trace s2) = written fd' (io_trace s)" "fins fd' (io_trace s2) = fins fd' (io_trace s)"
      "open_fds (io_trace s2) = open_fds (io_trace s)" for ep fd'
    by (simp_all add: s2_def s1_def s0_def put_conn_def put_chan_def do_call_def Let_def put_srv_def)
  have cb: "cn0\<lparr>hasConnectionCb := srvConnectionCb ?sv, hasMessageCb := srvMessageCb ?sv,
      hasWriteCompleteCb := srvWriteCb ?sv, hasCloseCb := True\<rparr> = cn"
    by (simp add: cn0_def cn_def new_tcpconn_def)
  have "newConnection os me run fd peer s = runInLoop os me run l (ConnectEstablished ?c) s3"
    using id s2(1,3)
    by (simp add: newConnection_def nxt call s1_def [symmetric] answer_addr_def [symmetric] mk Let_def
        next_name_def [symmetric] s3_def sv2_def upd_conn_def setter_defs cb)
  moreover have "conns s3 = (conns s)(?c := Some cn)" "chans s3 = (chans s)(?p := Some ch)" "loops s3 = loops s"
      "srv s3 = sv2" "next_conn s3 = Suc ?c" "next_chan s3 = Suc ?p"
      "interest_of ep (io_trace s3) = interest_of ep (io_trace s)"
      "written fd' (io_trace s3) = written fd' (io_trace s)" "fins fd' (io_trace s3) = fins fd' (io_trace s)"
      "open_fds (io_trace s3) = open_fds (io_trace s)" for ep fd'
    using s2 by (simp_all add: s3_def)
  moreover have "\<exists>tr. io_trace s3 = io_trace s @ tr" by (simp add: s3_def s2_def s1_def s0_def put_chan_def do_call_def Let_def put_srv_def)
  ultimately show ?thesis unfolding cn_def ch_def sv2_def by blast
qed

lemma newConnection_ok:
  assumes nxt: "getNextLoop (srv_pool (srv s)) = Inr (l, pool)" and names: "names_ok (srv s)"
    and id: "nextConnId (srv s) < INT_MAX" and reg: "reg_inv os l s" and lp: "loops s l = Some lp" "threadId lp \<noteq> me"
    and fresh: "unknown_fd l fd s" "chans s (next_chan s) = None"
  shows "\<exists>s' cn. newConnection os me run fd peer s = Inr s' \<and> conn_ok os s' (next_conn s) cn \<and>
    conn_name cn = next_name (srv s) \<and> conn_fd cn = fd \<and> conn_loop cn = l \<and> peerAddr cn = peer \<and>
    conn_state cn = kConnecting \<and> hasCloseCb cn \<and> hasConnectionCb cn = srvConnectionCb (srv s) \<and>
    hasMessageCb cn = srvMessageCb (srv s) \<and> \<not> hasHighWaterCb cn \<and>
    ch_events (chan_at s' cn) = kNoneEvent \<and> ch_index (chan_at s' cn) = kNew \<and>
    conns s' = (conns s)(next_conn s := Some cn) \<and>
    connections (srv s') = (conn_name cn, next_conn s) # connections (srv s) \<and> names_ok (srv s') \<and>
    (\<exists>lp'. loops s' = (loops s)(l := Some lp') \<and>
       pendingFunctors lp' = pendingFunctors lp @ [ConnectEstablished (next_conn s)])"
proof -
  let ?c = "next_conn s" and ?p = "next_chan s" and ?sv = "srv s"
  let ?sv2 = "?sv\<lparr>srv_pool := pool, nextConnId := nextConnId ?sv + 1,
      connections := (next_name ?sv, ?c) # erase_conn (next_name ?sv) (connections ?sv)\<rparr>"
  from newConnection_made [OF nxt less_imp_neq [OF id], of os me run fd peer] obtain s3 loc where
    run: "newConnection os me run fd peer s = runInLoop os me run l (ConnectEstablished ?c) s3" and
    conns3: "conns s3 = (conns s)(?c := Some (new_tcpconn ?sv l fd ?p loc peer))" and
    chans3: "chans s3 = (chans s)(?p := Some (new_chan l fd ?c))" and loops3: "loops s3 = loops s" and
    srv3: "srv s3 = ?sv2" and int3: "\<forall>ep. interest_of ep (io_trace s3) = interest_of ep (io_trace s)"
    by (elim exE conjE) (rule that)
  define cn where "cn = new_tcpconn ?sv l fd ?p loc peer"
  define ch where "ch = new_chan l fd ?c"
  have chf: "ch_fd ch = fd" "ch_loop ch = l" "ch_events ch = kNoneEvent" "ch_index ch = kNew"
    by (simp_all add: ch_def new_chan_def mkChannel_def index_states channel_masks)
  have fields: "conn_name cn = next_name ?sv" "conn_fd cn = fd" "conn_loop cn = l" "peerAddr cn = peer"
      "conn_state cn = kConnecting" "hasCloseCb cn" "hasConnectionCb cn = srvConnectionCb ?sv"
      "hasMessageCb cn = srvMessageCb ?sv" "\<not> hasHighWaterCb cn" "conn_channel cn = ?p"
      "inputBuffer cn = mkBuffer kInitialSize" "outputBuffer cn = mkBuffer kInitialSize"
    by (simp_all add: cn_def new_tcpconn_def)
  have reg3: "reg_inv os l s3"
    by (rule reg_inv_new_chan [OF reg fresh chf(1,2,4) chans3 [folded ch_def] loops3]) (simp add: int3)
  have wake: "wakeFd lp \<noteq> fd" using fresh(1) lp(1) by (auto simp: unknown_fd_def)
  have ok3: "conn_ok os s3 ?c cn"
    using reg3 wake lp(1) chf(2) by (simp add: conn_ok_def fields conns3 chans3 loops3 cn_def [symmetric] ch_def [symmetric])
  note Q = queueInLoop_conn [OF ok3, of me "ConnectEstablished ?c", unfolded fields(3) loops3]
  from Q obtain s' lq lp' where q: "queueInLoop os me l (ConnectEstablished ?c) s3 = Inr s'"
      "conn_ok os s' ?c cn" "net_view s' = net_view s3" "chans s' = chans s3" "loops s l = Some lq"
      "loops s' = (loops s)(l := Some lp')" "pendingFunctors lp' = pendingFunctors lq @ [ConnectEstablished ?c]"
    by (elim exE conjE) (rule that)
  have "lq = lp" using q(5) lp(1) by simp
  note s' = q(1-4,6) q(7) [unfolded this]
  have srv': "srv s' = ?sv2" using queueInLoop_net [OF s'(1)] srv3 by (rule net_frame_srv)
  have "names_ok (srv s')" unfolding srv' using names_ok_add [OF names id] by simp
  moreover have "connections (srv s') = (conn_name cn, ?c) # connections ?sv"
    unfolding srv' fields using erase_other [OF next_name_new [OF names]] by simp
  moreover have "conns s' = (conns s)(?c := Some cn)" using s'(3) conns3 by (simp add: net_view_def cn_def)
  moreover have "chan_at s' cn = ch" using s'(4) chans3 by (simp add: chan_at_def fields ch_def)
  moreover have "runInLoop os me run l (ConnectEstablished ?c) s3 = Inr s'"
    using s'(1) lp loops3 by (simp add: runInLoop_def isInLoopThread_def)
  ultimately show ?thesis using run s'(2,5,6) fields chf(3,4) by auto
qed


subsection \<open>What the server keeps\<close>

text \<open>
  Names in the map are made from numbers given out before, no two are equal, and every entry is a
  live connection of that name; addresses are given out once; the buffers of every connection are
  well-formed.
\<close>

definition bufs_wf :: "tcpconn \<Rightarrow> bool" where
  "bufs_wf cn \<longleftrightarrow> buf_wf (inputBuffer cn) \<and> buf_wf (outputBuffer cn)"

definition server_inv :: "'a server_net_scheme \<Rightarrow> bool" where
  "server_inv s \<longleftrightarrow> names_ok (srv s) \<and>
     (\<forall>(n, c) \<in> set (connections (srv s)). \<exists>cn. conns s c = Some cn \<and> conn_name cn = n) \<and>
     (\<forall>c cn. conns s c = Some cn \<longrightarrow> c < next_conn s \<and> bufs_wf cn)"

definition keeps_server :: "'a server_net_scheme \<Rightarrow> 'a server_net_scheme \<Rightarrow> bool" where
  "keeps_server s s' \<longleftrightarrow> (server_inv s \<longrightarrow> server_inv s')"

lemma same_next_conn: "net.more s' = net.more s \<Longrightarrow> next_conn s' = next_conn s"
  by (cases s; cases s') (simp only: net.select_convs server_net.select_convs server_net.ext_inject)

lemma net_frame_ids: "net_frame s s' \<Longrightarrow> next_conn s' = next_conn s"
  unfolding net_frame_def by (erule conjE, rule same_next_conn)

lemma net_frame_conns: "net_frame s s' \<Longrightarrow> conns s' = conns s"
  unfolding net_frame_def net_view_def prod.inject by (elim conjE)

lemma put_conn_server:
  assumes "conns s c = Some cn" "conn_name cn' = conn_name cn" "bufs_le cn cn'"
  shows "keeps_server s (put_conn c cn' s)"
proof -
  have named: "\<exists>d. ((conns s)(c := Some cn')) c' = Some d \<and> conn_name d = n"
    if "\<exists>d. conns s c' = Some d \<and> conn_name d = n" for c' n
    using that assms(1,2) by auto
  have bufs: "bufs_wf cn \<Longrightarrow> bufs_wf cn'" using assms(3) by (simp add: bufs_wf_def bufs_le_def)
  show ?thesis
    unfolding keeps_server_def server_inv_def put_conn_simps put_conn_server_simps
  proof (intro impI conjI allI ballI, goal_cases)
    case (2 x)
    then show ?case using named by (cases x) blast
  next
    case (3 c' d)
    then show ?case using assms(1) by (cases "c' = c") auto
  next
    case (4 c' d)
    then show ?case using assms(1) bufs by (cases "c' = c") auto
  qed simp
qed

interpretation keeps_server: net_ident_relation keeps_server
proof unfold_locales
  show "keeps_server s s'" if "net_frame s s'" for s s' :: "'a server_net_scheme"
    using net_frame_srv [OF that refl] net_frame_ids [OF that] net_frame_conns [OF that]
    by (simp add: keeps_server_def server_inv_def)
  show "keeps_server s (put_conn c cn' s)" if "conns s c = Some cn" "conn_le cn cn'" for s :: "'a server_net_scheme" and c cn cn'
    using that unfolding conn_le_def conn_ident_def prod.inject by (elim conjE) (rule put_conn_server)
  show "keeps_server s (put_conn c cn' s)" if "conns s c = Some cn" "conn_ident cn' = conn_ident cn" "bufs_le cn cn'"
    for s :: "'a server_net_scheme" and c cn cn'
    using that by (intro put_conn_server) (simp_all add: conn_ident_def)
  show "keeps_server s (s\<lparr>strings := x, next_string := n\<rparr>)" for s :: "'a server_net_scheme" and x n
    unfolding keeps_server_def server_inv_def by simp
  show "keeps_server s u" if "keeps_server s t" "keeps_server t u" for s t u :: "'a server_net_scheme"
    using that by (simp add: keeps_server_def)
qed

lemma server_inv_put_srv:
  assumes "server_inv s" "names_ok sv" "set (connections sv) \<subseteq> set (connections (srv s))"
  shows "server_inv (put_srv sv s)"
  using assms unfolding server_inv_def put_srv_simps by blast

text \<open>The state in which \<open>newConnection\<close> runs or queues \<open>connectEstablished\<close>.\<close>

lemma server_inv_new:
  assumes inv: "server_inv s" and id: "nextConnId (srv s) \<noteq> INT_MAX"
    and conns: "conns s3 = (conns s)(next_conn s := Some cn)" and cn: "conn_name cn = next_name (srv s)" "bufs_wf cn"
    and srv: "srv s3 = (srv s)\<lparr>srv_pool := pool, nextConnId := nextConnId (srv s) + 1,
      connections := (next_name (srv s), next_conn s) # erase_conn (next_name (srv s)) (connections (srv s))\<rparr>"
    and nxt: "next_conn s3 = Suc (next_conn s)"
  shows "server_inv s3"
proof -
  let ?c = "next_conn s" and ?sv = "srv s3"
  have names: "names_ok (srv s)" and below: "\<And>c cn. conns s c = Some cn \<Longrightarrow> c < ?c \<and> bufs_wf cn"
    and live: "\<And>n c. (n, c) \<in> set (connections (srv s)) \<Longrightarrow> \<exists>cn. conns s c = Some cn \<and> conn_name cn = n"
    using inv unfolding server_inv_def by blast+
  have "names_ok ?sv" using names_ok_add [OF names] names id by (simp add: names_ok_def srv)
  moreover have "\<exists>d. conns s3 c = Some d \<and> conn_name d = n" if "(n, c) \<in> set (connections ?sv)" for n c
  proof (cases "(n, c) = (next_name (srv s), ?c)")
    case False
    with that have old: "(n, c) \<in> set (connections (srv s))" by (auto simp: erase_conn_def srv)
    then have "c \<noteq> ?c" using live below by blast
    then show ?thesis using live [OF old] conns by simp
  qed (use conns cn in simp)
  moreover have "c < Suc ?c \<and> bufs_wf d" if "conns s3 c = Some d" for c d
    using that below [of c] conns cn(2) by (auto split: if_splits simp: less_Suc_eq)
  ultimately show ?thesis unfolding server_inv_def nxt by blast
qed

lemma newConnection_keeps:
  assumes "\<And>f. advances keeps_server (run f)" shows "advances keeps_server (newConnection os me run fd peer)"
  unfolding advances_def
proof (intro allI impI)
  fix s s' :: "'a server_net_scheme" assume run: "newConnection os me run fd peer s = Inr s'"
  then obtain l pool where nxt: "getNextLoop (srv_pool (srv s)) = Inr (l, pool)" and id: "nextConnId (srv s) \<noteq> INT_MAX"
    by (auto simp: newConnection_def rbind_eq_Inr split: if_splits)
  obtain s3 cn where s3: "newConnection os me run fd peer s = runInLoop os me run l (ConnectEstablished (next_conn s)) s3"
      "conns s3 = (conns s)(next_conn s := Some cn)" "conn_name cn = next_name (srv s)" "bufs_wf cn"
      "srv s3 = (srv s)\<lparr>srv_pool := pool, nextConnId := nextConnId (srv s) + 1,
        connections := (next_name (srv s), next_conn s) # erase_conn (next_name (srv s)) (connections (srv s))\<rparr>"
      "next_conn s3 = Suc (next_conn s)"
    using newConnection_made [OF nxt id, of os me run fd peer]
    by (elim exE conjE) (rule that, assumption+, simp_all add: new_tcpconn_def bufs_wf_def)
  have "keeps_server s s3" using server_inv_new [OF _ id s3(2-6)] by (simp add: keeps_server_def)
  moreover have "keeps_server s3 s'"
    by (rule advancesD [OF keeps_server.runInLoop_advances [OF assms]]) (use run s3(1) in simp)
  ultimately show "keeps_server s s'" by (rule keeps_server.R_trans)
qed

lemma removeConnectionInLoop_keeps: "advances keeps_server (removeConnectionInLoop os me c)"
  unfolding advances_def
proof (intro allI impI)
  fix s s' :: "'a server_net_scheme" assume run: "removeConnectionInLoop os me c s = Inr s'"
  then obtain cn :: tcpconn where q: "queueInLoop os me (conn_loop cn) (ConnectDestroyed c)
      (put_srv ((srv s)\<lparr>connections := erase_conn (conn_name cn) (connections (srv s))\<rparr>) s) = Inr s'"
    unfolding removeConnectionInLoop_def rbind_eq_Inr by (elim exE conjE) (rule that)
  have "keeps_server s (put_srv ((srv s)\<lparr>connections := erase_conn (conn_name cn) (connections (srv s))\<rparr>) s)"
    unfolding keeps_server_def
    by (intro impI server_inv_put_srv names_ok_erase) (auto simp: erase_conn_def server_inv_def)
  then show "keeps_server s s'" by (rule keeps_server.R_trans [OF _ keeps_server.R_frame [OF queueInLoop_net [OF q]]])
qed

lemma acceptor_listen_net [frame_rules]: "acceptor_listen os me a s = Inr (a', s') \<Longrightarrow> net_frame s s'"
  by (auto simp: acceptor_listen_def socket_listen_def rbind_eq_Inr Let_def split_beta split: if_splits
      dest!: set_events_net intro: net_frame_trans [OF do_call_net])

lemma server_listen_keeps: "advances keeps_server (server_listen os me)"
  unfolding advances_def
proof (intro allI impI)
  fix s s' :: "'a server_net_scheme" assume "server_listen os me s = Inr s'"
  then obtain a t where t: "acceptor_listen os me (srv_acceptor (srv s)) s = Inr (a, t)"
      "s' = put_srv ((srv t)\<lparr>srv_acceptor := a\<rparr>) t"
    by (auto simp: server_listen_def rbind_eq_Inr)
  have "keeps_server t s'" unfolding t(2) keeps_server_def
    by (intro impI server_inv_put_srv) (auto simp: server_inv_def names_ok_def)
  with keeps_server.R_frame [OF acceptor_listen_net [OF t(1)]] show "keeps_server s s'" by (rule keeps_server.R_trans)
qed

lemma server_rest_keeps: "advances keeps_server (server_rest os me f)"
  using removeConnectionInLoop_keeps server_listen_keeps keeps_server.R_refl
  by (cases f) (simp_all add: advances_def)

lemma server_run_keeps: "advances keeps_server (server_run os me uc f)"
  unfolding server_run_def by (intro keeps_server.any_functor_advances server_rest_keeps)

lemma removeConnection_keeps: "advances keeps_server (removeConnection os me (server_run os me uc) c)"
  unfolding advances_def removeConnection_def
proof (intro allI impI)
  fix s s' :: "'a server_net_scheme"
  assume "runInLoop os me (server_run os me uc) (srv_loop (srv s)) (RemoveConnectionInLoop c) s = Inr s'"
  then show "keeps_server s s'" by (rule advancesD [OF keeps_server.runInLoop_advances [OF server_run_keeps]])
qed

lemma server_accept_keeps: "advances keeps_server (server_accept os me uc d t)"
  unfolding advances_def
proof (intro allI impI)
  fix s s' :: "'a server_net_scheme" assume run: "server_accept os me uc d t s = Inr s'"
  define s1 where "s1 = snd (do_call os me (Accept (acc_fd (srv_acceptor (srv s)))) s)"
  have k1: "keeps_server s s1" unfolding s1_def by (rule keeps_server.R_frame [OF do_call_net])
  have "server_accept os me uc d t s \<in> {Inr s1} \<union> range (\<lambda>fd. Inr (snd (do_call os me (CloseFd fd) s1))) \<union>
      (\<Union>fd peer. {newConnection os me (server_run os me uc) fd peer s1})"
    unfolding server_accept_def acceptor_handleRead_def socket_accept_def closeSocket_def Let_def split_beta
      s1_def [symmetric] fst_conv snd_conv by (simp only: split: if_split) blast
  with run consider "s' = s1" | fd where "s' = snd (do_call os me (CloseFd fd) s1)"
    | fd peer where "newConnection os me (server_run os me uc) fd peer s1 = Inr s'" by auto
  then have "keeps_server s1 s'"
  proof cases
    case 3
    then show ?thesis by (rule advancesD [OF newConnection_keeps [OF server_run_keeps]])
  qed (auto intro: keeps_server.R_frame do_call_net)
  with k1 show "keeps_server s s'" by (rule keeps_server.R_trans)
qed

lemma server_cb_keeps: "advances keeps_server (server_cb os me uc d cb t)"
  unfolding server_cb_def
  by (intro keeps_server.run_conn_cb_advances removeConnection_keeps server_accept_keeps)

lemma release_keeps: "advances keeps_server (release os me P c)"
  unfolding advances_def
proof (intro allI impI)
  fix s s' :: "'a server_net_scheme" assume run: "release os me P c s = Inr s'"
  show "keeps_server s s'"
  proof (cases "conns s c = None \<or> owned c s \<or> c \<in> P")
    case True
    with run show ?thesis by (simp add: release_def)
  next
    case False
    with run have c: "closeTcpConnection os me c s = Inr s'" by (simp add: release_def split: if_splits)
    then obtain cn where cn: "conns s c = Some cn" by (auto simp: closeTcpConnection_def rbind_eq_Inr)
    with c have s': "srv s' = srv s" "next_conn s' = next_conn s" "conns s' = (conns s)(c := None)"
      by (auto simp: closeTcpConnection_def do_call_def Let_def)
    have "c \<notin> snd ` set (connections (srv s))" using False by (simp add: owned_def)
    moreover from this have "((conns s)(c := None)) c' = conns s c'" if "(n, c') \<in> set (connections (srv s))" for n c'
      using that by force
    ultimately show ?thesis unfolding keeps_server_def server_inv_def s'
      by (intro impI conjI) (fastforce split: if_splits)+
  qed
qed

lemma server_turn_keeps: "advances keeps_server (server_turn os me uc d l)"
proof -
  have "advances keeps_server (drop_list os me cs)" for cs
    by (induction cs) (auto simp: advances_def rbind_eq_Inr intro: keeps_server.R_trans advancesD [OF release_keeps])
  then have "advances keeps_server (drop_refs os me fs)" for fs
    unfolding drop_refs_def advances_def by blast
  then show ?thesis
    unfolding server_turn_def by (rule keeps_server.loop_turn_advances [OF server_cb_keeps server_run_keeps])
qed


subsection \<open>Examples\<close>

text \<open>A server in loop 5 (thread 2) with one worker, loop 0 (thread 1), and one connection there.\<close>

definition example_srv :: "(string \<times> conn_id) list \<Rightarrow> tcpserver" where
  "example_srv cs = \<lparr>srv_loop = 5, ipPort = toIpPort (mkInetAddress (\<lambda>_. 0) 80 ''''), srv_name = ''srv'',
     srv_acceptor = \<lparr>acc_loop = 5, acc_fd = 6, acc_chan = 9, hasNewConnectionCb = True, listenning = True\<rparr>,
     srv_pool = (mkThreadPool 5 ''srv'')\<lparr>pool_started := True, numThreads := 1, pool_loops := [0]\<rparr>,
     srvConnectionCb = True, srvMessageCb = True, srvWriteCb = False, srvThreadInitCb = False,
     srv_started = 1, nextConnId = 2, connections = cs\<rparr>"

definition example_server :: "32 word \<Rightarrow> tcpconn \<Rightarrow> tcpserver \<Rightarrow> server_net" where
  "example_server ev cn sv = \<lparr>io_trace = [(1, EpollCtl 3 CtlAdd 7 ev 1, ret_val 0)], chans = [1 \<mapsto> example_chan ev],
     loops = [0 \<mapsto> example_loop, 5 \<mapsto> idle_loop 2], t_loopInthisThread = [1 \<mapsto> 0, 2 \<mapsto> 5], conns = [0 \<mapsto> cn],
     strings = (\<lambda>_. None), next_string = 0, srv = sv, numCreated = 1, next_conn = 1, next_chan = 2\<rparr>"

lemma example_server_fields [simp]:
  "srv (example_server ev cn sv) = sv" "conns (example_server ev cn sv) = [0 \<mapsto> cn]"
  "chans (example_server ev cn sv) = [1 \<mapsto> example_chan ev]"
  "loops (example_server ev cn sv) = [0 \<mapsto> example_loop, 5 \<mapsto> idle_loop 2]"
  "next_conn (example_server ev cn sv) = 1" "next_chan (example_server ev cn sv) = 2"
  by (simp_all add: example_server_def)

lemma example_server_reg: "reg_inv (narrow_os k) 0 (example_server ev cn sv)"
proof -
  have "poller_inv {} \<lparr>epollfd = 3, channels = [7 \<mapsto> 1], evlist_size = 16\<rparr> 0 (example_server ev cn sv)"
    by (simp add: poller_inv_def distinct_fds_def kernel_view_def example_server_def interest_of_def ret_val_def
        chan_reg_def example_chan_def mkChannel_def)
  then show ?thesis
    using narrow_os_ctl [of k] by (simp add: reg_inv_def reg_inv_except_def example_loop_def)
qed

lemma example_server_ok:
  assumes "buf_wf out"
  shows "conn_ok (narrow_os k) (example_server ev (example_conn hw st out) sv) 0 (example_conn hw st out)"
  using assms example_server_reg [of k ev "example_conn hw st out" sv]
  by (simp add: conn_ok_def example_conn_def example_chan_def mkChannel_def example_loop_def idle_loop_def)

lemma example_names: "names_ok (example_srv [])"
  by (auto simp: names_ok_def example_srv_def INT_MAX_def)

subsection \<open>Starting\<close>

lemma net_frame_sym: "net_frame s t \<Longrightarrow> net_frame t s"
  unfolding net_frame_def by (elim conjE, intro conjI; erule sym)

lemma net_frame_skip [simp]:
  "net_frame (put_loop l lp s) t = net_frame s t" "net_frame (put_chan p c s) t = net_frame s t"
  "net_frame (s\<lparr>t_loopInthisThread := f\<rparr>) t = net_frame s t" "net_frame (snd (do_call os me k s)) t = net_frame s t"
proof -
  have eq: "net_frame s' t = net_frame s t" if "net_frame s s'" for s' :: "'a net_scheme"
    using net_frame_trans [OF that] net_frame_trans [OF net_frame_sym [OF that]] by blast
  show "net_frame (put_loop l lp s) t = net_frame s t" "net_frame (put_chan p c s) t = net_frame s t"
    "net_frame (s\<lparr>t_loopInthisThread := f\<rparr>) t = net_frame s t" "net_frame (snd (do_call os me k s)) t = net_frame s t"
    by (rule eq, rule net_frame_more, simp)+
qed

lemma newDefaultPoller_net [frame_rules]: "newDefaultPoller os me b s = Inr (pl, s') \<Longrightarrow> net_frame s s'"
  by (auto simp: newDefaultPoller_def EpollPoller_def rbind_eq_Inr Let_def split_beta split: if_splits intro!: do_call_net)

lemma createEventfd_net [frame_rules]: "createEventfd os me s = Inr (fd, s') \<Longrightarrow> net_frame s s'"
  by (auto simp: createEventfd_def Let_def split_beta split: if_splits intro!: do_call_net)

lemma mkEventLoop_net [frame_rules]: "mkEventLoop os me b l p s = Inr s' \<Longrightarrow> net_frame s s'"
  unfolding mkEventLoop_def Let_def
  by (auto simp: rbind_eq_Inr split: if_splits
      dest!: newDefaultPoller_net createEventfd_net upd_chan_net set_events_net) (meson net_frame_trans)

lemma start_one_net:
  assumes "start_one os b place cb i (pool, num, s) = Inr (pool', num', s')" shows "net_frame s s'"
  using assms by (cases "place i")
    (auto simp: start_one_def startLoop_def rbind_eq_Inr Let_def split_beta dest!: mkEventLoop_net)

lemma pool_start_net:
  assumes init: "\<And>f l t t'. init_cb = Some f \<Longrightarrow> f l t = Inr t' \<Longrightarrow> net_frame t t'"
    and run: "pool_start os b place init_cb (pool, num, s) = Inr (pool', num', s')"
  shows "net_frame s s'"
proof -
  from run obtain pool1 num1 s1 where s1: "foldr_res (start_one os b place (init_cb \<noteq> None)) [0..<nat (numThreads pool)]
      (pool\<lparr>pool_started := True\<rparr>, num, s) = Inr (pool1, num1, s1)" and
    last: "(if numThreads pool1 = 0 then (case init_cb of None \<Rightarrow> Inl BadFunctionCall
        | Some f \<Rightarrow> rbind (f (baseLoop pool1) s1) (\<lambda>s. Inr (pool1, num1, s))) else Inr (pool1, num1, s1)) = Inr (pool', num', s')"
    unfolding pool_start_def rbind_eq_Inr split_paired_Ex case_prod_conv by (elim exE conjE) (rule that)
  have "net_frame s (snd (snd (pool1, num1, s1)))"
  proof (rule foldr_res_inv [OF s1, where P = "\<lambda>st. net_frame s (snd (snd st))"])
    fix i st st'
    assume st: "net_frame s (snd (snd st))" "start_one os b place (init_cb \<noteq> None) i st = Inr st'"
    have "net_frame (snd (snd st)) (snd (snd st'))"
      by (rule start_one_net [where pool = "fst st" and num = "fst (snd st)" and pool' = "fst st'" and num' = "fst (snd st')"])
        (use st(2) in simp)
    with st(1) show "net_frame s (snd (snd st'))" by (rule net_frame_trans)
  qed simp
  then have "net_frame s s1" by simp
  moreover have "net_frame s1 s'" using last init
    by (cases init_cb) (auto simp: rbind_eq_Inr split: if_splits)
  ultimately show ?thesis by (rule net_frame_trans)
qed

lemma server_start_keeps:
  assumes init: "\<And>l t t'. init_cb l t = Inr t' \<Longrightarrow> net_frame t t'"
  shows "advances keeps_server (server_start os me uc b place init_cb)"
  unfolding advances_def
proof (intro allI impI)
  fix s s' :: "'a server_net_scheme" assume run: "server_start os me uc b place init_cb s = Inr s'"
  define s1 where "s1 = put_srv ((srv s)\<lparr>srv_started := srv_started (srv s) + 1\<rparr>) s"
  have put: "keeps_server t (put_srv sv t)" if "names_ok (srv t) \<Longrightarrow> names_ok sv" "connections sv = connections (srv t)"
    for t :: "'a server_net_scheme" and sv
    unfolding keeps_server_def by (intro impI server_inv_put_srv that) (auto simp: server_inv_def that(2))
  have k1: "keeps_server s s1" unfolding s1_def by (rule put) (simp_all add: names_ok_def)
  show "keeps_server s s'"
  proof (cases "srv_started (srv s) = 0")
    case False
    with run k1 show ?thesis by (simp add: server_start_def s1_def Let_def)
  next
    case True
    with run obtain pool num s2 where s2: "pool_start os b place (if srvThreadInitCb (srv s) then Some init_cb else None)
        (srv_pool (srv s), numCreated s1, s1) = Inr (pool, num, s2)" and
      s': "runInLoop os me (server_run os me uc) (srv_loop (srv s2)) AcceptorListen
        (put_srv ((srv s2)\<lparr>srv_pool := pool\<rparr>) (s2\<lparr>numCreated := num\<rparr>)) = Inr s'"
      unfolding server_start_def Let_def s1_def [symmetric] rbind_eq_Inr
      by (auto simp: s1_def rbind_eq_Inr split_paired_Ex put_srv_def)
    have "keeps_server s1 s2"
      by (rule keeps_server.R_frame [OF pool_start_net [OF _ s2]]) (auto intro: init split: if_splits)
    moreover have "keeps_server s2 (put_srv ((srv s2)\<lparr>srv_pool := pool\<rparr>) (s2\<lparr>numCreated := num\<rparr>))"
      unfolding keeps_server_def server_inv_def put_srv_simps by (auto simp: names_ok_def)
    moreover note advancesD [OF keeps_server.runInLoop_advances [OF server_run_keeps] s']
    ultimately show ?thesis using k1 keeps_server.R_trans by blast
  qed
qed

text \<open>
  A run of the server: its loops turn in any order, each in any thread, and the program calls the
  setters and \<open>start\<close>. The callback for new threads may queue functors but does not reach into
  the server.
\<close>

inductive server_step :: "os \<Rightarrow> user_code \<Rightarrow> inet_address \<Rightarrow> 'a server_net_scheme \<Rightarrow> 'a server_net_scheme \<Rightarrow> bool"
  for os uc d where
  step_turn: "server_turn os me uc d l s = Inr s' \<Longrightarrow> server_step os uc d s s'"
| step_start: "server_start os me uc b place init_cb s = Inr s' \<Longrightarrow>
    (\<And>l t t'. init_cb l t = Inr t' \<Longrightarrow> net_frame t t') \<Longrightarrow> server_step os uc d s s'"
| step_threads: "server_step os uc d s (put_srv (setThreadNum n (srv s)) s)"
| step_callbacks: "f \<in> {setConnectionCallback cb, setMessageCallback cb, setWriteCallback cb, setThreadInitCallback cb} \<Longrightarrow>
    server_step os uc d s (put_srv (f (srv s)) s)"

inductive_cases server_stepE: "server_step os uc d s s'"

lemma server_step_keeps: "server_step os uc d s s' \<Longrightarrow> keeps_server s s'"
proof (induction rule: server_step.induct)
  case (step_turn me l s s')
  then show ?case by (rule advancesD [OF server_turn_keeps])
next
  case (step_start me b place init_cb s s')
  show ?case by (rule advancesD [OF server_start_keeps step_start(1)]) (rule step_start(2))
qed (auto simp: keeps_server_def server_inv_def names_ok_def setter_defs)

lemma server_steps_keep: "(server_step os uc d)\<^sup>*\<^sup>* s s' \<Longrightarrow> server_inv s \<Longrightarrow> server_inv s'"
  by (induction rule: rtranclp_induct) (auto dest: server_step_keeps simp: keeps_server_def)

lemma mkTcpServer_inv:
  assumes "mkTcpServer os me lo a name reuse s0 = Inr s" "conns s0 = Map.empty"
  shows "server_inv s"
proof -
  from assms(1) obtain l acc t where t: "mkAcceptor os me l a reuse (next_chan s0) s0 = Inr (acc, t)"
      "connections (srv s) = []" "ipPort (srv s) = toIpPort a" "nextConnId (srv s) = 1" "conns s = conns t"
    by (auto simp: mkTcpServer_def rbind_eq_Inr)
  have "net_frame s0 t"
    using t(1) by (auto simp: mkAcceptor_def CreateNoblocking_def bindAddress_def setReuseAddr_def setReusePort_def
        setOption_def rbind_eq_Inr Let_def split_beta split: if_splits dest!: upd_chan_net)
  with net_frame_conns [OF this] assms(2) t(2-5) show ?thesis
    by (auto simp: server_inv_def names_ok_def INT_MAX_def)
qed

subsection \<open>Properties\<close>



text \<open>
  C7: the map of connections. From the construction of the server on, through any turns of any of its
  loops in any thread, with any kernel and any user code, and through the setters and \<open>start\<close>: no
  two entries have the same name, and every entry is a connection that is alive and has that
  name. No connection in the map is ever freed.
\<close>

theorem connections_named_and_alive:
  assumes "mkTcpServer os me lo a name reuse s0 = Inr s" "conns s0 = Map.empty" "(server_step os uc d)\<^sup>*\<^sup>* s s'"
  shows "distinct (map fst (connections (srv s'))) \<and>
    (\<forall>(n, c) \<in> set (connections (srv s')). \<exists>cn. conns s' c = Some cn \<and> conn_name cn = n)"
  using server_steps_keep [OF assms(3) mkTcpServer_inv [OF assms(1,2)]]
  by (simp add: server_inv_def names_ok_def)

lemma example_mkTcpServer:
  assumes "conns s0 = cs"
  shows "\<exists>s. mkTcpServer plain_os 1 (Some 0) (mkInetAddress (\<lambda>_. 0) 80 '''') ''srv'' False s0 = Inr s \<and>
    conns s = cs \<and> srv_started (srv s) = 0 \<and> numThreads (srv_pool (srv s)) = 0 \<and> \<not> srvThreadInitCb (srv s)"
  using assms
  by (simp add: mkTcpServer_def CheckLoopNotNull_def mkThreadPool_def mkAcceptor_def CreateNoblocking_def
      bindAddress_def setReuseAddr_def setReusePort_def setOption_def Let_def split_beta upd_chan_def
      plain_os_def ret_val_def do_call_def put_chan_def get_chan_def)

theorem connections_named_and_alive_witness:
  "\<exists>s. mkTcpServer plain_os 1 (Some 0) (mkInetAddress (\<lambda>_. 0) 80 '''') ''srv'' False
      ((example_server kReadEvent (example_conn False kConnected (mkBuffer kInitialSize)) (example_srv []))
        \<lparr>conns := Map.empty\<rparr>) = Inr s \<and>
    server_step plain_os quiet_user (mkInetAddress (\<lambda>_. 0) 0 '''') s (put_srv (setThreadNum 3 (srv s)) s) \<and>
    distinct (map fst (connections (srv (put_srv (setThreadNum 3 (srv s)) s))))"
proof -
  let ?s0 = "(example_server kReadEvent (example_conn False kConnected (mkBuffer kInitialSize)) (example_srv []))
        \<lparr>conns := Map.empty\<rparr>"
  have e: "conns ?s0 = Map.empty" by simp
  from example_mkTcpServer [OF e] obtain s where
    s: "mkTcpServer plain_os 1 (Some 0) (mkInetAddress (\<lambda>_. 0) 80 '''') ''srv'' False ?s0 = Inr s" by blast
  have st: "server_step plain_os quiet_user (mkInetAddress (\<lambda>_. 0) 0 '''') s (put_srv (setThreadNum 3 (srv s)) s)"
    by (rule step_threads)
  from connections_named_and_alive [OF s e r_into_rtranclp [where r = "server_step plain_os quiet_user (mkInetAddress (\<lambda>_. 0) 0 '''')", OF st]]
    s st show ?thesis by blast
qed



text \<open>
  A server without threads needs a thread-init callback: if the user set none, \<open>start\<close> throws
  \<open>bad_function_call\<close> and never listens.
\<close>

theorem single_threaded_start_throws:
  assumes "srv_started (srv s) = 0" "numThreads (srv_pool (srv s)) = 0" "\<not> srvThreadInitCb (srv s)"
  shows "server_start os me uc b place init_cb s = Inl BadFunctionCall"
  using assms by (simp add: server_start_def pool_start_def Let_def)

theorem single_threaded_start_throws_witness:
  "\<exists>s. mkTcpServer plain_os 1 (Some 0) (mkInetAddress (\<lambda>_. 0) 80 '''') ''srv'' False
      (example_server kReadEvent (example_conn False kConnected (mkBuffer kInitialSize)) (example_srv [])) = Inr s \<and>
    server_start plain_os 1 quiet_user False (\<lambda>i. (3, 7, 7)) (\<lambda>_. Inr) s = Inl BadFunctionCall"
proof -
  let ?s0 = "example_server kReadEvent (example_conn False kConnected (mkBuffer kInitialSize)) (example_srv [])"
  from example_mkTcpServer [OF refl, of ?s0] obtain s where
    s: "mkTcpServer plain_os 1 (Some 0) (mkInetAddress (\<lambda>_. 0) 80 '''') ''srv'' False ?s0 = Inr s"
    "srv_started (srv s) = 0" "numThreads (srv_pool (srv s)) = 0" "\<not> srvThreadInitCb (srv s)" by blast
  from s(1) single_threaded_start_throws [OF s(2-4)] show ?thesis by blast
qed


subsection \<open>A connection ends\<close>

text \<open>What keeps a connection in order: nothing of it, its channel and its registration changes.\<close>

definition conn_frame :: "tcpconn \<Rightarrow> 'a net_scheme \<Rightarrow> 'a net_scheme \<Rightarrow> bool" where
  "conn_frame cn s s' \<longleftrightarrow> conns s' = conns s \<and> chans s' = chans s \<and>
     (\<forall>ep. interest_of ep (io_trace s') = interest_of ep (io_trace s)) \<and>
     (\<exists>lp lp'. loops s (conn_loop cn) = Some lp \<and> loops s' (conn_loop cn) = Some lp' \<and>
        loop_poller lp' = loop_poller lp \<and> wakeFd lp' = wakeFd lp)"

lemma conn_ok_frame:
  assumes ok: "conn_ok os s c cn" and fr: "conn_frame cn s s'"
  shows "conn_ok os s' c cn"
proof -
  from fr obtain lp lp' where lp: "loops s (conn_loop cn) = Some lp" "loops s' (conn_loop cn) = Some lp'"
    "loop_poller lp' = loop_poller lp" "wakeFd lp' = wakeFd lp" and same: "conns s' = conns s" "chans s' = chans s"
    "\<And>ep. interest_of ep (io_trace s') = interest_of ep (io_trace s)" unfolding conn_frame_def by blast
  have "reg_inv os (conn_loop cn) s'" by (rule reg_inv_frame [OF conn_okD(3) [OF ok] lp(1-3) same(2,3)])
  then show ?thesis using ok lp same(1,2) by (simp add: conn_ok_def)
qed

lemma queueInLoop_frame:
  assumes "loops s l = Some lp"
  shows "\<exists>s'. queueInLoop os me l f s = Inr s' \<and> net_frame s s' \<and> conns s' = conns s \<and> chans s' = chans s \<and>
    loops s' = (loops s)(l := Some (lp\<lparr>pendingFunctors := pendingFunctors lp @ [f]\<rparr>)) \<and>
    (\<forall>ep. interest_of ep (io_trace s') = interest_of ep (io_trace s))"
proof -
  note q = queueInLoop_ok [OF assms, of os me f]
  show ?thesis
    by (rule exI, rule conjI [OF q], rule conjI [OF queueInLoop_net [OF q]]) simp
qed

text \<open>A queue with one functor.\<close>

lemma doPendingFunctors_one:
  assumes "loops s l = Some lp" "pendingFunctors lp = [f]"
    "run f (put_loop l (lp\<lparr>callingPendingFunctors := True, pendingFunctors := []\<rparr>) s) = Inr s1" "loops s1 l = Some lp1"
  shows "doPendingFunctors run destroy l s = destroy [f] (put_loop l (lp1\<lparr>callingPendingFunctors := False\<rparr>) s1)"
proof -
  have "put_loop l a (put_loop l b s) = put_loop l a s" for a b by (simp add: put_loop_def)
  then have "swap_pending l (put_loop l (lp\<lparr>callingPendingFunctors := True\<rparr>) s) =
      Inr ([f], put_loop l (lp\<lparr>callingPendingFunctors := True, pendingFunctors := []\<rparr>) s)"
    using assms(2) by (simp add: swap_pending_def)
  then show ?thesis using assms(1,3,4) by (simp add: doPendingFunctors_def set_calling_def)
qed

lemma put_loop_server [simp]: "srv (put_loop l lp s) = srv s" "next_conn (put_loop l lp s) = next_conn s"
  by (simp_all add: put_loop_def)

text \<open>In the loop of the connection: it is closed, and its removal is left to the base loop.\<close>

lemma handleClose_queues_removal:
  assumes ok: "conn_ok os s c cn" and add: "ch_index (chan_at s cn) = kAdded"
    and cb: "hasConnectionCb cn" "hasCloseCb cn" "onConnection uc c False = []"
    and lp: "loops s (conn_loop cn) = Some lp"
    and base: "loops s b = Some bp" "threadId bp \<noteq> me" "b = srv_loop (srv s)" "b \<noteq> conn_loop cn"
  shows "\<exists>s' pl. handleClose os me uc (removeConnection os me run) c s = Inr s' \<and>
    conn_ok os s' c (cn\<lparr>conn_state := kDisconnected\<rparr>) \<and> conn_registered s' cn = None \<and> srv s' = srv s \<and>
    conns s' = (conns s)(c := Some (cn\<lparr>conn_state := kDisconnected\<rparr>)) \<and>
    loops s' = (loops s)(conn_loop cn := Some (lp\<lparr>loop_poller := Some pl\<rparr>),
      b := Some (bp\<lparr>pendingFunctors := pendingFunctors bp @ [RemoveConnectionInLoop c]\<rparr>))"
proof -
  let ?cn = "cn\<lparr>conn_state := kDisconnected\<rparr>"
  note st = setState_conn [OF ok, of kDisconnected]
  obtain s1 where s1: "set_events os me DisableAll (conn_channel ?cn) (put_conn c ?cn s) = Inr s1" "conn_ok os s1 c ?cn"
      "only_poller (conn_loop ?cn) (put_conn c ?cn s) s1"
      "chan_entry (conn_loop ?cn) s1 (conn_channel ?cn) = Some (entry_change DisableAll
        (ch_events (chan_at (put_conn c ?cn s) ?cn), ch_index (chan_at (put_conn c ?cn s) ?cn) = kAdded))"
    using set_events_conn [OF st(2), of me DisableAll] by blast
  from s1(3) lp obtain pl where pl: "loops s1 = (loops s)(conn_loop cn := Some (lp\<lparr>loop_poller := Some pl\<rparr>))"
    by (auto simp: only_poller_def)
  have reg1: "conn_registered s1 cn = None"
    using registered_of_entry [OF conn_okD(3) [OF s1(2)] s1(4)] add
    by (simp add: conn_registered_def kernel_mask_def chan_at_def)
  have srv1: "srv s1 = srv s" by (rule net_frame_srv [OF set_events_net [OF s1(1)]]) simp
  have conns1: "conns s1 = (conns s)(c := Some ?cn)" using net_frame_conns [OF set_events_net [OF s1(1)]] by simp
  define s2 where "s2 = s1\<lparr>strings := (\<lambda>a. if next_string s1 \<le> a then None else strings s1 a)\<rparr>"
  have s2: "loops s2 = loops s1" "conns s2 = conns s1" "chans s2 = chans s1" "io_trace s2 = io_trace s1" "srv s2 = srv s1"
    by (simp_all add: s2_def)
  have ok2: "conn_ok os s2 c ?cn"
    by (rule conn_ok_frame [OF s1(2)]) (simp add: conn_frame_def s2 pl)
  from queueInLoop_frame [of s2 b bp os me "RemoveConnectionInLoop c"] base(1,4) s2(1) pl obtain s3 where
    s3: "queueInLoop os me b (RemoveConnectionInLoop c) s2 = Inr s3" "net_frame s2 s3" "conns s3 = conns s2" "chans s3 = chans s2"
      "loops s3 = (loops s2)(b := Some (bp\<lparr>pendingFunctors := pendingFunctors bp @ [RemoveConnectionInLoop c]\<rparr>))"
      "\<forall>ep. interest_of ep (io_trace s3) = interest_of ep (io_trace s2)" by auto
  have "handleClose os me uc (removeConnection os me run) c s = removeConnection os me run c s2"
    using st(1) s1(1) conn_okD(2) [OF st(2)] conn_okD(2) [OF s1(2)] conn_okD(2) [OF ok2] cb
    by (simp add: handleClose_def call_connectionCb_def call_closeCb_def run_no_calls s2_def)
  also have "\<dots> = Inr s3"
    using base s2(1,5) srv1 pl s3(1) by (simp add: removeConnection_def runInLoop_def isInLoopThread_def)
  finally have run: "handleClose os me uc (removeConnection os me run) c s = Inr s3" .
  have kv: "kernel_view pl s3 = kernel_view pl s1" for pl using s3(6) s2(4) by (simp add: kernel_view_def)
  have "conn_ok os s3 c ?cn"
    by (rule conn_ok_frame [OF ok2]) (use s3(3-6) s2(1) pl base(4) in \<open>simp add: conn_frame_def\<close>)
  moreover have "conn_registered s3 cn = conn_registered s1 cn"
    using s3(4,5) s2(1,3) base(4) by (simp add: conn_registered_def registered_def chan_of_def kv cong: option.case_cong)
  moreover have "srv s3 = srv s" by (rule net_frame_srv [OF s3(2)]) (simp add: s2(5) srv1)
  ultimately show ?thesis using run reg1 conns1 pl s2(1,2) s3(3,5) by (intro exI [of _ s3] exI [of _ pl]) simp
qed

text \<open>In the base loop: it leaves the map, and its destruction is left to its own loop.\<close>

lemma removal_queues_destruction:
  assumes ok: "conn_ok os s c cn" and lp: "loops s (conn_loop cn) = Some lp"
    and base: "loops s b = Some bp" "b \<noteq> conn_loop cn" "pendingFunctors bp = [RemoveConnectionInLoop c]"
    and known: "conn_loop cn \<in> set (server_loops (srv s))"
  shows "\<exists>s'. doPendingFunctors (server_run os me uc) (drop_refs os me) b s = Inr s' \<and> conn_ok os s' c cn \<and>
    srv s' = (srv s)\<lparr>connections := erase_conn (conn_name cn) (connections (srv s))\<rparr> \<and> conns s' = conns s \<and>
    loops s' = (loops s)(b := Some (bp\<lparr>pendingFunctors := [], callingPendingFunctors := False\<rparr>),
      conn_loop cn := Some (lp\<lparr>pendingFunctors := pendingFunctors lp @ [ConnectDestroyed c]\<rparr>))"
proof -
  let ?sv = "(srv s)\<lparr>connections := erase_conn (conn_name cn) (connections (srv s))\<rparr>"
  define s1 where "s1 = put_loop b (bp\<lparr>callingPendingFunctors := True, pendingFunctors := []\<rparr>) s"
  have s1: "loops s1 = (loops s)(b := Some (bp\<lparr>callingPendingFunctors := True, pendingFunctors := []\<rparr>))"
    "conns s1 = conns s" "chans s1 = chans s" "io_trace s1 = io_trace s" "srv s1 = srv s"
    by (simp_all add: s1_def)
  have lp1: "loops (put_srv ?sv s1) (conn_loop cn) = Some lp" using lp base(2) s1(1) by simp
  from queueInLoop_frame [OF lp1, of os me "ConnectDestroyed c"] obtain s2 where
    s2: "queueInLoop os me (conn_loop cn) (ConnectDestroyed c) (put_srv ?sv s1) = Inr s2" "net_frame (put_srv ?sv s1) s2"
      "conns s2 = conns (put_srv ?sv s1)" "chans s2 = chans (put_srv ?sv s1)"
      "loops s2 = (loops (put_srv ?sv s1))(conn_loop cn := Some (lp\<lparr>pendingFunctors := pendingFunctors lp @ [ConnectDestroyed c]\<rparr>))"
      "\<forall>ep. interest_of ep (io_trace s2) = interest_of ep (io_trace (put_srv ?sv s1))" by blast
  have srv2: "srv s2 = ?sv" by (rule net_frame_srv [OF s2(2)]) simp
  let ?bp = "bp\<lparr>pendingFunctors := [], callingPendingFunctors := False\<rparr>"
  define s3 where "s3 = put_loop b ?bp s2"
  have loops3: "loops s3 = (loops s)(b := Some ?bp,
      conn_loop cn := Some (lp\<lparr>pendingFunctors := pendingFunctors lp @ [ConnectDestroyed c]\<rparr>))"
    using s2(5) s1(1) base(2) by (simp add: s3_def fun_upd_twist)
  have ok3: "conn_ok os s3 c cn"
    by (rule conn_ok_frame [OF ok]) (use loops3 lp s2(3,4,6) s1(2-4) in \<open>simp add: conn_frame_def s3_def\<close>)
  have "owned c s3"
  proof -
    have "Some c \<in> functor_owner ` set (queued_in s3 (conn_loop cn))" by (simp add: queued_in_def loops3)
    moreover have "conn_loop cn \<in> set (server_loops (srv s3))"
      using known by (simp add: s3_def srv2 server_loops_def)
    ultimately show ?thesis unfolding owned_def by fastforce
  qed
  then have "drop_refs os me [RemoveConnectionInLoop c] s3 = Inr s3"
    by (simp add: drop_refs_def owners_def release_def)
  moreover have "server_run os me uc (RemoveConnectionInLoop c) s1 = Inr s2"
    using s2(1) s1(2,5) conn_okD(1) [OF ok] by (simp add: server_run_def removeConnectionInLoop_def)
  moreover have "loops s2 b = Some (bp\<lparr>callingPendingFunctors := True, pendingFunctors := []\<rparr>)"
    using s2(5) s1(1) base(2) by simp
  ultimately have "doPendingFunctors (server_run os me uc) (drop_refs os me) b s = Inr s3"
    using doPendingFunctors_one [OF base(1,3), of "server_run os me uc" s2] by (simp add: s1_def [symmetric] s3_def)
  then show ?thesis using ok3 loops3 srv2 s2(3) s1(2) by (intro exI [of _ s3]) (simp add: s3_def)
qed

text \<open>In its own loop: the channel is removed, and with the last reference the socket is closed.\<close>

lemma destruction_frees:
  assumes ok: "conn_ok os s c cn" and st: "conn_state cn \<noteq> kConnected"
    and lp: "loops s (conn_loop cn) = Some lp" "pendingFunctors lp = [ConnectDestroyed c]"
    and unnamed: "c \<notin> snd ` set (connections (srv s))"
    and others: "\<And>l. l \<in> set (server_loops (srv s)) \<Longrightarrow> l \<noteq> conn_loop cn \<Longrightarrow>
      Some c \<notin> functor_owner ` set (queued_in s l)"
  shows "\<exists>s' tr r. doPendingFunctors (server_run os me uc) (drop_refs os me) (conn_loop cn) s = Inr s' \<and>
    srv s' = srv s \<and> conns s' = (conns s)(c := None) \<and> chans s' (conn_channel cn) = None \<and>
    io_trace s' = tr @ [(me, CloseFd (conn_fd cn), r)]"
proof -
  let ?l = "conn_loop cn"
  define s1 where "s1 = put_loop ?l (lp\<lparr>callingPendingFunctors := True, pendingFunctors := []\<rparr>) s"
  have ok1: "conn_ok os s1 c cn"
    by (rule conn_ok_frame [OF ok]) (simp add: conn_frame_def s1_def lp)
  note at = conn_ok_chan [OF ok1]
  obtain s2 where s2: "channel_remove os me (conn_channel cn) s1 = Inr s2" "only_poller ?l s1 s2"
    using channel_remove_ok [OF conn_okD(3) [OF ok1] at(1,2), of me] by blast
  have run: "server_run os me uc (ConnectDestroyed c) s1 = Inr s2"
    using s2(1) st conn_okD(2) [OF ok1] by (simp add: server_run_def connectDestroyed_def)
  have conns2: "conns s2 = conns s" using net_frame_conns [OF channel_remove_net [OF s2(1)]] by (simp add: s1_def)
  have srv2: "srv s2 = srv s" by (rule net_frame_srv [OF channel_remove_net [OF s2(1)]]) (simp add: s1_def)
  from s2(2) obtain pl where loops2: "loops s2 = (loops s)(?l := Some
      (lp\<lparr>callingPendingFunctors := True, pendingFunctors := [], loop_poller := Some pl\<rparr>))"
    by (auto simp: only_poller_def s1_def)
  let ?lp = "lp\<lparr>pendingFunctors := [], loop_poller := Some pl, callingPendingFunctors := False\<rparr>"
  define s3 where "s3 = put_loop ?l ?lp s2"
  have "\<not> owned c s3"
  proof -
    have "Some c \<notin> functor_owner ` set (queued_in s3 l)" if "l \<in> set (server_loops (srv s3))" for l
    proof (cases "l = ?l")
      case True
      then show ?thesis by (simp add: queued_in_def s3_def)
    next
      case False
      then have "queued_in s3 l = queued_in s l" by (simp add: queued_in_def s3_def loops2)
      with others [OF _ False] that show ?thesis by (simp add: s3_def srv2)
    qed
    then show ?thesis using unnamed unfolding owned_def by (auto simp: s3_def srv2)
  qed
  moreover have "conns s3 c = Some cn" using conns2 conn_okD(1) [OF ok] by (simp add: s3_def)
  ultimately have "release os me {} c s3 = closeTcpConnection os me c s3" by (simp add: release_def)
  then have drop: "drop_refs os me [ConnectDestroyed c] s3 = closeTcpConnection os me c s3"
    by (simp add: drop_refs_def owners_def) (cases "closeTcpConnection os me c s3"; simp)
  define s4 where "s4 = (snd (do_call os me (CloseFd (conn_fd cn)) (s3\<lparr>chans := (chans s3)(conn_channel cn := None)\<rparr>)))
      \<lparr>conns := (conns s3)(c := None)\<rparr>"
  have "closeTcpConnection os me c s3 = Inr s4"
    using \<open>conns s3 c = Some cn\<close> by (simp add: closeTcpConnection_def Let_def s4_def do_call_def)
  moreover have "doPendingFunctors (server_run os me uc) (drop_refs os me) ?l s = drop_refs os me [ConnectDestroyed c] s3"
    using doPendingFunctors_one [OF lp, of "server_run os me uc" s2] run loops2
    by (simp add: s1_def [symmetric] s3_def)
  ultimately have "doPendingFunctors (server_run os me uc) (drop_refs os me) ?l s = Inr s4" using drop by simp
  moreover have "srv s4 = srv s" "conns s4 = (conns s)(c := None)" "chans s4 (conn_channel cn) = None"
    "io_trace s4 = io_trace s3 @ [(me, CloseFd (conn_fd cn), os (io_trace s3) (CloseFd (conn_fd cn)))]"
    using srv2 conns2 by (simp_all add: s4_def s3_def do_call_def Let_def)
  ultimately show ?thesis by blast
qed

text \<open>
  C8: the end of a connection, across two threads. The peer closes: in the loop of the connection, it
  becomes disconnected, the kernel no longer watches it, and its removal is queued in the base
  loop. There it leaves the map, and its destruction is queued in its own loop, which keeps it
  alive. When that has run, the last reference is gone: connection and channel are freed, and
  closing the socket is the last call made.
\<close>

theorem closed_connection_is_released:
  assumes "conn_ok os s c cn" "ch_index (chan_at s cn) = kAdded" "hasConnectionCb cn" "hasCloseCb cn"
    "onConnection uc c False = []" "loops s (conn_loop cn) = Some lp" "pendingFunctors lp = []"
    "loops s (srv_loop (srv s)) = Some bp" "pendingFunctors bp = []" "threadId bp \<noteq> me"
    "srv_loop (srv s) \<noteq> conn_loop cn" "conn_loop cn \<in> set (server_loops (srv s))"
    "\<And>n. (n, c) \<in> set (connections (srv s)) \<Longrightarrow> n = conn_name cn"
    "\<And>l. l \<in> set (server_loops (srv s)) \<Longrightarrow> Some c \<notin> functor_owner ` set (queued_in s l)"
  shows "\<exists>s1 s2 s3 tr r. server_cb os me uc d (ConnHandleClose c) t s = Inr s1 \<and>
    doPendingFunctors (server_run os base uc) (drop_refs os base) (srv_loop (srv s)) s1 = Inr s2 \<and>
    doPendingFunctors (server_run os me uc) (drop_refs os me) (conn_loop cn) s2 = Inr s3 \<and>
    conns s1 = (conns s)(c := Some (cn\<lparr>conn_state := kDisconnected\<rparr>)) \<and> conn_registered s1 cn = None \<and>
    conns s2 = conns s1 \<and> connections (srv s2) = erase_conn (conn_name cn) (connections (srv s)) \<and>
    conns s3 = (conns s)(c := None) \<and> chans s3 (conn_channel cn) = None \<and>
    io_trace s3 = tr @ [(me, CloseFd (conn_fd cn), r)]"
proof -
  let ?b = "srv_loop (srv s)" and ?l = "conn_loop cn" and ?cn = "cn\<lparr>conn_state := kDisconnected\<rparr>"
  obtain s1 pl where s1: "handleClose os me uc (removeConnection os me (server_run os me uc)) c s = Inr s1"
      "conn_ok os s1 c ?cn" "conn_registered s1 cn = None" "srv s1 = srv s" "conns s1 = (conns s)(c := Some ?cn)"
      "loops s1 = (loops s)(?l := Some (lp\<lparr>loop_poller := Some pl\<rparr>),
        ?b := Some (bp\<lparr>pendingFunctors := pendingFunctors bp @ [RemoveConnectionInLoop c]\<rparr>))"
    using handleClose_queues_removal [OF assms(1-6,8,10) refl assms(11)] by blast
  let ?bp = "bp\<lparr>pendingFunctors := [RemoveConnectionInLoop c]\<rparr>"
  have l1: "loops s1 (conn_loop ?cn) = Some (lp\<lparr>loop_poller := Some pl\<rparr>)" "loops s1 ?b = Some ?bp"
    "?b \<noteq> conn_loop ?cn" "pendingFunctors ?bp = [RemoveConnectionInLoop c]" "conn_loop ?cn \<in> set (server_loops (srv s1))"
    using s1(4,6) assms(9,11,12) by simp_all
  from removal_queues_destruction [OF s1(2) l1, of base uc] obtain s2 where
    s2: "doPendingFunctors (server_run os base uc) (drop_refs os base) ?b s1 = Inr s2" "conn_ok os s2 c ?cn"
      "srv s2 = (srv s)\<lparr>connections := erase_conn (conn_name cn) (connections (srv s))\<rparr>" "conns s2 = conns s1"
      "loops s2 = (loops s1)(?b := Some (?bp\<lparr>pendingFunctors := [], callingPendingFunctors := False\<rparr>),
        ?l := Some (lp\<lparr>loop_poller := Some pl, pendingFunctors := [ConnectDestroyed c]\<rparr>))"
    using s1(4) assms(7) by auto
  have "c \<notin> snd ` set (connections (srv s2))" using assms(13) s2(3) by (auto simp: erase_conn_def)
  moreover have "Some c \<notin> functor_owner ` set (queued_in s2 l)"
    if "l \<in> set (server_loops (srv s2))" "l \<noteq> conn_loop ?cn" for l
  proof (cases "l = ?b")
    case True
    then show ?thesis using that(2) by (simp add: queued_in_def s2(5))
  next
    case False
    then have "queued_in s2 l = queued_in s l" using that(2) by (simp add: queued_in_def s2(5) s1(6))
    then show ?thesis using assms(14) [of l] that(1) s2(3) by (simp add: server_loops_def)
  qed
  ultimately obtain s3 tr r where s3: "doPendingFunctors (server_run os me uc) (drop_refs os me) ?l s2 = Inr s3"
      "conns s3 = (conns s2)(c := None)" "chans s3 (conn_channel cn) = None"
      "io_trace s3 = tr @ [(me, CloseFd (conn_fd cn), r)]"
    using destruction_frees [OF s2(2), of "lp\<lparr>loop_poller := Some pl, pendingFunctors := [ConnectDestroyed c]\<rparr>" me uc]
    by (simp add: s2(5)) blast
  have "server_cb os me uc d (ConnHandleClose c) t s = Inr s1" using s1(1) by (simp add: server_cb_def)
  moreover have "conns s3 = (conns s)(c := None)" using s3(2) s2(4) s1(5) by simp
  moreover have "connections (srv s2) = erase_conn (conn_name cn) (connections (srv s))" using s2(3) by simp
  ultimately show ?thesis using s1(3,5) s2(1,4) s3(1,3,4) by blast
qed

theorem closed_connection_is_released_witness:
  "\<exists>s1 s2 s3. let s = example_server kReadEvent (example_conn False kConnected (mkBuffer kInitialSize)) (example_srv [(''srv#1'', 0)]) in
    server_cb (narrow_os 9) 1 quiet_user (mkInetAddress (\<lambda>_. 0) 0 '''') (ConnHandleClose 0) 0 s = Inr s1 \<and>
    doPendingFunctors (server_run (narrow_os 9) 2 quiet_user) (drop_refs (narrow_os 9) 2) 5 s1 = Inr s2 \<and>
    doPendingFunctors (server_run (narrow_os 9) 1 quiet_user) (drop_refs (narrow_os 9) 1) 0 s2 = Inr s3 \<and>
    connections (srv s2) = [] \<and> conns s3 0 = None"
proof -
  let ?cn = "example_conn False kConnected (mkBuffer kInitialSize)"
  let ?s = "example_server kReadEvent ?cn (example_srv [(''srv#1'', 0)])"
  have ok: "conn_ok (narrow_os 9) ?s 0 ?cn" by (rule example_server_ok) simp
  have "ch_index (chan_at ?s ?cn) = kAdded" "hasConnectionCb ?cn" "hasCloseCb ?cn" "onConnection quiet_user 0 False = []"
    "loops ?s (conn_loop ?cn) = Some example_loop" "pendingFunctors example_loop = []"
    "loops ?s (srv_loop (srv ?s)) = Some (idle_loop 2)" "pendingFunctors (idle_loop 2) = []" "threadId (idle_loop 2) \<noteq> 1"
    "srv_loop (srv ?s) \<noteq> conn_loop ?cn" "conn_loop ?cn \<in> set (server_loops (srv ?s))"
    by (simp_all add: chan_at_def example_conn_def quiet_user_def example_loop_def idle_loop_def example_srv_def
        server_loops_def mkThreadPool_def)
  moreover have "n = conn_name ?cn" if "(n, 0) \<in> set (connections (srv ?s))" for n
    using that by (simp add: example_srv_def example_conn_def)
  moreover have "Some 0 \<notin> functor_owner ` set (queued_in ?s l)" for l
    by (simp add: queued_in_def example_loop_def idle_loop_def)
  ultimately obtain s1 s2 s3 where
    "server_cb (narrow_os 9) 1 quiet_user (mkInetAddress (\<lambda>_. 0) 0 '''') (ConnHandleClose 0) 0 ?s = Inr s1"
    "doPendingFunctors (server_run (narrow_os 9) 2 quiet_user) (drop_refs (narrow_os 9) 2) (srv_loop (srv ?s)) s1 = Inr s2"
    "doPendingFunctors (server_run (narrow_os 9) 1 quiet_user) (drop_refs (narrow_os 9) 1) (conn_loop ?cn) s2 = Inr s3"
    "connections (srv s2) = erase_conn (conn_name ?cn) (connections (srv ?s))" "conns s3 = (conns ?s)(0 := None)"
    using closed_connection_is_released [OF ok, of quiet_user example_loop "idle_loop 2" 1 "mkInetAddress (\<lambda>_. 0) 0 ''''" 0 2]
    by blast
  moreover have "srv_loop (srv ?s) = 5" "conn_loop ?cn = 0" "erase_conn (conn_name ?cn) (connections (srv ?s)) = []"
    by (simp_all add: example_srv_def example_conn_def erase_conn_def)
  ultimately show ?thesis unfolding Let_def by auto
qed


lemma server_start_listens:
  assumes os: "loop_fds_given os" and fresh: "fresh_places place 0 n s" and n: "0 < n" "n \<le> 2 ^ 31"
    and nm: "CHR 0x00 \<notin> set name" "name \<noteq> []" and st: "srv_started (srv s) = 0"
    and pool: "srv_pool (srv s) = (mkThreadPool (srv_loop (srv s)) name)\<lparr>numThreads := int n\<rparr>"
    and base: "srv_loop (srv s) = b" "reg_inv os b s" "loops s b = Some bp" "threadId bp = me" "loop_poller bp = Some pl"
    and old: "\<And>tr. ret (os tr EpollCreate) \<noteq> epollfd pl"
    and acc: "chans s (acc_chan (srv_acceptor (srv s))) = Some ch" "ch_loop ch = b"
      "\<And>tr. ret (os tr (Listen (acc_fd (srv_acceptor (srv s))) 1024)) = 0"
    and init: "\<And>l t t'. init_cb l t = Inr t' \<Longrightarrow> net_frame t t'"
  shows "\<exists>s'. server_start os me uc False place init_cb s = Inr s' \<and> srv_started (srv s') = 1 \<and>
    pool_ok (srv_pool (srv s')) \<and> pool_loops (srv_pool (srv s')) = map (\<lambda>i. fst (snd (place i))) [0..<n] \<and>
    (\<forall>i < n. case place i of (t, l, p) \<Rightarrow> t_loopInthisThread s' t = Some l \<and>
       (\<exists>lp. loops s' l = Some lp \<and> threadId lp = t)) \<and>
    listenning (srv_acceptor (srv s')) \<and> reg_inv os b s' \<and>
    registered b s' (acc_chan (srv_acceptor (srv s'))) = Some (ch_events ch OR kReadEvent)"
proof -
  let ?acc = "srv_acceptor (srv s)" and ?cb = "if srvThreadInitCb (srv s) then Some init_cb else None"
  define s1 where "s1 = put_srv ((srv s)\<lparr>srv_started := 1\<rparr>) s"
  have s1: "loops s1 = loops s" "chans s1 = chans s" "io_trace s1 = io_trace s" "t_loopInthisThread s1 = t_loopInthisThread s"
    "srv s1 = (srv s)\<lparr>srv_started := 1\<rparr>" by (simp_all add: s1_def) (simp add: put_srv_def)
  have fresh1: "fresh_places place 0 n s1" using fresh by (simp add: fresh_places_def s1)
  have bl: "b \<notin> (\<lambda>i. fst (snd (place i))) ` {..<n}"
  proof
    assume "b \<in> (\<lambda>i. fst (snd (place i))) ` {..<n}"
    then obtain i where i: "i < n" "b = fst (snd (place i))" by auto
    obtain t l p where pl: "place i = (t, l, p)" by (cases "place i")
    from fresh i(1) have "case place i of (t, l, p) \<Rightarrow> t_loopInthisThread s t = None \<and> chans s p = None \<and>
       (\<forall>q d. chans s q = Some d \<longrightarrow> ch_loop d \<noteq> l)" unfolding fresh_places_def by simp
    with acc(1,2) i(2) show False by (simp add: pl)
  qed
  obtain pool' num s2 where
    s2: "pool_start os False place ?cb ((mkThreadPool b name)\<lparr>numThreads := int n\<rparr>, numCreated s, s1) = Inr (pool', num, s2)"
      "pool_loops pool' = map (\<lambda>i. fst (snd (place i))) [0..<n]" "pool_ok pool'"
      "\<forall>i < n. case place i of (t, l, p) \<Rightarrow> t_loopInthisThread s2 t = Some l \<and> (\<exists>lp. loops s2 l = Some lp \<and> threadId lp = t)"
      "\<forall>b. b \<notin> (\<lambda>i. fst (snd (place i))) ` {..<n} \<longrightarrow> loop_frame os b s1 s2"
    using pool_starts [OF os fresh1 n nm, of ?cb b "numCreated s"] by (elim exE conjE) (rule that)
  have fr: "loop_frame os b s1 s2" using s2(5) bl by blast
  have reg1: "reg_inv os b s1"
    by (rule reg_inv_frame [OF base(2,3), where lp' = bp]) (simp_all add: s1 base(3))
  have reg2: "reg_inv os b s2"
    by (rule reg_inv_loop_frame [OF reg1 fr _ base(5) old]) (simp add: s1(1) base(3))
  have lp2: "loops s2 b = Some bp" and ch2: "chans s2 (acc_chan ?acc) = Some ch"
    using fr base(3) acc(1,2) by (simp_all add: loop_frame_def s1)
  have nf: "net_frame s1 s2"
    by (rule pool_start_net [OF _ s2(1)]) (auto intro: init split: if_splits)
  have srv2: "srv s2 = srv s1" by (rule net_frame_srv [OF nf refl])
  define s3 where "s3 = put_srv ((srv s2)\<lparr>srv_pool := pool'\<rparr>) (s2\<lparr>numCreated := num\<rparr>)"
  have s3: "loops s3 = loops s2" "chans s3 = chans s2" "io_trace s3 = io_trace s2"
      "t_loopInthisThread s3 = t_loopInthisThread s2" "srv s3 = (srv s1)\<lparr>srv_pool := pool'\<rparr>"
    using srv2 by (simp_all add: s3_def) (simp add: put_srv_def)
  have acc3: "srv_acceptor (srv s3) = ?acc" by (simp add: s3(5) s1(5))
  have reg3: "reg_inv os b s3"
    by (rule reg_inv_frame [OF reg2 lp2, where lp' = bp]) (simp_all add: s3 lp2)
  have "chans s3 (acc_chan ?acc) = Some ch" using ch2 by (simp add: s3(2))
  from acceptor_listen_ok [OF reg3 this acc(2), of me] acc(3) obtain s4 where
    s4: "acceptor_listen os me ?acc s3 = Inr (?acc\<lparr>listenning := True\<rparr>, s4)" "reg_inv os b s4"
      "registered b s4 (acc_chan ?acc) = Some (ch_events ch OR kReadEvent)" "only_poller b s3 s4" by auto
  have srv4: "srv s4 = srv s3" by (rule net_frame_srv [OF acceptor_listen_net [OF s4(1)] refl])
  define s5 where "s5 = put_srv ((srv s4)\<lparr>srv_acceptor := ?acc\<lparr>listenning := True\<rparr>\<rparr>) s4"
  have s5: "loops s5 = loops s4" "chans s5 = chans s4" "io_trace s5 = io_trace s4"
      "t_loopInthisThread s5 = t_loopInthisThread s4" by (simp_all add: s5_def) (simp add: put_srv_def)
  have "server_run os me uc AcceptorListen s3 = Inr s5"
    using s4(1) by (simp add: server_run_def server_listen_def acc3 s5_def)
  then have "runInLoop os me (server_run os me uc) b AcceptorListen s3 = Inr s5"
    using lp2 base(4) by (simp add: runInLoop_def isInLoopThread_def s3(1))
  then have run: "server_start os me uc False place init_cb s = Inr s5"
    using st s2(1) base(1) by (simp add: server_start_def Let_def pool s1_def s3_def put_srv_def) (simp add: srv2 [unfolded s1_def put_srv_def])
  have "case place i of (t, l, p) \<Rightarrow> t_loopInthisThread s5 t = Some l \<and> (\<exists>lp. loops s5 l = Some lp \<and> threadId lp = t)"
    if "i < n" for i
  proof -
    obtain t l p where pl: "place i = (t, l, p)" by (cases "place i")
    have "l \<noteq> b" using bl that pl by (metis fst_conv snd_conv imageI lessThan_iff)
    with s2(4) that s4(4) show ?thesis by (auto simp: pl s5 only_poller_def s3)
  qed
  moreover have "reg_inv os b s5"
  proof -
    from s4(2) obtain lp4 where lp4: "loops s4 b = Some lp4" by (auto simp: reg_inv_def reg_inv_except_def)
    show ?thesis by (rule reg_inv_frame [OF s4(2) lp4, where lp' = lp4]) (simp_all add: s5 lp4)
  qed
  moreover have "registered b s5 q = registered b s4 q" for q
    by (simp add: registered_def chan_of_def kernel_view_def s5 cong: option.case_cong)
  ultimately show ?thesis
    using run s2(2,3) s4(3) srv4 s3(5) s1(5) by (intro exI [of _ s5]) (simp add: s5_def)
qed


definition giving_os :: os where
  "giving_os tr call = (case call of EpollCreate \<Rightarrow> ret_val 20 | _ \<Rightarrow> plain_os tr call)"


end
