(* ===== verification/EchoServer.thy ===== *)
theory EchoServer
  imports TcpServer
begin

section \<open>The echo server (example/testserver.cc)\<close>

text \<open>
  The program that the repository ships: a server on port 1997 with three worker loops whose
  message callback takes everything out of the buffer, sends it back and shuts the writing side
  down. What its callbacks print is left out.
\<close>

subsection \<open>The program\<close>

definition echo_onMessage :: "conn_id \<Rightarrow> byte list \<Rightarrow> int \<Rightarrow> user_call list" where
  "echo_onMessage c d t = [UcRetrieveAll c, UcSend c d, UcShutdown c]"

definition echo_user :: user_code where
  "echo_user = \<lparr>onConnection = (\<lambda>c up. []), onMessage = echo_onMessage, onWriteComplete = (\<lambda>c. []),
     onHighWaterMark = (\<lambda>c n. [])\<rparr>"

definition mkEchoServer :: "os \<Rightarrow> tid \<Rightarrow> loop_id \<Rightarrow> inet_address \<Rightarrow> string \<Rightarrow> 'a server_net_scheme \<Rightarrow>
    'a server_net_scheme res" where
  "mkEchoServer os me l addr name s =
     rbind (mkTcpServer os me (Some l) addr name False s) (\<lambda>s.
     Inr (put_srv (setThreadNum 3 (setMessageCallback True (setConnectionCallback True (srv s)))) s))"

definition echo_start :: "os \<Rightarrow> tid \<Rightarrow> bool \<Rightarrow> (nat \<Rightarrow> tid \<times> loop_id \<times> chan_id) \<Rightarrow> 'a server_net_scheme \<Rightarrow>
    'a server_net_scheme res" where
  "echo_start os me use_poll place s = server_start os me echo_user use_poll place (\<lambda>_. Inr) s"

text \<open>
  \<open>main\<close> up to \<open>loop.loop()\<close>; \<open>l\<close> and \<open>p\<close> are the addresses of the loop and of its wakeup channel. Then
  all of it, with a bound \<open>n\<close> on the turns of the base loop.
\<close>

definition echo_setup :: "os \<Rightarrow> tid \<Rightarrow> bool \<Rightarrow> (string \<Rightarrow> 32 word) \<Rightarrow> loop_id \<Rightarrow> chan_id \<Rightarrow>
    (nat \<Rightarrow> tid \<times> loop_id \<times> chan_id) \<Rightarrow> 'a server_net_scheme \<Rightarrow> 'a server_net_scheme res" where
  "echo_setup os me use_poll inet_addr l p place s =
     rbind (mkEventLoop os me use_poll l p s) (\<lambda>s.
     rbind (mkEchoServer os me l (mkInetAddress inet_addr 1997 ''127.0.0.1'') ''EchoServer-01'' s)
       (echo_start os me use_poll place))"

definition echo_main :: "os \<Rightarrow> tid \<Rightarrow> bool \<Rightarrow> (string \<Rightarrow> 32 word) \<Rightarrow> inet_address \<Rightarrow> loop_id \<Rightarrow> chan_id \<Rightarrow>
    (nat \<Rightarrow> tid \<times> loop_id \<times> chan_id) \<Rightarrow> nat \<Rightarrow> 'a server_net_scheme \<Rightarrow> 'a server_net_scheme res option" where
  "echo_main os me use_poll inet_addr default_peer l p place n s =
     (case echo_setup os me use_poll inet_addr l p place s of
        Inl e \<Rightarrow> Some (Inl e)
      | Inr s \<Rightarrow> loop (server_turn os me echo_user default_peer l) l n s)"

subsection \<open>One message\<close>

text \<open>Without a write-complete and a high-water callback \<open>sendInLoop\<close> is one \<open>write\<close> or nothing.\<close>

lemma sendInLoop_plain:
  assumes ok: "conn_ok os s c cn" and "conn_state cn \<noteq> kDisconnected" "\<not> hasWriteCompleteCb cn" "\<not> hasHighWaterCb cn"
  shows "sendInLoop os me c msg s =
    Inr (if writes_directly s cn then snd (do_call os me (WriteFd (conn_fd cn) msg) s) else s)"
proof -
  have g: "(\<not> isWriting (chan_at s cn) \<and> readableBytes (outputBuffer cn) = 0) = writes_directly s cn"
    using readable_zero [OF conn_okD(5) [OF ok]] by (simp add: writes_directly_def)
  have rest: "buffer_rest os me c d n t = Inr t" if "conns t c = Some cn" for d n t
    using that assms(4) by (simp add: buffer_rest_def Let_def)
  have c: "conns s c = Some cn" by (rule conn_okD(1) [OF ok])
  show ?thesis
    using assms(2,3) c conn_ok_chan(3) [OF ok] g rest [OF c] rest [of "snd (do_call os me (WriteFd (conn_fd cn) msg) s)"]
    by (simp add: sendInLoop_def direct_write_def split_beta Let_def)
qed

lemma conn_ok_strings: "conn_ok os s c cn \<Longrightarrow> conn_ok os (s\<lparr>strings := x, next_string := n\<rparr>) c cn"
  by (simp add: conn_ok_def reg_inv_def reg_inv_except_def poller_inv_def distinct_fds_def kernel_view_def)

lemma conn_ok_strings': "conn_ok os s c cn \<Longrightarrow> conn_ok os (s\<lparr>strings := x\<rparr>) c cn"
  by (simp add: conn_ok_def reg_inv_def reg_inv_except_def poller_inv_def distinct_fds_def kernel_view_def)

text \<open>The calls of the message callback, in the loop of the connection.\<close>

lemma echo_calls:
  assumes ok: "conn_ok os s c cn" and st: "conn_state cn = kConnected" and cb: "\<not> hasWriteCompleteCb cn" "\<not> hasHighWaterCb cn"
    and lp: "loops s (conn_loop cn) = Some lp" "threadId lp = me" and w: "writes_directly s cn"
    and d: "d = contents (inputBuffer cn)"
  shows "\<exists>s' lp'. run_calls os me (echo_onMessage c d t) s = Inr s' \<and>
    conn_ok os s' c (cn\<lparr>inputBuffer := retrieveAll (inputBuffer cn), conn_state := kDisconnecting\<rparr>) \<and>
    chan_at s' cn = chan_at s cn \<and>
    written (conn_fd cn) (io_trace s') =
      written (conn_fd cn) (io_trace s) @ take (nat (ret (os (io_trace s) (WriteFd (conn_fd cn) d)))) d \<and>
    fins (conn_fd cn) (io_trace s') = fins (conn_fd cn) (io_trace s) \<and>
    loops s' = (loops s)(conn_loop cn := Some lp') \<and> pendingFunctors lp' = pendingFunctors lp @ [ShutdownInLoop c]"
proof -
  let ?cn = "cn\<lparr>inputBuffer := retrieveAll (inputBuffer cn)\<rparr>" and ?a = "next_string s"
  let ?dn = "?cn\<lparr>conn_state := kDisconnecting\<rparr>"
  note wf = conn_okD(4,5) [OF ok]
  define t1 where "t1 = put_conn c ?cn s"
  have ok1: "conn_ok os t1 c ?cn" unfolding t1_def
    by (rule put_conn_ok [OF ok]) (simp_all add: wf retrieveAll_wf)
  define t2 where "t2 = t1\<lparr>strings := (strings t1)(?a := Some d), next_string := Suc ?a\<rparr>"
  have ok2: "conn_ok os t2 c ?cn" unfolding t2_def by (rule conn_ok_strings [OF ok1])
  have same2: "chans t2 = chans s" "loops t2 = loops s" "io_trace t2 = io_trace s" "strings t2 ?a = Some d"
    "next_string t2 = Suc ?a" by (simp_all add: t2_def t1_def)
  have w2: "writes_directly t2 ?cn" using w same2(1) by (simp add: writes_directly_def chan_at_def)
  define t3 where "t3 = snd (do_call os me (WriteFd (conn_fd cn) d) t2)"
  have ok3: "conn_ok os t3 c ?cn" unfolding t3_def by (rule call_conn [OF ok2]) simp
  have same3: "chans t3 = chans s" "loops t3 = loops s" "next_string t3 = Suc ?a"
    "written (conn_fd cn) (io_trace t3) = written (conn_fd cn) (io_trace s) @
        take (nat (ret (os (io_trace s) (WriteFd (conn_fd cn) d)))) d"
    "fins (conn_fd cn) (io_trace t3) = fins (conn_fd cn) (io_trace s)"
    by (simp_all add: t3_def same2 same2(3))
  have send: "send os me c ?a t2 = Inr t3"
    using sendInLoop_plain [OF ok2, of me d] st cb w2 conn_okD(1) [OF ok2] lp same2
    by (simp add: send_def isInLoopThread_def get_string_def t3_def)
  define t4 where "t4 = put_conn c ?dn t3"
  have ok4: "conn_ok os t4 c ?dn" unfolding t4_def using setState_conn(2) [OF ok3] by simp
  obtain t5 lq lp' where t5: "queueInLoop os me (conn_loop ?dn) (ShutdownInLoop c) t4 = Inr t5" "conn_ok os t5 c ?dn"
      "net_view t5 = net_view t4" "chans t5 = chans t4"
      "written (conn_fd ?dn) (io_trace t5) = written (conn_fd ?dn) (io_trace t4)"
      "fins (conn_fd ?dn) (io_trace t5) = fins (conn_fd ?dn) (io_trace t4)"
      "loops t4 (conn_loop ?dn) = Some lq" "loops t5 = (loops t4)(conn_loop ?dn := Some lp')"
      "pendingFunctors lp' = pendingFunctors lq @ [ShutdownInLoop c]"
    using queueInLoop_conn [OF ok4, of me "ShutdownInLoop c"] by (elim exE conjE) (rule that)
  have lq: "lq = lp" using t5(7) lp(1) same3(2) by (simp add: t4_def)
  have sd: "shutdown os me c t3 = Inr t5"
    using t5(1) conn_okD(1,2) [OF ok3] st setState_conn(1) [OF ok3, of kDisconnecting] by (simp add: shutdown_def t4_def)
  define t6 where "t6 = t5\<lparr>strings := (\<lambda>a. if ?a \<le> a then None else strings t5 a)\<rparr>"
  have "foldr_res (run_call os me) (echo_onMessage c d t) s = Inr t5"
    using retrieveAllAsString_ok [OF wf(1)] conn_okD(1) [OF ok] send sd
    by (simp add: echo_onMessage_def t1_def t2_def)
  then have "run_calls os me (echo_onMessage c d t) s = Inr t6" by (simp add: run_calls_def t6_def)
  moreover have "conn_ok os t6 c ?dn" unfolding t6_def by (rule conn_ok_strings' [OF t5(2)])
  moreover have "chans t6 = chans s" "loops t6 = (loops s)(conn_loop cn := Some lp')"
    "io_trace t6 = io_trace t5" using t5(4,8) same3(1,2) by (simp_all add: t6_def t4_def)
  ultimately show ?thesis
    using t5(5,6,9) same3(4,5) lq by (intro exI [of _ t6] exI [of _ lp']) (simp add: chan_at_def t4_def)
qed

text \<open>A readable event of an established connection on which nothing waits to be sent.\<close>

definition read_reply :: "os \<Rightarrow> 'a net_scheme \<Rightarrow> tcpconn \<Rightarrow> sysret" where
  "read_reply os s cn = os (io_trace s) (Readv (conn_fd cn) (readv_lens (inputBuffer cn)))"

definition write_reply :: "os \<Rightarrow> tid \<Rightarrow> 'a net_scheme \<Rightarrow> tcpconn \<Rightarrow> byte list \<Rightarrow> sysret" where
  "write_reply os me s cn d =
     os (io_trace s @ [(me, Readv (conn_fd cn) (readv_lens (inputBuffer cn)), read_reply os s cn)]) (WriteFd (conn_fd cn) d)"

definition echo_ready :: "os \<Rightarrow> tid \<Rightarrow> 'a net_scheme \<Rightarrow> conn_id \<Rightarrow> tcpconn \<Rightarrow> eventloop \<Rightarrow> bool" where
  "echo_ready os me s c cn lp \<longleftrightarrow> conn_ok os s c cn \<and> conn_state cn = kConnected \<and> hasMessageCb cn \<and>
     \<not> hasWriteCompleteCb cn \<and> \<not> hasHighWaterCb cn \<and> writes_directly s cn \<and>
     loops s (conn_loop cn) = Some lp \<and> threadId lp = me"

lemma echo_read:
  assumes ready: "echo_ready os me s c cn lp"
    and rd: "readFd (readv_answer (read_reply os s cn)) (inputBuffer cn) = Inr (n, b, e)" "0 < n" "buf_wf b"
  shows "\<exists>s' lp'. handleRead os me echo_user closeCb c t s = Inr s' \<and>
    conn_ok os s' c (cn\<lparr>inputBuffer := retrieveAll b, conn_state := kDisconnecting\<rparr>) \<and>
    chan_at s' cn = chan_at s cn \<and>
    written (conn_fd cn) (io_trace s') = written (conn_fd cn) (io_trace s) @
      take (nat (ret (write_reply os me s cn (contents b)))) (contents b) \<and>
    fins (conn_fd cn) (io_trace s') = fins (conn_fd cn) (io_trace s) \<and>
    loops s' = (loops s)(conn_loop cn := Some lp') \<and> pendingFunctors lp' = pendingFunctors lp @ [ShutdownInLoop c]"
proof -
  have ok: "conn_ok os s c cn" and st: "conn_state cn = kConnected" "hasMessageCb cn" "\<not> hasWriteCompleteCb cn"
      "\<not> hasHighWaterCb cn" "writes_directly s cn" "loops s (conn_loop cn) = Some lp" "threadId lp = me"
    using ready by (simp_all add: echo_ready_def)
  let ?call = "Readv (conn_fd cn) (readv_lens (inputBuffer cn))" and ?cn = "cn\<lparr>inputBuffer := b\<rparr>"
  define s1 where "s1 = snd (do_call os me ?call s)"
  have call: "do_call os me ?call s = (read_reply os s cn, s1)" by (simp add: s1_def read_reply_def prod_eq_iff)
  have ok1: "conn_ok os s1 c cn" unfolding s1_def by (rule call_conn [OF ok]) simp
  define s2 where "s2 = put_conn c ?cn s1"
  have ok2: "conn_ok os s2 c ?cn" unfolding s2_def
    by (rule put_conn_ok [OF ok1]) (use conn_okD(5) [OF ok] rd(3) in simp_all)
  have same2: "chans s2 = chans s" "loops s2 = loops s" "written (conn_fd cn) (io_trace s2) = written (conn_fd cn) (io_trace s)"
    "fins (conn_fd cn) (io_trace s2) = fins (conn_fd cn) (io_trace s)" by (simp_all add: s2_def s1_def)
  have tr2: "io_trace s2 = io_trace s @ [(me, ?call, read_reply os s cn)]" by (simp add: s2_def s1_def read_reply_def)
  have w2: "writes_directly s2 ?cn" using st(5) same2(1) by (simp add: writes_directly_def chan_at_def)
  have "handleRead os me echo_user closeCb c t s = run_calls os me (echo_onMessage c (contents b) t) s2"
    using rd(1,2) conn_okD(1) [OF ok] conn_okD(1) [OF ok1] conn_okD(1) [OF ok2] call st(2)
    by (simp add: handleRead_def call_messageCb_def echo_user_def s2_def)
  moreover obtain s' lp' where "run_calls os me (echo_onMessage c (contents b) t) s2 = Inr s'"
    "conn_ok os s' c (?cn\<lparr>inputBuffer := retrieveAll b, conn_state := kDisconnecting\<rparr>)" "chan_at s' ?cn = chan_at s2 ?cn"
    "written (conn_fd cn) (io_trace s') = written (conn_fd cn) (io_trace s2) @
        take (nat (ret (os (io_trace s2) (WriteFd (conn_fd cn) (contents b))))) (contents b)"
    "fins (conn_fd cn) (io_trace s') = fins (conn_fd cn) (io_trace s2)"
    "loops s' = (loops s2)(conn_loop cn := Some lp')" "pendingFunctors lp' = pendingFunctors lp @ [ShutdownInLoop c]"
    using echo_calls [OF ok2 _ _ _ _ st(7) w2 refl, of t] st same2(2) by auto
  ultimately show ?thesis
    using same2 by (intro exI [of _ s'] exI [of _ lp']) (simp add: chan_at_def write_reply_def tr2)
qed

text \<open>What a fresh buffer makes of the bytes the kernel delivers: eight of them arrive.\<close>

lemma fresh_readFd:
  assumes "length d \<le> 1024"
  shows "\<exists>b. readFd (Inr d) (mkBuffer kInitialSize) = Inr (int (length d), b, None) \<and> buf_wf b \<and>
    contents b = take 8 d @ replicate (length d - 8) 0"
proof -
  have k: "unat kInitialSize = 1024" "unat kInitialSize \<le> max_size - 8" by (simp_all add: kInitialSize_def max_size_def)
  note num = mkBuffer_numbers [OF k(2)]
  have cap: "length d \<le> readFd_capacity (mkBuffer kInitialSize)"
    using assms by (simp add: readFd_capacity_eq [OF mkBuffer_initial_wf] num k(1) extrabuf_size_def)
  have free: "length d \<le> free_space (mkBuffer kInitialSize)" using assms by (simp add: num k(1))
  have sl: "slice (8 + min 8 (length d)) (8 + length d) (replicate 1032 (0 :: byte)) = replicate (length d - 8) 0"
    using assms by (simp add: slice_def min_def)
  from readFd_in_vector [OF mkBuffer_initial_wf cap free] sl show ?thesis by (simp add: num k(1))
qed

subsection \<open>Properties\<close>

text \<open>
  C23: the first message of a connection of the echo server, up to 1024 bytes, when nothing else waits
  to be sent and the kernel takes the whole reply. What is sent back is as long as the message but
  only its first eight bytes are right, the others are zero: a message of up to eight bytes is
  echoed, a longer one is damaged. The connection is then shutting down; when the queued closure
  has run, the writing side is shut down, once, after the reply.
\<close>

theorem echo_first_message:
  assumes "echo_ready os me s c cn lp" "inputBuffer cn = mkBuffer kInitialSize" "length d \<in> {1..1024}"
    "ret (read_reply os s cn) = int (length d)" "rdata (read_reply os s cn) = d"
    "ret (write_reply os me s cn (take 8 d @ replicate (length d - 8) 0)) = int (length d)"
  shows "\<exists>s1 lp1 s2. handleRead os me echo_user closeCb c t s = Inr s1 \<and>
    loops s1 = (loops s)(conn_loop cn := Some lp1) \<and> pendingFunctors lp1 = pendingFunctors lp @ [ShutdownInLoop c] \<and>
    shutdownInLoop os me c s1 = Inr s2 \<and>
    map_option conn_state (conns s2 c) = Some kDisconnecting \<and>
    written (conn_fd cn) (io_trace s2) =
      written (conn_fd cn) (io_trace s) @ take 8 d @ replicate (length d - 8) 0 \<and>
    fins (conn_fd cn) (io_trace s1) = fins (conn_fd cn) (io_trace s) \<and>
    fins (conn_fd cn) (io_trace s2) = Suc (fins (conn_fd cn) (io_trace s))"
proof -
  have len: "length d \<le> 1024" "0 < length d" using assms(3) by auto
  have ans: "readv_answer (read_reply os s cn) = Inr d" using assms(4,5) by (simp add: readv_answer_def)
  from fresh_readFd [OF len(1)] obtain b where
    b: "readFd (readv_answer (read_reply os s cn)) (inputBuffer cn) = Inr (int (length d), b, None)" "buf_wf b"
      "contents b = take 8 d @ replicate (length d - 8) 0" by (auto simp: ans assms(2))
  let ?cn = "cn\<lparr>inputBuffer := retrieveAll b, conn_state := kDisconnecting\<rparr>"
  have pos: "0 < int (length d)" using len(2) by simp
  obtain s1 lp1 where s1: "handleRead os me echo_user closeCb c t s = Inr s1" "conn_ok os s1 c ?cn"
      "chan_at s1 cn = chan_at s cn"
      "written (conn_fd cn) (io_trace s1) = written (conn_fd cn) (io_trace s) @
        take (nat (ret (write_reply os me s cn (contents b)))) (contents b)"
      "fins (conn_fd cn) (io_trace s1) = fins (conn_fd cn) (io_trace s)"
      "loops s1 = (loops s)(conn_loop cn := Some lp1)" "pendingFunctors lp1 = pendingFunctors lp @ [ShutdownInLoop c]"
    using echo_read [OF assms(1) b(1) pos b(2), of closeCb t] by (elim exE conjE) (rule that)
  have "\<not> isWriting (chan_at s1 ?cn)" using assms(1) s1(3)
    by (simp add: echo_ready_def writes_directly_def chan_at_def)
  then have "shutdownInLoop os me c s1 = Inr (snd (do_call os me (ShutdownWr (conn_fd cn)) s1))"
    using conn_okD(2) [OF s1(2)] conn_ok_chan(3) [OF s1(2)] by (simp add: shutdownInLoop_def)
  moreover have "take (length d) (contents b) = contents b" using b(3) len by (simp add: min_def)
  ultimately show ?thesis
    using s1 assms(6) b(3) conn_okD(1) [OF s1(2)]
    by (intro exI [of _ s1] exI [of _ lp1] exI [of _ "snd (do_call os me (ShutdownWr (conn_fd cn)) s1)"]) simp
qed

definition ten_bytes_os :: os where
  "ten_bytes_os tr call = (case call of
     Readv fd lens \<Rightarrow> \<lparr>ret = 10, err = 0, rdata = [1, 2, 3, 4, 5, 6, 7, 8, 9, 10], revs = []\<rparr>
   | _ \<Rightarrow> plain_os tr call)"

theorem echo_first_message_witness:
  "\<exists>s1 s2. handleRead ten_bytes_os 1 echo_user (\<lambda>_. Inr) 0 0
      (example_net kReadEvent (example_conn False kConnected (mkBuffer kInitialSize))) = Inr s1 \<and>
    shutdownInLoop ten_bytes_os 1 0 s1 = Inr s2 \<and>
    written 7 (io_trace s2) = [1, 2, 3, 4, 5, 6, 7, 8, 0, 0]"
proof -
  let ?cn = "example_conn False kConnected (mkBuffer kInitialSize)"
  let ?s = "example_net kReadEvent ?cn" and ?d = "[1, 2, 3, 4, 5, 6, 7, 8, 9, 10] :: byte list"
  have doc: "epoll_ctl_documented ten_bytes_os"
    by (simp add: epoll_ctl_documented_def ten_bytes_os_def plain_os_def ret_val_def)
  have "conn_ok (narrow_os 9) ?s 0 ?cn" by (rule example_net_ok) simp
  then have ok: "conn_ok ten_bytes_os ?s 0 ?cn"
    using doc by (simp add: conn_ok_def reg_inv_def reg_inv_except_def)
  have "echo_ready ten_bytes_os 1 ?s 0 ?cn example_loop"
    using ok unfolding echo_ready_def writes_directly_def
    by (simp add: example_conn_def example_net_def example_loop_def idle_loop_def chan_at_def)
  moreover have "inputBuffer ?cn = mkBuffer kInitialSize" by (simp add: example_conn_def)
  moreover have "ret (read_reply ten_bytes_os ?s ?cn) = int (length ?d)" "rdata (read_reply ten_bytes_os ?s ?cn) = ?d"
    "ret (write_reply ten_bytes_os 1 ?s ?cn (take 8 ?d @ replicate (length ?d - 8) 0)) = int (length ?d)"
    "length ?d \<in> {1..1024}"
    by (simp_all add: read_reply_def write_reply_def ten_bytes_os_def plain_os_def ret_val_def)
  ultimately obtain s1 s2 where "handleRead ten_bytes_os 1 echo_user (\<lambda>_. Inr) 0 0 ?s = Inr s1"
    "shutdownInLoop ten_bytes_os 1 0 s1 = Inr s2"
    "written (conn_fd ?cn) (io_trace s2) = written (conn_fd ?cn) (io_trace ?s) @ take 8 ?d @ replicate (length ?d - 8) 0"
    using echo_first_message [of ten_bytes_os 1 ?s 0 ?cn example_loop ?d "\<lambda>_. Inr" 0] by blast
  then show ?thesis by (intro exI [of _ s1] exI [of _ s2]) (simp add: numeral_2_eq_2)
qed

end
