(* ===== verification/ServerInv.thy ===== *)
theory ServerInv
  imports EchoServer
begin

section \<open>The state of a running server\<close>

text \<open>
  What holds between any two callbacks or functors of a server whose threads have been started: every
  loop agrees with its poller and the kernel; every channel is the wakeup channel of a loop, the
  listening channel or the channel of a live connection, on a descriptor of its own; what waits in
  the queues of the loops refers to live connections in the right state; a connection that
  neither the map nor a queue holds is no longer known to its poller; and the listening channel, once
  the server listens, is registered for reading. This theory defines the invariant and shows what the single operations of the library do to it.
\<close>

subsection \<open>Loops\<close>

text \<open>What never changes in a loop: its thread, its eventfd with its channel, its epoll descriptor.\<close>

definition loop_sig :: "eventloop \<Rightarrow> tid \<times> int \<times> chan_id \<times> int option" where
  "loop_sig lp = (threadId lp, wakeFd lp, wakeupChannel lp, map_option epollfd (loop_poller lp))"

definition sig_of :: "'a reactor_scheme \<Rightarrow> loop_id \<Rightarrow> (tid \<times> int \<times> chan_id \<times> int option) option" where
  "sig_of s l = map_option loop_sig (loops s l)"

definition thread_of :: "'a reactor_scheme \<Rightarrow> loop_id \<Rightarrow> tid" where
  "thread_of s l = (case loops s l of None \<Rightarrow> 0 | Some lp \<Rightarrow> threadId lp)"

definition epfd_of :: "'a reactor_scheme \<Rightarrow> loop_id \<Rightarrow> int option" where
  "epfd_of s l = (case loops s l of None \<Rightarrow> None | Some lp \<Rightarrow> map_option epollfd (loop_poller lp))"

definition callbacks_of :: "channel \<Rightarrow> channel_cb option \<times> channel_cb option \<times> channel_cb option \<times> channel_cb option" where
  "callbacks_of c = (readCallback c, writeCallback c, closeCallback c, errorCallback c)"

definition conn_callbacks :: "conn_id \<Rightarrow> channel_cb option \<times> channel_cb option \<times> channel_cb option \<times> channel_cb option" where
  "conn_callbacks k = (Some (ConnHandleRead k), Some (ConnHandleWrite k), Some (ConnHandleClose k), Some (ConnHandleError k))"

abbreviation workers :: "'a server_net_scheme \<Rightarrow> loop_id list" where
  "workers s \<equiv> pool_loops (srv_pool (srv s))"

abbreviation base :: "'a server_net_scheme \<Rightarrow> loop_id" where
  "base s \<equiv> srv_loop (srv s)"

abbreviation all_loops :: "'a server_net_scheme \<Rightarrow> loop_id list" where
  "all_loops s \<equiv> server_loops (srv s)"

definition loops_wf :: "os \<Rightarrow> 'a server_net_scheme \<Rightarrow> bool" where
  "loops_wf os s \<longleftrightarrow> distinct (all_loops s) \<and>
     (\<forall>l \<in> set (all_loops s). reg_inv os l s \<and>
        (\<exists>lp c. loops s l = Some lp \<and> chans s (wakeupChannel lp) = Some c \<and> ch_loop c = l \<and> ch_fd c = wakeFd lp \<and>
           callbacks_of c = (Some (LoopHandleRead l), None, None, None))) \<and>
     inj_on (epfd_of s) (set (all_loops s)) \<and> inj_on (thread_of s) (set (all_loops s))"

subsection \<open>Channels and connections\<close>

text \<open>The three kinds of channels.\<close>

definition chan_kind :: "'a server_net_scheme \<Rightarrow> chan_id \<Rightarrow> channel \<Rightarrow> bool" where
  "chan_kind s p c \<longleftrightarrow>
     callbacks_of c = (Some (LoopHandleRead (ch_loop c)), None, None, None) \<or>
     callbacks_of c = (Some AcceptorHandleRead, None, None, None) \<and> ch_loop c = base s \<and> p = acc_chan (srv_acceptor (srv s)) \<or>
     (\<exists>k cn. callbacks_of c = conn_callbacks k \<and> conns s k = Some cn \<and> conn_channel cn = p)"

definition chans_wf :: "'a server_net_scheme \<Rightarrow> bool" where
  "chans_wf s \<longleftrightarrow>
     (\<forall>p c. chans s p = Some c \<longrightarrow> p < next_chan s \<and> ch_fd c \<in> open_fds (io_trace s) \<and> \<not> isWriting c \<and>
        ch_loop c \<in> set (all_loops s) \<and> chan_kind s p c) \<and>
     (\<forall>p q c d. chans s p = Some c \<longrightarrow> chans s q = Some d \<longrightarrow> ch_fd c = ch_fd d \<longrightarrow> p = q)"

text \<open>The callbacks of a connection of a server without a write-complete callback.\<close>

definition conn_static :: "tcpconn \<Rightarrow> bool" where
  "conn_static cn \<longleftrightarrow> hasConnectionCb cn \<and> hasMessageCb cn \<and> hasCloseCb cn \<and> \<not> hasWriteCompleteCb cn \<and> \<not> hasHighWaterCb cn"

text \<open>The input buffer as it was made, up to its bytes.\<close>

definition input_sized :: "tcpconn \<Rightarrow> bool" where
  "input_sized cn \<longleftrightarrow> length (buf_vec (inputBuffer cn)) = 1032"

definition input_empty :: "tcpconn \<Rightarrow> bool" where
  "input_empty cn \<longleftrightarrow> readerIndex (inputBuffer cn) = kCheapPrepend \<and> writeIndex (inputBuffer cn) = kCheapPrepend"

definition has_name :: "tcpserver \<Rightarrow> tcpconn \<Rightarrow> bool" where
  "has_name sv cn \<longleftrightarrow> (\<exists>i. 1 \<le> i \<and> i < nextConnId sv \<and> conn_name cn = srv_name sv @ conn_suffix (ipPort sv) i)"

text \<open>\<open>X\<close>: the connections whose message callback is running.\<close>

definition conns_wf :: "conn_id set \<Rightarrow> 'a server_net_scheme \<Rightarrow> bool" where
  "conns_wf X s \<longleftrightarrow>
     (\<forall>k cn. conns s k = Some cn \<longrightarrow> conn_loop cn \<in> set (workers s) \<and> conn_static cn \<and> input_sized cn \<and>
        (k \<notin> X \<longrightarrow> input_empty cn) \<and> has_name (srv s) cn \<and>
        (\<exists>c. chans s (conn_channel cn) = Some c \<and> ch_loop c = conn_loop cn \<and> ch_fd c = conn_fd cn \<and>
           callbacks_of c = conn_callbacks k)) \<and>
     (\<forall>k k' cn cn'. conns s k = Some cn \<longrightarrow> conns s k' = Some cn' \<longrightarrow> conn_name cn = conn_name cn' \<longrightarrow> k = k')"

subsection \<open>Queues\<close>

text \<open>\<open>B l\<close> is the rest of the batch of functors that the loop \<open>l\<close> is running.\<close>

definition waiting :: "(loop_id \<Rightarrow> Functor list) \<Rightarrow> 'a server_net_scheme \<Rightarrow> loop_id \<Rightarrow> Functor list" where
  "waiting B s l = B l @ queued_in s l"

abbreviation members :: "'a server_net_scheme \<Rightarrow> conn_id set" where
  "members s \<equiv> snd ` set (connections (srv s))"

definition chan_index :: "'a chan_io_scheme \<Rightarrow> chan_id \<Rightarrow> int option" where
  "chan_index s p = map_option ch_index (chans s p)"

text \<open>A raw \<open>this\<close> in a queue is followed by the closure that keeps the connection until it has run.\<close>

fun shutdown_safe :: "conn_id set \<Rightarrow> Functor list \<Rightarrow> bool" where
  "shutdown_safe M [] = True"
| "shutdown_safe M (f # q) = ((case f of ShutdownInLoop k \<Rightarrow> k \<in> M \<or> ConnectDestroyed k \<in> set q | _ \<Rightarrow> True) \<and>
     shutdown_safe M q)"

definition is_established :: "Functor \<Rightarrow> bool" where
  "is_established f \<longleftrightarrow> (\<exists>k. f = ConnectEstablished k)"

text \<open>What may wait in a worker's queue.\<close>

definition worker_functor :: "'a server_net_scheme \<Rightarrow> loop_id \<Rightarrow> Functor \<Rightarrow> bool" where
  "worker_functor s l f \<longleftrightarrow> (\<exists>k cn. conns s k = Some cn \<and> conn_loop cn = l \<and>
     (f = ConnectEstablished k \<and> conn_state cn = kConnecting \<and> chan_index s (conn_channel cn) = Some kNew \<or>
      f = ConnectDestroyed k \<and> conn_state cn = kDisconnected \<or> f = ShutdownInLoop k))"

definition base_functor :: "'a server_net_scheme \<Rightarrow> Functor \<Rightarrow> bool" where
  "base_functor s f \<longleftrightarrow> (\<exists>k cn. f = RemoveConnectionInLoop k \<and> conns s k = Some cn \<and> conn_state cn = kDisconnected)"

definition queues_wf :: "(loop_id \<Rightarrow> Functor list) \<Rightarrow> 'a server_net_scheme \<Rightarrow> bool" where
  "queues_wf B s \<longleftrightarrow> (\<forall>f \<in> set (waiting B s (base s)). base_functor s f) \<and>
     (\<forall>l \<in> set (workers s). (\<forall>f \<in> set (waiting B s l). worker_functor s l f) \<and>
        distinct (filter is_established (waiting B s l)) \<and> shutdown_safe (members s) (waiting B s l))"

text \<open>
  A connection that nobody holds has run \<open>connectDestroyed\<close> in the present batch (\<open>D\<close>) and is gone from
  its poller; \<open>E\<close> are those that the present functor holds. A closed connection that is still in the
  map is about to be removed; \<open>C\<close> are those that are just being closed or removed. A new connection
  waits for \<open>connectEstablished\<close>; an established one is registered for reading with its poller.
\<close>

definition is_up :: "tcpconn \<Rightarrow> bool" where
  "is_up cn \<longleftrightarrow> conn_state cn = kConnected \<or> conn_state cn = kDisconnecting"

definition watched :: "'a chan_io_scheme \<Rightarrow> tcpconn \<Rightarrow> bool" where
  "watched s cn \<longleftrightarrow> (\<exists>c. chans s (conn_channel cn) = Some c \<and> ch_index c = kAdded \<and> ch_events c AND kReadEvent = kReadEvent)"

definition held :: "(loop_id \<Rightarrow> Functor list) \<Rightarrow> 'a server_net_scheme \<Rightarrow> conn_id \<Rightarrow> tcpconn \<Rightarrow> bool" where
  "held B s k cn \<longleftrightarrow> k \<in> members s \<or> RemoveConnectionInLoop k \<in> set (waiting B s (base s)) \<or>
     ConnectDestroyed k \<in> set (waiting B s (conn_loop cn))"

definition life_wf :: "(loop_id \<Rightarrow> Functor list) \<Rightarrow> conn_id set \<Rightarrow> conn_id set \<Rightarrow> conn_id set \<Rightarrow>
    'a server_net_scheme \<Rightarrow> bool" where
  "life_wf B E C D s \<longleftrightarrow> (\<forall>k cn. conns s k = Some cn \<longrightarrow>
     (conn_state cn = kDisconnected \<or> k \<in> members s) \<and>
     (conn_state cn = kDisconnected \<longrightarrow> k \<in> members s \<longrightarrow>
        RemoveConnectionInLoop k \<in> set (waiting B s (base s)) \<or> k \<in> C) \<and>
     (held B s k cn \<or> k \<in> E \<or> k \<in> D \<and> chan_index s (conn_channel cn) = Some kNew) \<and>
     (conn_state cn = kConnecting \<longrightarrow> ConnectEstablished k \<in> set (waiting B s (conn_loop cn)) \<or> k \<in> E) \<and>
     (is_up cn \<longrightarrow> watched s cn \<or> k \<in> E))"

text \<open>The listening channel is there, and once the server listens it is registered for reading.\<close>

definition acceptor_wf :: "'a server_net_scheme \<Rightarrow> bool" where
  "acceptor_wf s \<longleftrightarrow> (\<exists>c. chans s (acc_chan (srv_acceptor (srv s))) = Some c \<and> ch_loop c = base s \<and>
     callbacks_of c = (Some AcceptorHandleRead, None, None, None) \<and>
     (listenning (srv_acceptor (srv s)) \<longrightarrow> ch_index c = kAdded \<and> ch_events c AND kReadEvent = kReadEvent))"

text \<open>All together.\<close>

definition running_inv :: "os \<Rightarrow> (loop_id \<Rightarrow> Functor list) \<Rightarrow> conn_id set \<Rightarrow> conn_id set \<Rightarrow> conn_id set \<Rightarrow> conn_id set \<Rightarrow>
    'a server_net_scheme \<Rightarrow> bool" where
  "running_inv os B X E C D s \<longleftrightarrow> server_inv s \<and> pool_ok (srv_pool (srv s)) \<and> hasNewConnectionCb (srv_acceptor (srv s)) \<and>
     srvConnectionCb (srv s) \<and> srvMessageCb (srv s) \<and> \<not> srvWriteCb (srv s) \<and>
     loops_wf os s \<and> chans_wf s \<and> conns_wf X s \<and> queues_wf B s \<and> life_wf B E C D s \<and> acceptor_wf s"

subsection \<open>What the parts depend on\<close>

definition chan_static :: "channel \<Rightarrow> loop_id \<times> int \<times> (channel_cb option \<times> channel_cb option \<times> channel_cb option \<times> channel_cb option)" where
  "chan_static c = (ch_loop c, ch_fd c, callbacks_of c)"

definition is_wakeup :: "channel \<Rightarrow> bool" where
  "is_wakeup c \<longleftrightarrow> callbacks_of c = (Some (LoopHandleRead (ch_loop c)), None, None, None)"

lemma sig_of_SomeD:
  assumes "sig_of s' l = sig_of s l"
  shows "thread_of s' l = thread_of s l" "epfd_of s' l = epfd_of s l"
  using assms by (auto simp: sig_of_def thread_of_def epfd_of_def loop_sig_def split: option.splits)

lemma sig_of_loop:
  assumes "sig_of s' l = sig_of s l" "loops s l = Some lp"
  obtains lp' where "loops s' l = Some lp'" "threadId lp' = threadId lp" "wakeFd lp' = wakeFd lp"
    "wakeupChannel lp' = wakeupChannel lp"
  using assms by (auto simp: sig_of_def loop_sig_def)

lemma loops_wf_cong:
  assumes wf: "loops_wf os s" and L: "all_loops s' = all_loops s"
    and reg: "\<And>l. l \<in> set (all_loops s) \<Longrightarrow> reg_inv os l s'"
    and sig: "\<And>l. l \<in> set (all_loops s) \<Longrightarrow> sig_of s' l = sig_of s l"
    and wake: "\<And>q c. chans s q = Some c \<Longrightarrow> is_wakeup c \<Longrightarrow> \<exists>c'. chans s' q = Some c' \<and> chan_static c' = chan_static c"
  shows "loops_wf os s'"
proof -
  have "\<exists>lp c. loops s' l = Some lp \<and> chans s' (wakeupChannel lp) = Some c \<and> ch_loop c = l \<and> ch_fd c = wakeFd lp \<and>
      callbacks_of c = (Some (LoopHandleRead l), None, None, None)" if l: "l \<in> set (all_loops s)" for l
  proof -
    from wf l obtain lp c where lp: "loops s l = Some lp" "chans s (wakeupChannel lp) = Some c" "ch_loop c = l"
      "ch_fd c = wakeFd lp" "callbacks_of c = (Some (LoopHandleRead l), None, None, None)"
      unfolding loops_wf_def by blast
    from sig_of_loop [OF sig [OF l] lp(1)] obtain lp' where lp': "loops s' l = Some lp'" "wakeFd lp' = wakeFd lp"
      "wakeupChannel lp' = wakeupChannel lp" .
    from wake [OF lp(2)] lp(3,5) obtain c' where "chans s' (wakeupChannel lp) = Some c'" "chan_static c' = chan_static c"
      by (auto simp: is_wakeup_def)
    with lp lp' show ?thesis by (auto simp: chan_static_def)
  qed
  moreover have "inj_on (epfd_of s') (set (all_loops s))" "inj_on (thread_of s') (set (all_loops s))"
    using wf sig_of_SomeD [OF sig] unfolding loops_wf_def by (auto cong: inj_on_cong)
  ultimately show ?thesis using wf reg unfolding loops_wf_def L by blast
qed

lemma chans_wf_cong:
  assumes wf: "chans_wf s" and L: "all_loops s' = all_loops s" "base s' = base s"
      "acc_chan (srv_acceptor (srv s')) = acc_chan (srv_acceptor (srv s))" "next_chan s \<le> next_chan s'"
    and old: "\<And>q c'. chans s' q = Some c' \<Longrightarrow> \<exists>c. chans s q = Some c \<and> chan_static c' = chan_static c \<and>
      \<not> isWriting c' \<and> ch_fd c \<in> open_fds (io_trace s')"
    and own: "\<And>k cn. conns s k = Some cn \<Longrightarrow> chans s' (conn_channel cn) \<noteq> None \<Longrightarrow>
      \<exists>cn'. conns s' k = Some cn' \<and> conn_channel cn' = conn_channel cn"
  shows "chans_wf s'"
proof -
  have "p < next_chan s' \<and> ch_fd c' \<in> open_fds (io_trace s') \<and> \<not> isWriting c' \<and>
      ch_loop c' \<in> set (all_loops s') \<and> chan_kind s' p c'" if p: "chans s' p = Some c'" for p c'
  proof -
    from old [OF p] obtain c where c: "chans s p = Some c" "chan_static c' = chan_static c" "\<not> isWriting c'"
      "ch_fd c \<in> open_fds (io_trace s')" by blast
    from c(1) wf have w: "p < next_chan s" "ch_loop c \<in> set (all_loops s)" "chan_kind s p c"
      unfolding chans_wf_def by blast+
    from w(3) have "chan_kind s' p c'"
      using own p c(2) L unfolding chan_kind_def chan_static_def prod.inject by fastforce
    with c w L show ?thesis by (auto simp: chan_static_def)
  qed
  moreover have "p = q" if "chans s' p = Some c" "chans s' q = Some d" "ch_fd c = ch_fd d" for p q c d
    using wf old [OF that(1)] old [OF that(2)] that(3) unfolding chans_wf_def chan_static_def prod.inject by metis
  ultimately show ?thesis unfolding chans_wf_def by blast
qed

lemma conns_wf_cong:
  assumes wf: "conns_wf X s" and L: "set (workers s') = set (workers s)" "srv_name (srv s') = srv_name (srv s)"
      "ipPort (srv s') = ipPort (srv s)" "nextConnId (srv s) \<le> nextConnId (srv s')"
    and old: "\<And>k cn'. conns s' k = Some cn' \<Longrightarrow> \<exists>cn. conns s k = Some cn \<and> conn_ident cn' = conn_ident cn \<and>
      conn_static cn' \<and> input_sized cn' \<and> (k \<notin> X' \<longrightarrow> input_empty cn') \<and>
      (\<forall>c. chans s (conn_channel cn) = Some c \<longrightarrow> callbacks_of c = conn_callbacks k \<longrightarrow>
        (\<exists>c'. chans s' (conn_channel cn) = Some c' \<and> chan_static c' = chan_static c))"
  shows "conns_wf X' s'"
proof -
  have "conn_loop cn' \<in> set (workers s') \<and> conn_static cn' \<and> input_sized cn' \<and> (k \<notin> X' \<longrightarrow> input_empty cn') \<and>
      has_name (srv s') cn' \<and> (\<exists>c. chans s' (conn_channel cn') = Some c \<and> ch_loop c = conn_loop cn' \<and>
        ch_fd c = conn_fd cn' \<and> callbacks_of c = conn_callbacks k)" if k: "conns s' k = Some cn'" for k cn'
  proof -
    from old [OF k] obtain cn where cn: "conns s k = Some cn" "conn_ident cn' = conn_ident cn" "conn_static cn'" "input_sized cn'"
      "k \<notin> X' \<longrightarrow> input_empty cn'" "\<forall>c. chans s (conn_channel cn) = Some c \<longrightarrow> callbacks_of c = conn_callbacks k \<longrightarrow>
        (\<exists>c'. chans s' (conn_channel cn) = Some c' \<and> chan_static c' = chan_static c)" by blast
    from cn(1) wf obtain c where w: "conn_loop cn \<in> set (workers s)" "has_name (srv s) cn" "chans s (conn_channel cn) = Some c"
      "ch_loop c = conn_loop cn" "ch_fd c = conn_fd cn" "callbacks_of c = conn_callbacks k"
      unfolding conns_wf_def by blast
    from cn(6) w(3,6) obtain c' where c': "chans s' (conn_channel cn) = Some c'" "chan_static c' = chan_static c" by blast
    from w(2) have "has_name (srv s') cn'" using L cn(2) unfolding has_name_def conn_ident_def prod.inject by fastforce
    with cn w c' L(1) show ?thesis by (auto simp: chan_static_def conn_ident_def)
  qed
  moreover have "k = k'" if "conns s' k = Some cn" "conns s' k' = Some cn'" "conn_name cn = conn_name cn'" for k k' cn cn'
    using wf old [OF that(1)] old [OF that(2)] that(3) unfolding conns_wf_def conn_ident_def prod.inject by metis
  ultimately show ?thesis unfolding conns_wf_def by blast
qed

text \<open>Queues and lives look at the state of a connection, its index and what waits.\<close>

lemma queues_wf_cong:
  assumes wf: "queues_wf B s" and L: "set (workers s') = set (workers s)" "base s' = base s" "members s' = members s"
    and q: "\<And>l. l = base s \<or> l \<in> set (workers s) \<Longrightarrow> waiting B' s' l = waiting B s l"
    and base: "\<And>k cn. conns s k = Some cn \<Longrightarrow> \<exists>cn'. conns s' k = Some cn' \<and> conn_loop cn' = conn_loop cn \<and>
      (conn_state cn = kDisconnected \<longrightarrow> conn_state cn' = kDisconnected) \<and>
      (ConnectEstablished k \<in> set (waiting B s (conn_loop cn)) \<longrightarrow> conn_state cn' = conn_state cn \<and>
        chan_index s' (conn_channel cn') = chan_index s (conn_channel cn))"
  shows "queues_wf B' s'"
proof -
  have "base_functor s' f" if f: "f \<in> set (waiting B s (base s))" for f
    using wf f base unfolding queues_wf_def base_functor_def by metis
  moreover have "worker_functor s' l f" if l: "l \<in> set (workers s)" and f: "f \<in> set (waiting B s l)" for l f
  proof -
    from wf l f obtain k cn where k: "conns s k = Some cn" "conn_loop cn = l"
      "f = ConnectEstablished k \<and> conn_state cn = kConnecting \<and> chan_index s (conn_channel cn) = Some kNew \<or>
       f = ConnectDestroyed k \<and> conn_state cn = kDisconnected \<or> f = ShutdownInLoop k"
      unfolding queues_wf_def worker_functor_def by blast
    from base [OF k(1)] k f show ?thesis unfolding worker_functor_def by auto
  qed
  ultimately show ?thesis using wf q unfolding queues_wf_def L by simp
qed

lemma life_wf_cong:
  assumes wf: "life_wf B E C D s" and L: "base s' = base s" "members s' = members s"
    and q: "\<And>l. l = base s \<or> l \<in> set (workers s) \<Longrightarrow> waiting B' s' l = waiting B s l"
    and loc: "\<And>k cn. conns s k = Some cn \<Longrightarrow> conn_loop cn \<in> set (workers s)"
    and old: "\<And>k cn'. conns s' k = Some cn' \<Longrightarrow> \<exists>cn. conns s k = Some cn \<and> conn_loop cn' = conn_loop cn \<and>
      (conn_state cn = kDisconnected \<longrightarrow> conn_state cn' = kDisconnected) \<and>
      (conn_state cn' = kDisconnected \<longrightarrow> conn_state cn = kDisconnected \<or> k \<in> C) \<and>
      (chan_index s (conn_channel cn) = Some kNew \<longrightarrow> held B s k cn \<or> k \<in> E \<or> chan_index s' (conn_channel cn') = Some kNew) \<and>
      (conn_state cn' = kConnecting \<longrightarrow> conn_state cn = kConnecting) \<and>
      (is_up cn' \<longrightarrow> k \<in> E \<or> is_up cn \<and> (watched s cn \<longrightarrow> watched s' cn'))"
  shows "life_wf B' E C D s'"
  unfolding life_wf_def
proof (intro allI impI)
  fix k cn' assume "conns s' k = Some cn'"
  from old [OF this] obtain cn where cn: "conns s k = Some cn" "conn_loop cn' = conn_loop cn"
    "conn_state cn = kDisconnected \<longrightarrow> conn_state cn' = kDisconnected"
    "conn_state cn' = kDisconnected \<longrightarrow> conn_state cn = kDisconnected \<or> k \<in> C"
    "chan_index s (conn_channel cn) = Some kNew \<longrightarrow> held B s k cn \<or> k \<in> E \<or> chan_index s' (conn_channel cn') = Some kNew"
    "conn_state cn' = kConnecting \<longrightarrow> conn_state cn = kConnecting"
    "is_up cn' \<longrightarrow> k \<in> E \<or> is_up cn \<and> (watched s cn \<longrightarrow> watched s' cn')"
    by blast
  have "held B' s' k cn' = held B s k cn"
    using q [of "base s"] q [of "conn_loop cn"] loc [OF cn(1)] by (simp add: held_def L cn(2))
  moreover have "waiting B' s' (base s') = waiting B s (base s)" using q by (simp add: L(1))
  moreover have "waiting B' s' (conn_loop cn') = waiting B s (conn_loop cn)" using q loc [OF cn(1)] by (simp add: cn(2))
  ultimately show "(conn_state cn' = kDisconnected \<or> k \<in> members s') \<and>
      (conn_state cn' = kDisconnected \<longrightarrow> k \<in> members s' \<longrightarrow>
        RemoveConnectionInLoop k \<in> set (waiting B' s' (base s')) \<or> k \<in> C) \<and>
      (held B' s' k cn' \<or> k \<in> E \<or> k \<in> D \<and> chan_index s' (conn_channel cn') = Some kNew) \<and>
      (conn_state cn' = kConnecting \<longrightarrow> ConnectEstablished k \<in> set (waiting B' s' (conn_loop cn')) \<or> k \<in> E) \<and>
      (is_up cn' \<longrightarrow> watched s' cn' \<or> k \<in> E)"
    using wf cn(1,3-7) unfolding life_wf_def L(2) by metis
qed

lemma acceptor_wf_cong:
  assumes wf: "acceptor_wf s" and same: "srv_acceptor (srv s') = srv_acceptor (srv s)" "base s' = base s"
    and ch: "\<And>p c. chans s p = Some c \<Longrightarrow> callbacks_of c = (Some AcceptorHandleRead, None, None, None) \<Longrightarrow>
      \<exists>c'. chans s' p = Some c' \<and> chan_static c' = chan_static c \<and> ch_index c' = ch_index c \<and> ch_events c' = ch_events c"
  shows "acceptor_wf s'"
proof -
  from wf obtain c where c: "chans s (acc_chan (srv_acceptor (srv s))) = Some c" "ch_loop c = base s"
    "callbacks_of c = (Some AcceptorHandleRead, None, None, None)"
    "listenning (srv_acceptor (srv s)) \<longrightarrow> ch_index c = kAdded \<and> ch_events c AND kReadEvent = kReadEvent"
    unfolding acceptor_wf_def by blast
  from ch [OF c(1,3)] c(2-4) show ?thesis unfolding acceptor_wf_def same chan_static_def prod.inject by metis
qed

subsection \<open>Operations on one channel\<close>

lemma poller_updateChannel_epollfd: "poller_updateChannel os me pl p s = Inr (pl', s') \<Longrightarrow> epollfd pl' = epollfd pl"
  by (auto simp: poller_updateChannel_def rbind_eq_Inr Let_def split: if_splits)

lemma poller_removeChannel_epollfd: "poller_removeChannel os me pl p s = Inr (pl', s') \<Longrightarrow> epollfd pl' = epollfd pl"
  by (auto simp: poller_removeChannel_def rbind_eq_Inr Let_def split: if_splits)

lemma set_poller_sig:
  assumes "set_poller l pl' s = Inr s'" "get_poller s l = Inr pl" "epollfd pl' = epollfd pl"
  shows "sig_of s' l' = sig_of s l'"
  using assms by (auto simp: set_poller_def upd_loop_eq_Inr get_poller_eq_Inr sig_of_def loop_sig_def)

lemma get_poller_same: "same_above s s' \<Longrightarrow> get_poller s' l = get_poller s l"
  by (simp add: same_above_def get_poller_def get_loop_def)

lemma sig_of_same: "same_above s s' \<Longrightarrow> sig_of s' l = sig_of s l"
  by (simp add: same_above_def sig_of_def)

lemma set_events_sig:
  assumes "set_events os me chg p s = Inr s'" shows "sig_of s' l = sig_of s l"
proof -
  from assms obtain c pl pl1 t where c: "get_poller (put_chan p (c\<lparr>ch_events := change_events chg (ch_events c)\<rparr>) s) (ch_loop c) = Inr pl"
      "poller_updateChannel os me pl p (put_chan p (c\<lparr>ch_events := change_events chg (ch_events c)\<rparr>) s) = Inr (pl1, t)"
      "set_poller (ch_loop c) pl1 t = Inr s'"
    by (auto simp: set_events_def channel_update_def updateChannel_def rbind_eq_Inr upd_chan_eq_Inr)
  note fr = poller_updateChannel_frame [OF c(2)]
  have "get_poller t (ch_loop c) = Inr pl" using get_poller_same [OF fr] c(1) by simp
  from set_poller_sig [OF c(3) this poller_updateChannel_epollfd [OF c(2)]] sig_of_same [OF fr]
  show ?thesis by (simp add: sig_of_def)
qed

lemma channel_remove_sig:
  assumes "channel_remove os me p s = Inr s'" shows "sig_of s' l = sig_of s l"
proof -
  from assms obtain k pl pl1 t where c: "get_poller s k = Inr pl" "poller_removeChannel os me pl p s = Inr (pl1, t)"
      "set_poller k pl1 t = Inr s'"
    by (auto simp: channel_remove_def removeChannel_def rbind_eq_Inr)
  note fr = poller_removeChannel_frame [OF c(2)]
  have "get_poller t k = Inr pl" using get_poller_same [OF fr] c(1) by simp
  from set_poller_sig [OF c(3) this poller_removeChannel_epollfd [OF c(2)]] sig_of_same [OF fr]
  show ?thesis by simp
qed

lemma poller_removeChannel_interest:
  "poller_removeChannel os me pl p s = Inr (pl', s') \<Longrightarrow> ep \<noteq> epollfd pl \<Longrightarrow>
    interest_of ep (io_trace s') = interest_of ep (io_trace s)"
  by (auto simp: poller_removeChannel_def rbind_eq_Inr Let_def upd_chan_def split: if_splits
      dest!: poller_update_interest [where ep = ep])

lemma channel_remove_interest:
  assumes "channel_remove os me p s = Inr s'" "chans s p = Some c" "loops s (ch_loop c) = Some lp"
    "loop_poller lp = Some pl" "ep \<noteq> epollfd pl"
  shows "interest_of ep (io_trace s') = interest_of ep (io_trace s)"
  using assms
  by (auto simp: channel_remove_def removeChannel_def rbind_eq_Inr set_poller_def
      upd_loop_eq_Inr get_poller_def dest!: poller_removeChannel_interest [where ep = ep])

lemma ctl_only_open:
  assumes "ctl_only tr tr'" shows "open_fds tr' = open_fds tr"
proof -
  have step: "open_step x F = F" if "is_ctl x" for x F
    using that by (cases x rule: is_ctl.cases) simp_all
  have "fold open_step xs F = F" if "list_all is_ctl xs" for xs F
    using that by (induction xs arbitrary: F) (simp_all add: step)
  with assms show ?thesis by (auto simp: ctl_only_def)
qed

text \<open>
  What an operation on the registration of one channel of the loop \<open>l\<close> leaves alone, and that every
  loop is still in order.
\<close>

definition one_channel :: "os \<Rightarrow> loop_id \<Rightarrow> chan_id \<Rightarrow> channel \<Rightarrow> 'a server_net_scheme \<Rightarrow> 'a server_net_scheme \<Rightarrow> bool" where
  "one_channel os l p c' s s' \<longleftrightarrow> net_frame s s' \<and> chans s' = (chans s)(p := Some c') \<and>
     (\<forall>k. sig_of s' k = sig_of s k) \<and> (\<forall>k. queued_in s' k = queued_in s k) \<and>
     open_fds (io_trace s') = open_fds (io_trace s) \<and> (\<forall>k \<in> set (all_loops s). reg_inv os k s')"

lemma one_channelI:
  assumes wf: "loops_wf os s" and l: "l \<in> set (all_loops s)" and c: "chans s p = Some c" "ch_loop c = l"
    and fr: "net_frame s s'" and ch: "chans s' = (chans s)(p := Some c')" "ch_loop c' = l"
    and op: "only_poller l s s'" and reg: "reg_inv os l s'" and sig: "\<And>k. sig_of s' k = sig_of s k"
    and tr: "ctl_only (io_trace s) (io_trace s')"
    and int: "\<And>lp pl ep. loops s l = Some lp \<Longrightarrow> loop_poller lp = Some pl \<Longrightarrow> ep \<noteq> epollfd pl \<Longrightarrow>
      interest_of ep (io_trace s') = interest_of ep (io_trace s)"
  shows "one_channel os l p c' s s'"
proof -
  from op obtain lp pl' where lp: "loops s l = Some lp" "loops s' = (loops s)(l := Some (lp\<lparr>loop_poller := Some pl'\<rparr>))"
    unfolding only_poller_def by blast
  have "queued_in s' k = queued_in s k" for k using lp by (simp add: queued_in_def)
  moreover have "reg_inv os k s'" if k: "k \<in> set (all_loops s)" for k
  proof (cases "k = l")
    case True
    with reg show ?thesis by simp
  next
    case False
    have rk: "reg_inv os k s" "reg_inv os l s" using wf k l unfolding loops_wf_def by blast+
    then obtain kp kl where kp: "loops s k = Some kp" "loop_poller kp = Some kl"
      unfolding reg_inv_def reg_inv_except_def by blast
    from rk(2) lp(1) obtain pl where pl: "loop_poller lp = Some pl" unfolding reg_inv_def reg_inv_except_def by auto
    have "epfd_of s k \<noteq> epfd_of s l" using wf k l False unfolding loops_wf_def inj_on_def by blast
    then have ne: "epollfd kl \<noteq> epollfd pl" using kp lp(1) pl by (simp add: epfd_of_def)
    have "same_chans k s s'" using c ch False by (auto simp: same_chans_def chan_sig_def)
    then show ?thesis
      using reg_inv_cong [OF rk(1) kp, of s' kp kl] kp lp(2) False int [OF lp(1) pl ne] by simp
  qed
  ultimately show ?thesis
    using fr ch(1) sig ctl_only_open [OF tr] unfolding one_channel_def by blast
qed

lemma set_events_one:
  fixes chg :: event_change
  assumes wf: "loops_wf os s" and l: "l \<in> set (all_loops s)" and c: "chans s p = Some c" "ch_loop c = l"
  defines "c' \<equiv> c\<lparr>ch_events := change_events chg (ch_events c)\<rparr>"
  shows "\<exists>s'. set_events os me chg p s = Inr s' \<and> one_channel os l p (c'\<lparr>ch_index := index_after_update c'\<rparr>) s s'"
proof -
  have "reg_inv os l s" using wf l unfolding loops_wf_def by blast
  from set_events_ok [OF this c, of me chg] obtain s' where s': "set_events os me chg p s = Inr s'" "reg_inv os l s'"
    "only_poller l s s'" "chans s' = (chans s)(p := Some (c'\<lparr>ch_index := index_after_update c'\<rparr>))"
    unfolding c'_def by blast
  have "one_channel os l p (c'\<lparr>ch_index := index_after_update c'\<rparr>) s s'"
    by (rule one_channelI [OF wf l c set_events_net [OF s'(1)] s'(4) _ s'(3,2) set_events_sig [OF s'(1)]
          set_events_trace [OF s'(1)] set_events_interest [OF s'(1) c(1)]]) (use c in \<open>simp_all add: c'_def\<close>)
  with s'(1) show ?thesis by blast
qed

lemma channel_remove_one:
  assumes wf: "loops_wf os s" and l: "l \<in> set (all_loops s)" and c: "chans s p = Some c" "ch_loop c = l"
  shows "\<exists>s'. channel_remove os me p s = Inr s' \<and> one_channel os l p (c\<lparr>ch_index := kNew\<rparr>) s s'"
proof -
  have "reg_inv os l s" using wf l unfolding loops_wf_def by blast
  from channel_remove_ok [OF this c, of me] obtain s' where s': "channel_remove os me p s = Inr s'" "reg_inv os l s'"
    "only_poller l s s'" "chans s' = (chans s)(p := Some (c\<lparr>ch_index := kNew\<rparr>))" by blast
  have "one_channel os l p (c\<lparr>ch_index := kNew\<rparr>) s s'"
    by (rule one_channelI [OF wf l c channel_remove_net [OF s'(1)] s'(4) _ s'(3,2) channel_remove_sig [OF s'(1)]
          channel_remove_trace [OF s'(1)] channel_remove_interest [OF s'(1) c(1)]]) (use c in simp_all)
  with s'(1) show ?thesis by blast
qed

subsection \<open>Updates that free nothing and queue nothing\<close>

lemma same_next_chan: "net.more s' = net.more s \<Longrightarrow> next_chan s' = next_chan s"
  by (cases s; cases s') (simp only: net.select_convs server_net.select_convs server_net.ext_inject)

lemma net_frame_chan_id: "net_frame s s' \<Longrightarrow> next_chan s' = next_chan s"
  unfolding net_frame_def by (erule conjE, rule same_next_chan)

lemma running_invD:
  assumes "running_inv os B X E C D s"
  shows "server_inv s" "loops_wf os s" "chans_wf s" "conns_wf X s" "queues_wf B s" "life_wf B E C D s"
    "pool_ok (srv_pool (srv s))" "acceptor_wf s"
  using assms by (simp_all add: running_inv_def)

text \<open>What a connection may become.\<close>

definition conn_update :: "(loop_id \<Rightarrow> Functor list) \<Rightarrow> conn_id set \<Rightarrow> conn_id set \<Rightarrow> conn_id set \<Rightarrow> 'a server_net_scheme \<Rightarrow> 'a server_net_scheme \<Rightarrow>
    conn_id \<Rightarrow> tcpconn \<Rightarrow> tcpconn \<Rightarrow> bool" where
  "conn_update B X E C s s' k cn cn' \<longleftrightarrow> conn_ident cn' = conn_ident cn \<and> conn_static cn' \<and> input_sized cn' \<and>
     (k \<notin> X \<longrightarrow> input_empty cn') \<and> (conn_state cn = kDisconnected \<longrightarrow> conn_state cn' = kDisconnected) \<and>
     (conn_state cn' = kDisconnected \<longrightarrow> conn_state cn = kDisconnected \<or> k \<in> C) \<and>
     (ConnectEstablished k \<in> set (waiting B s (conn_loop cn)) \<longrightarrow> conn_state cn' = conn_state cn \<and>
        chan_index s' (conn_channel cn) = chan_index s (conn_channel cn)) \<and>
     (chan_index s (conn_channel cn) = Some kNew \<longrightarrow>
        held B s k cn \<or> k \<in> E \<or> chan_index s' (conn_channel cn) = Some kNew) \<and>
     (conn_state cn' = kConnecting \<longrightarrow> conn_state cn = kConnecting) \<and>
     (is_up cn' \<longrightarrow> k \<in> E \<or> is_up cn \<and> (watched s cn \<longrightarrow> watched s' cn'))"

definition chan_update :: "channel \<Rightarrow> channel \<Rightarrow> bool" where
  "chan_update c c' \<longleftrightarrow> chan_static c' = chan_static c \<and> (isWriting c' \<longrightarrow> isWriting c)"

lemma running_update:
  assumes inv: "running_inv os B X E C D s" and srv: "srv s' = srv s" and si: "server_inv s'" and nxt: "next_chan s \<le> next_chan s'"
    and reg: "\<And>l. l \<in> set (all_loops s) \<Longrightarrow> reg_inv os l s'" and sig: "\<And>l. sig_of s' l = sig_of s l"
    and fds: "open_fds (io_trace s) \<subseteq> open_fds (io_trace s')" and q: "\<And>l. waiting B' s' l = waiting B s l"
    and ch: "\<And>p. rel_option chan_update (chans s p) (chans s' p)"
    and cn: "\<And>k. rel_option (conn_update B X' E C s s' k) (conns s k) (conns s' k)" and acc: "acceptor_wf s'"
  shows "running_inv os B' X' E C D s'"
proof -
  note wf = running_invD [OF inv]
  have ch1: "\<exists>c'. chans s' p = Some c' \<and> chan_update c c'" if "chans s p = Some c" for p c
    using ch [of p] that by (auto simp: option_rel_Some1)
  have ch2: "\<exists>c. chans s p = Some c \<and> chan_update c c'" if "chans s' p = Some c'" for p c'
    using ch [of p] that by (auto simp: option_rel_Some2)
  have cn1: "\<exists>cn'. conns s' k = Some cn' \<and> conn_update B X' E C s s' k cn cn'" if "conns s k = Some cn" for k cn
    using cn [of k] that by (auto simp: option_rel_Some1)
  have cn2: "\<exists>cn. conns s k = Some cn \<and> conn_update B X' E C s s' k cn cn'" if "conns s' k = Some cn'" for k cn'
    using cn [of k] that by (auto simp: option_rel_Some2)
  have "loops_wf os s'"
  proof (rule loops_wf_cong [OF wf(2) _ reg sig])
    show "\<exists>c'. chans s' p = Some c' \<and> chan_static c' = chan_static c" if "chans s p = Some c" for p c
      using ch1 [OF that] unfolding chan_update_def by blast
  qed (simp_all add: srv)
  moreover have "chans_wf s'"
  proof (rule chans_wf_cong [OF wf(3)])
    fix p c' assume "chans s' p = Some c'"
    from ch2 [OF this] obtain c where c: "chans s p = Some c" "chan_update c c'" by blast
    with wf(3) have "\<not> isWriting c \<and> ch_fd c \<in> open_fds (io_trace s)" unfolding chans_wf_def by blast
    with c fds show "\<exists>c. chans s p = Some c \<and> chan_static c' = chan_static c \<and> \<not> isWriting c' \<and> ch_fd c \<in> open_fds (io_trace s')"
      by (auto simp: chan_update_def)
  next
    show "\<exists>cn'. conns s' k = Some cn' \<and> conn_channel cn' = conn_channel cn"
      if "conns s k = Some cn" "chans s' (conn_channel cn) \<noteq> None" for k cn
      using cn1 [OF that(1)] unfolding conn_update_def conn_ident_def prod.inject by blast
  qed (use srv nxt in simp_all)
  moreover have "conns_wf X' s'"
  proof (rule conns_wf_cong [OF wf(4)])
    fix k cn' assume "conns s' k = Some cn'"
    from cn2 [OF this] ch1 show "\<exists>cn. conns s k = Some cn \<and> conn_ident cn' = conn_ident cn \<and> conn_static cn' \<and>
        input_sized cn' \<and> (k \<notin> X' \<longrightarrow> input_empty cn') \<and>
        (\<forall>c. chans s (conn_channel cn) = Some c \<longrightarrow> callbacks_of c = conn_callbacks k \<longrightarrow>
          (\<exists>c'. chans s' (conn_channel cn) = Some c' \<and> chan_static c' = chan_static c))"
      unfolding conn_update_def chan_update_def by blast
  qed (simp_all add: srv)
  moreover have "queues_wf B' s'"
  proof (rule queues_wf_cong [OF wf(5)])
    fix k cn assume "conns s k = Some cn"
    from cn1 [OF this] show "\<exists>cn'. conns s' k = Some cn' \<and> conn_loop cn' = conn_loop cn \<and>
      (conn_state cn = kDisconnected \<longrightarrow> conn_state cn' = kDisconnected) \<and>
      (ConnectEstablished k \<in> set (waiting B s (conn_loop cn)) \<longrightarrow> conn_state cn' = conn_state cn \<and>
        chan_index s' (conn_channel cn') = chan_index s (conn_channel cn))"
      unfolding conn_update_def conn_ident_def prod.inject by metis
  qed (simp_all add: srv q)
  moreover have "life_wf B' E C D s'"
  proof (rule life_wf_cong [OF wf(6)])
    fix k cn' assume "conns s' k = Some cn'"
    from cn2 [OF this] show "\<exists>cn. conns s k = Some cn \<and> conn_loop cn' = conn_loop cn \<and>
      (conn_state cn = kDisconnected \<longrightarrow> conn_state cn' = kDisconnected) \<and>
      (conn_state cn' = kDisconnected \<longrightarrow> conn_state cn = kDisconnected \<or> k \<in> C) \<and>
      (chan_index s (conn_channel cn) = Some kNew \<longrightarrow> held B s k cn \<or> k \<in> E \<or> chan_index s' (conn_channel cn') = Some kNew) \<and>
      (conn_state cn' = kConnecting \<longrightarrow> conn_state cn = kConnecting) \<and>
      (is_up cn' \<longrightarrow> k \<in> E \<or> is_up cn \<and> (watched s cn \<longrightarrow> watched s' cn'))"
      unfolding conn_update_def conn_ident_def prod.inject by metis
  qed (use wf(4) in \<open>auto simp: srv q conns_wf_def\<close>)
  ultimately show ?thesis using inv si acc by (simp add: running_inv_def srv)
qed

text \<open>What a callback or a functor keeps besides.\<close>

definition stays :: "'a server_net_scheme \<Rightarrow> 'a server_net_scheme \<Rightarrow> bool" where
  "stays s s' \<longleftrightarrow> srv s' = srv s \<and> (\<forall>l. sig_of s' l = sig_of s l) \<and>
     (\<forall>p c. chans s p = Some c \<longrightarrow> (\<exists>c'. chans s' p = Some c' \<and> chan_static c' = chan_static c \<and>
        (ch_index c \<noteq> kNew \<longrightarrow> ch_index c' \<noteq> kNew))) \<and>
     (\<forall>k cn. conns s k = Some cn \<longrightarrow> (\<exists>cn'. conns s' k = Some cn' \<and> conn_ident cn' = conn_ident cn \<and>
        (conn_state cn = kDisconnected \<longrightarrow> conn_state cn' = kDisconnected)))"

lemma stays_refl [simp]: "stays s s"
  by (simp add: stays_def)

lemma stays_trans [trans]: "stays s t \<Longrightarrow> stays t u \<Longrightarrow> stays s u"
  unfolding stays_def by (elim conjE, intro conjI) (metis | simp)+

lemma stays_connD:
  assumes "stays s s'" "conns s k = Some cn"
  obtains cn' where "conns s' k = Some cn'" "conn_loop cn' = conn_loop cn" "conn_channel cn' = conn_channel cn"
    "conn_fd cn' = conn_fd cn" "conn_name cn' = conn_name cn"
    "conn_state cn = kDisconnected \<Longrightarrow> conn_state cn' = kDisconnected"
  using assms unfolding stays_def conn_ident_def prod.inject by metis

lemma stays_thread: "stays s s' \<Longrightarrow> thread_of s' l = thread_of s l"
  unfolding stays_def by (blast intro: sig_of_SomeD(1))

definition loop_update :: "eventloop \<Rightarrow> eventloop \<Rightarrow> bool" where
  "loop_update lp lp' \<longleftrightarrow> loop_sig lp' = loop_sig lp \<and>
     map_option channels (loop_poller lp') = map_option channels (loop_poller lp)"

lemma loop_update_refl [simp]: "loop_update lp lp"
  by (simp add: loop_update_def)

definition chan_alike :: "channel \<Rightarrow> channel \<Rightarrow> bool" where
  "chan_alike c c' \<longleftrightarrow> chan_static c' = chan_static c \<and> chan_sig c' = chan_sig c"

lemma chan_alike_refl [simp]: "chan_alike c c"
  by (simp add: chan_alike_def)

lemma chan_alikeD: "chan_alike c c' \<Longrightarrow> chan_update c c' \<and> ch_index c' = ch_index c"
  by (auto simp: chan_alike_def chan_update_def chan_sig_def isWriting_def)

lemma chan_alike_index:
  assumes "rel_option chan_alike (chans s p) (chans s' p)" shows "chan_index s' p = chan_index s p"
  using assms by (cases "chans s p"; cases "chans s' p") (auto simp: chan_index_def dest: chan_alikeD)

lemma chan_alike_watched:
  assumes "rel_option chan_alike (chans s (conn_channel cn)) (chans s' (conn_channel cn))" shows "watched s' cn = watched s cn"
  using assms by (cases "chans s (conn_channel cn)"; cases "chans s' (conn_channel cn)")
    (auto simp: watched_def chan_alike_def chan_sig_def)

text \<open>The connections stay as they are, and so do the registrations of all loops.\<close>

lemma rel_option_reflI: "(\<And>x. r = Some x \<Longrightarrow> P x x) \<Longrightarrow> rel_option P r r"
  by (cases r) auto

lemma reg_inv_alike:
  assumes reg: "reg_inv os l s" and lp: "rel_option loop_update (loops s l) (loops s' l)"
    and ch: "\<And>p. rel_option chan_alike (chans s p) (chans s' p)"
    and int: "\<And>ep. interest_of ep (io_trace s') = interest_of ep (io_trace s)"
  shows "reg_inv os l s'"
proof -
  from reg obtain kp pl where kp: "loops s l = Some kp" "loop_poller kp = Some pl"
    unfolding reg_inv_def reg_inv_except_def by blast
  with lp obtain kp' pl' where kp': "loops s' l = Some kp'" "loop_poller kp' = Some pl'"
    "epollfd pl' = epollfd pl" "channels pl' = channels pl"
    by (auto simp: option_rel_Some1 loop_update_def loop_sig_def)
  have same: "same_chans l s s'" unfolding same_chans_def
  proof (intro conjI allI impI)
    show "\<exists>c'. chans s' q = Some c' \<and> chan_sig c' = chan_sig c" if "chans s q = Some c" for q c
      using ch [of q] that by (auto simp: option_rel_Some1 chan_alike_def)
    show "\<exists>c. chans s q = Some c \<and> chan_sig c' = chan_sig c" if "chans s' q = Some c'" for q c'
      using ch [of q] that by (auto simp: option_rel_Some2 chan_alike_def)
  qed
  show ?thesis by (rule reg_inv_cong [OF reg kp kp' int same])
qed

lemma running_alike:
  assumes inv: "running_inv os B X E C D s" and srv: "srv s' = srv s" and ids: "next_conn s' = next_conn s" "next_chan s' = next_chan s"
    and cn: "conns s' = conns s" and ch: "\<And>p. rel_option chan_alike (chans s p) (chans s' p)"
    and lp: "\<And>l. rel_option loop_update (loops s l) (loops s' l)"
    and int: "\<And>ep. interest_of ep (io_trace s') = interest_of ep (io_trace s)"
    and fds: "open_fds (io_trace s) \<subseteq> open_fds (io_trace s')" and q: "\<And>l. waiting B' s' l = waiting B s l"
  shows "running_inv os B' X E C D s'" and "stays s s'"
proof -
  note wf = running_invD [OF inv]
  have sig: "sig_of s' l = sig_of s l" for l
    using lp [of l] by (cases "loops s l"; cases "loops s' l") (auto simp: sig_of_def loop_update_def)
  have idx: "chan_index s' p = chan_index s p" for p by (rule chan_alike_index [OF ch])
  have wt: "watched s' d = watched s d" for d by (rule chan_alike_watched [OF ch])
  have si: "server_inv s'" using wf(1) unfolding server_inv_def srv ids cn .
  show "running_inv os B' X E C D s'"
  proof (rule running_update [OF inv srv si _ _ sig fds q])
    show "reg_inv os l s'" if "l \<in> set (all_loops s)" for l
      by (rule reg_inv_alike [OF _ lp ch int]) (use wf(2) that in \<open>simp add: loops_wf_def\<close>)
    show "rel_option chan_update (chans s p) (chans s' p)" for p
      by (rule option.rel_mono_strong [OF ch]) (blast dest: chan_alikeD)
    show "rel_option (conn_update B X E C s s' k) (conns s k) (conns s' k)" for k
      using wf(4) unfolding cn
      by (intro rel_option_reflI) (auto simp: conn_update_def idx wt conns_wf_def)
    show "acceptor_wf s'"
    proof (rule acceptor_wf_cong [OF wf(8)])
      show "\<exists>c'. chans s' p = Some c' \<and> chan_static c' = chan_static c \<and> ch_index c' = ch_index c \<and> ch_events c' = ch_events c"
        if "chans s p = Some c" for p c using ch [of p] that by (auto simp: option_rel_Some1 chan_alike_def chan_sig_def)
    qed (simp_all add: srv)
  qed (simp add: ids)
  have "\<exists>c'. chans s' p = Some c' \<and> chan_static c' = chan_static c \<and> (ch_index c \<noteq> kNew \<longrightarrow> ch_index c' \<noteq> kNew)"
    if "chans s p = Some c" for p c
    using ch [of p] that by (auto simp: option_rel_Some1 chan_alike_def chan_sig_def)
  then show "stays s s'" unfolding stays_def srv cn using sig by blast
qed

lemma keeps_interest_open: "keeps_interest k \<Longrightarrow> F \<subseteq> open_step (me, k, r) F"
  by (cases k) auto

lemma do_call_server [simp]:
  "srv (snd (do_call os me k s)) = srv s" "next_conn (snd (do_call os me k s)) = next_conn s"
  "next_chan (snd (do_call os me k s)) = next_chan s"
  by (simp_all add: do_call_def Let_def)

lemma waiting_simps [simp]:
  "waiting B (snd (do_call os me k s)) l = waiting B s l"
  "waiting B (put_conn c cn s) l = waiting B s l"
  "waiting B (s\<lparr>strings := x, next_string := n\<rparr>) l = waiting B s l"
  "waiting B (s\<lparr>strings := x\<rparr>) l = waiting B s l"
  by (simp_all add: waiting_def queued_in_def)

text \<open>System calls other than those on epoll and the closing of descriptors.\<close>

lemma running_call:
  assumes "running_inv os B X E C D s" "keeps_interest k"
  shows "running_inv os B X E C D (snd (do_call os me k s))" "stays s (snd (do_call os me k s))"
proof -
  let ?s = "snd (do_call os me k s)"
  have "running_inv os B X E C D ?s \<and> stays s ?s"
    by (intro conjI running_alike [OF assms(1)])
      (simp_all add: keeps_interest_step [OF assms(2)] keeps_interest_open [OF assms(2)] rel_option_reflI
        del: open_step.simps)
  then show "running_inv os B X E C D ?s" "stays s ?s" by blast+
qed

lemma running_strings:
  assumes "running_inv os B X E C D s"
  shows "running_inv os B X E C D (s\<lparr>strings := x, next_string := n\<rparr>)" "stays s (s\<lparr>strings := x, next_string := n\<rparr>)"
proof -
  let ?s = "s\<lparr>strings := x, next_string := n\<rparr>"
  have "running_inv os B X E C D ?s \<and> stays s ?s"
    by (intro conjI running_alike [OF assms(1)]) (simp_all add: rel_option_reflI)
  then show "running_inv os B X E C D ?s" "stays s ?s" by blast+
qed

lemma running_strings':
  assumes "running_inv os B X E C D s"
  shows "running_inv os B X E C D (s\<lparr>strings := x\<rparr>)" "stays s (s\<lparr>strings := x\<rparr>)"
proof -
  have "s\<lparr>strings := x\<rparr> = s\<lparr>strings := x, next_string := next_string s\<rparr>" by simp
  with running_strings [OF assms, where x = x and n = "next_string s"]
  show "running_inv os B X E C D (s\<lparr>strings := x\<rparr>)" "stays s (s\<lparr>strings := x\<rparr>)" by simp_all
qed

subsection \<open>Updates of one connection\<close>

lemma conns_wfD:
  assumes "conns_wf X s" "conns s k = Some cn"
  obtains c where "chans s (conn_channel cn) = Some c" "ch_loop c = conn_loop cn" "ch_fd c = conn_fd cn"
    "callbacks_of c = conn_callbacks k" "conn_loop cn \<in> set (workers s)" "conn_static cn" "input_sized cn"
    "k \<notin> X \<longrightarrow> input_empty cn" "has_name (srv s) cn"
  using assms unfolding conns_wf_def by metis

lemma conn_channel_inj:
  assumes "conns_wf X s" "conns s k = Some cn" "conns s k' = Some cn'" "conn_channel cn = conn_channel cn'"
  shows "k = k'"
proof -
  from conns_wfD [OF assms(1,2)] obtain c where c: "chans s (conn_channel cn) = Some c" "callbacks_of c = conn_callbacks k" by metis
  from conns_wfD [OF assms(1,3)] obtain c' where c': "chans s (conn_channel cn') = Some c'" "callbacks_of c' = conn_callbacks k'" by metis
  with c assms(4) show ?thesis by (simp add: conn_callbacks_def)
qed

text \<open>While \<open>connectEstablished\<close> waits, the connection is connecting and not registered.\<close>

lemma established_waiting:
  assumes "running_inv os B X E C D s" "conns s k = Some cn" "ConnectEstablished k \<in> set (waiting B s (conn_loop cn))"
  shows "conn_state cn = kConnecting" "chan_index s (conn_channel cn) = Some kNew"
proof -
  have "conn_loop cn \<in> set (workers s)" using running_invD(4) [OF assms(1)] assms(2) unfolding conns_wf_def by blast
  then have "worker_functor s (conn_loop cn) (ConnectEstablished k)"
    using running_invD(5) [OF assms(1)] assms(3) unfolding queues_wf_def by blast
  with assms(2) show "conn_state cn = kConnecting" "chan_index s (conn_channel cn) = Some kNew"
    by (auto simp: worker_functor_def)
qed

lemma conn_update_refl:
  assumes "conns_wf X s" "conns s k = Some cn" "k \<in> X' \<or> k \<notin> X"
    "chan_index s' (conn_channel cn) = chan_index s (conn_channel cn)" "watched s cn \<Longrightarrow> watched s' cn"
  shows "conn_update B X' E C s s' k cn cn"
proof -
  from conns_wfD [OF assms(1,2)] have "conn_static cn" "input_sized cn" "k \<notin> X \<longrightarrow> input_empty cn" by metis+
  with assms(3-5) show ?thesis by (auto simp: conn_update_def)
qed

lemma put_conn_sig [simp]: "sig_of (put_conn k cn s) l = sig_of s l"
  by (simp add: sig_of_def)

lemma running_put_conn:
  assumes inv: "running_inv os B X E C D s" and k: "conns s k = Some cn"
    and id: "conn_ident cn' = conn_ident cn" and st: "conn_static cn'" and sz: "input_sized cn'"
    and buf: "bufs_le cn cn'" and X: "X - {k} \<subseteq> X'" "k \<in> X' \<or> input_empty cn'"
    and state: "conn_state cn' = conn_state cn \<or>
      conn_state cn \<noteq> kDisconnected \<and> ConnectEstablished k \<notin> set (waiting B s (conn_loop cn)) \<and>
      (conn_state cn' = kDisconnected \<longrightarrow> k \<in> C) \<and> conn_state cn' \<noteq> kConnecting \<and> (is_up cn' \<longrightarrow> k \<in> E \<or> is_up cn)"
  shows "running_inv os B X' E C D (put_conn k cn' s)" "stays s (put_conn k cn' s)"
proof -
  note wf = running_invD [OF inv]
  have name: "conn_name cn' = conn_name cn" using id by (simp add: conn_ident_def)
  have si: "server_inv (put_conn k cn' s)"
    using put_conn_server [OF k name buf] wf(1) by (simp add: keeps_server_def)
  have idx: "chan_index (put_conn k cn' s) p = chan_index s p" for p by (simp add: chan_index_def)
  have wt: "watched (put_conn k cn' s) d = watched s d" for d by (simp add: watched_def)
  have wt': "watched s cn' = watched s cn" using id by (simp add: watched_def conn_ident_def)
  have up: "is_up cn' = is_up cn" if "conn_state cn' = conn_state cn" using that by (simp add: is_up_def)
  show "running_inv os B X' E C D (put_conn k cn' s)"
  proof (rule running_update [OF inv _ si])
    show "reg_inv os l (put_conn k cn' s)" if "l \<in> set (all_loops s)" for l
      using wf(2) that by (simp add: loops_wf_def)
    show "rel_option chan_update (chans s p) (chans (put_conn k cn' s) p)" for p
      by (simp add: chan_update_def rel_option_reflI)
    show "rel_option (conn_update B X' E C s (put_conn k cn' s) j) (conns s j) (conns (put_conn k cn' s) j)" for j
    proof (cases "j = k")
      case True
      then show ?thesis using k id st sz X(2) state up by (auto simp: conn_update_def idx wt wt')
    next
      case False
      then have "conns (put_conn k cn' s) j = conns s j" by simp
      moreover have "j \<in> X' \<or> j \<notin> X" using X(1) False by blast
      ultimately show ?thesis using conn_update_refl [OF wf(4)] by (auto simp: idx wt intro!: rel_option_reflI)
    qed
    show "acceptor_wf (put_conn k cn' s)" by (rule acceptor_wf_cong [OF wf(8)]) simp_all
  qed simp_all
  have "\<exists>dn. conns (put_conn k cn' s) j = Some dn \<and> conn_ident dn = conn_ident d \<and>
      (conn_state d = kDisconnected \<longrightarrow> conn_state dn = kDisconnected)" if "conns s j = Some d" for j d
    using that k id state by (cases "j = k") auto
  then show "stays s (put_conn k cn' s)" by (simp add: stays_def)
qed

lemma one_channelD:
  assumes "one_channel os l p c' s s'"
  shows "net_frame s s'" "conns s' = conns s" "srv s' = srv s" "next_conn s' = next_conn s" "next_chan s' = next_chan s"
    "chans s' = (chans s)(p := Some c')" "\<And>k. sig_of s' k = sig_of s k" "\<And>k. queued_in s' k = queued_in s k"
    "open_fds (io_trace s') = open_fds (io_trace s)" "\<And>k. k \<in> set (all_loops s) \<Longrightarrow> reg_inv os k s'"
proof -
  show fr: "net_frame s s'" and "chans s' = (chans s)(p := Some c')" "\<And>k. sig_of s' k = sig_of s k"
    "\<And>k. queued_in s' k = queued_in s k" "open_fds (io_trace s') = open_fds (io_trace s)"
    "\<And>k. k \<in> set (all_loops s) \<Longrightarrow> reg_inv os k s'"
    using assms unfolding one_channel_def by blast+
  show "conns s' = conns s" "srv s' = srv s" "next_conn s' = next_conn s" "next_chan s' = next_chan s"
    by (rule net_frame_conns [OF fr], rule net_frame_srv [OF fr refl], rule net_frame_ids [OF fr], rule net_frame_chan_id [OF fr])
qed

lemma running_one_channel:
  assumes inv: "running_inv os B X E C D s" and k: "conns s k = Some cn" and c: "chans s (conn_channel cn) = Some c"
    and oc: "one_channel os l (conn_channel cn) c' s s'" and upd: "chan_update c c'"
    and idx: "ch_index c' = kNew \<or> ConnectEstablished k \<notin> set (waiting B s (conn_loop cn)) \<and>
      (ch_index c \<noteq> kNew \<or> held B s k cn \<or> k \<in> E)" and down: "\<not> is_up cn \<or> k \<in> E"
  shows "running_inv os B X E C D s'"
proof -
  note wf = running_invD [OF inv] and one = one_channelD [OF oc]
  have si: "server_inv s'"
    using keeps_server.R_frame [OF one(1)] wf(1) by (simp add: keeps_server_def)
  have idx': "chan_index s' p = (if p = conn_channel cn then Some (ch_index c') else chan_index s p)" for p
    by (simp add: chan_index_def one(6))
  show ?thesis
  proof (rule running_update [OF inv one(3) si])
    show "rel_option chan_update (chans s p) (chans s' p)" for p
      using c upd unfolding one(6) by (auto simp: chan_update_def intro!: rel_option_reflI)
    show "rel_option (conn_update B X E C s s' j) (conns s j) (conns s' j)" for j
      unfolding one(2)
    proof (rule rel_option_reflI)
      fix d assume d: "conns s j = Some d"
      have other: "j = k" if "conn_channel d = conn_channel cn" by (rule conn_channel_inj [OF wf(4) d k that])
      show "conn_update B X E C s s' j d d"
      proof (cases "j = k")
        case True
        then have "d = cn" using d k by simp
        moreover have "chan_index s (conn_channel cn) = Some (ch_index c)" by (simp add: chan_index_def c)
        ultimately show ?thesis
          using idx established_waiting(2) [OF inv k] wf(4) k True down
          by (auto simp: conn_update_def idx' conns_wf_def)
      next
        case False
        with other have "conn_channel d \<noteq> conn_channel cn" by blast
        then show ?thesis by (intro conn_update_refl [OF wf(4) d]) (auto simp: idx' watched_def one(6))
      qed
    qed
    from conns_wfD [OF wf(4) k] c have "callbacks_of c = conn_callbacks k" by auto
    then show "acceptor_wf s'"
      by (intro acceptor_wf_cong [OF wf(8)]) (auto simp: one(3,6) c conn_callbacks_def)
  qed (simp_all add: one(5,7,9,10) waiting_def one(8))
qed

lemma worker_loop: "l \<in> set (workers s) \<Longrightarrow> l \<in> set (all_loops s)"
  by (simp add: server_loops_def)

lemma base_loop: "base s \<in> set (all_loops s)"
  by (simp add: server_loops_def)

lemma base_not_worker: "running_inv os B X E C D s \<Longrightarrow> base s \<notin> set (workers s)"
  by (drule running_invD(2)) (simp add: loops_wf_def server_loops_def)

lemma one_channel_stays:
  assumes "one_channel os l p c' s s'" "chans s p = Some c" "chan_static c' = chan_static c"
    "ch_index c \<noteq> kNew \<Longrightarrow> ch_index c' \<noteq> kNew"
  shows "stays s s'"
  using one_channelD(2,3,6,7) [OF assms(1)] assms(2-4) by (auto simp: stays_def)

lemma index_after_not_new [simp]: "index_after_update c \<noteq> kNew" "kNew \<noteq> index_after_update c"
  by (auto simp: index_after_update_def index_states)

lemma reading_added:
  "change_events EnableReading ev AND kReadEvent = kReadEvent" "change_events EnableReading ev \<noteq> kNoneEvent"
proof -
  show read: "change_events EnableReading ev AND kReadEvent = kReadEvent"
    by (rule bit_word_eqI) (auto simp: bit_simps)
  have "kReadEvent \<noteq> (0 :: 32 word)" by (simp add: kReadEvent_def epoll_bits)
  moreover have "kNoneEvent AND kReadEvent = 0" by (simp add: kNoneEvent_def)
  ultimately show "change_events EnableReading ev \<noteq> kNoneEvent" using read by metis
qed

lemma running_events:
  assumes inv: "running_inv os B X E C D s" and k: "conns s k = Some cn" and c: "chans s (conn_channel cn) = Some c"
    and chg: "chg \<in> {EnableReading, DisableAll}"
    and guard: "ConnectEstablished k \<notin> set (waiting B s (conn_loop cn))" "ch_index c \<noteq> kNew \<or> held B s k cn \<or> k \<in> E"
      "\<not> is_up cn \<or> k \<in> E"
  shows "\<exists>s'. set_events os me chg (conn_channel cn) s = Inr s' \<and> running_inv os B X E C D s' \<and> stays s s' \<and> net_frame s s' \<and>
    conns s' = conns s \<and> (\<forall>l. queued_in s' l = queued_in s l) \<and> (chg = EnableReading \<longrightarrow> watched s' cn)"
proof -
  note wf = running_invD [OF inv]
  from conns_wfD [OF wf(4) k] c have loc: "ch_loop c = conn_loop cn" "conn_loop cn \<in> set (workers s)" by auto
  let ?c = "c\<lparr>ch_events := change_events chg (ch_events c)\<rparr>"
  from set_events_one [OF wf(2) worker_loop [OF loc(2)] c loc(1), where chg = chg and me = me] obtain s' where
    s': "set_events os me chg (conn_channel cn) s = Inr s'"
      "one_channel os (conn_loop cn) (conn_channel cn) (?c\<lparr>ch_index := index_after_update ?c\<rparr>) s s'" by blast
  have static: "chan_static (?c\<lparr>ch_index := index_after_update ?c\<rparr>) = chan_static c"
    by (simp add: chan_static_def callbacks_of_def)
  have "isWriting (?c\<lparr>ch_index := index_after_update ?c\<rparr>) \<longrightarrow> isWriting c"
    using chg change_events_writing(3) by (auto simp: isWriting_def kNoneEvent_def)
  then have "chan_update c (?c\<lparr>ch_index := index_after_update ?c\<rparr>)" by (simp add: chan_update_def static)
  from running_one_channel [OF inv k c s'(2) this] guard have "running_inv os B X E C D s'" by simp
  moreover have "stays s s'" by (rule one_channel_stays [OF s'(2) c static]) simp
  moreover have "watched s' cn" if "chg = EnableReading"
    using reading_added [of "ch_events c"] that one_channelD(6) [OF s'(2)] by (simp add: watched_def index_after_update_def isNoneEvent_def)
  ultimately show ?thesis using s'(1) one_channelD [OF s'(2)] by blast
qed

lemma running_less_held:
  assumes "running_inv os B X E C D s" "\<And>k cn. k \<in> E - E' \<Longrightarrow> conns s k = Some cn \<Longrightarrow>
    (held B s k cn \<or> k \<in> D \<and> chan_index s (conn_channel cn) = Some kNew) \<and> conn_state cn \<noteq> kConnecting \<and>
    (is_up cn \<longrightarrow> watched s cn)"
  shows "running_inv os B X E' C D s"
  using assms unfolding running_inv_def life_wf_def by blast

text \<open>More may be closing, and more may have been destroyed.\<close>

lemma running_mono:
  assumes "running_inv os B X E C D s" "C \<subseteq> C'" "D \<subseteq> D'"
  shows "running_inv os B X E C' D' s"
  using assms unfolding running_inv_def life_wf_def by blast

lemma running_remove:
  assumes inv: "running_inv os B X E C D s" and k: "conns s k = Some cn" and c: "chans s (conn_channel cn) = Some c"
    and st: "conn_state cn = kDisconnected" and D: "k \<in> D"
  shows "\<exists>s'. channel_remove os me (conn_channel cn) s = Inr s' \<and> running_inv os B X (E - {k}) C D s' \<and> srv s' = srv s \<and>
    (\<forall>l. sig_of s' l = sig_of s l) \<and> conns s' = conns s \<and> chans s' = (chans s)(conn_channel cn := Some (c\<lparr>ch_index := kNew\<rparr>))"
proof -
  note wf = running_invD [OF inv]
  from conns_wfD [OF wf(4) k] c have loc: "ch_loop c = conn_loop cn" "conn_loop cn \<in> set (workers s)" by auto
  let ?c = "c\<lparr>ch_index := kNew\<rparr>"
  from channel_remove_one [OF wf(2) worker_loop [OF loc(2)] c loc(1), where me = me] obtain s' where
    s': "channel_remove os me (conn_channel cn) s = Inr s'" "one_channel os (conn_loop cn) (conn_channel cn) ?c s s'" by blast
  have "chan_update c ?c" by (simp add: chan_update_def chan_static_def callbacks_of_def isWriting_def)
  from running_one_channel [OF inv k c s'(2) this] st have "running_inv os B X E C D s'" by (simp add: is_up_def)
  then have "running_inv os B X (E - {k}) C D s'"
    by (rule running_less_held) (use one_channelD(2,6) [OF s'(2)] k D st in \<open>auto simp: chan_index_def is_up_def\<close>)
  with s'(1) one_channelD [OF s'(2)] show ?thesis by blast
qed

subsection \<open>Queueing\<close>

text \<open>A connection that is not closed is in the map.\<close>

lemma running_member:
  "running_inv os B X E C D s \<Longrightarrow> conns s k = Some cn \<Longrightarrow> conn_state cn \<noteq> kDisconnected \<Longrightarrow> k \<in> members s"
  by (drule running_invD(6)) (auto simp: life_wf_def)

text \<open>What may be queued.\<close>

definition may_queue :: "(loop_id \<Rightarrow> Functor list) \<Rightarrow> 'a server_net_scheme \<Rightarrow> loop_id \<Rightarrow> Functor \<Rightarrow> bool" where
  "may_queue B s l f \<longleftrightarrow> l = base s \<and> base_functor s f \<or>
     l \<in> set (workers s) \<and> worker_functor s l f \<and> (is_established f \<longrightarrow> f \<notin> set (waiting B s l)) \<and>
       (\<forall>k. f = ShutdownInLoop k \<longrightarrow> k \<in> members s)"

lemma shutdown_safe_push:
  "shutdown_safe M q \<Longrightarrow> (\<forall>k. f = ShutdownInLoop k \<longrightarrow> k \<in> M) \<Longrightarrow> shutdown_safe M (q @ [f])"
  by (induction q) (auto split: Functor.splits)

text \<open>The connection whose holder or whose establishing is no longer pending once \<open>f\<close> waits.\<close>

definition settled :: "Functor \<Rightarrow> conn_id set" where
  "settled f = {k. f = RemoveConnectionInLoop k \<or> f = ConnectDestroyed k \<or> f = ConnectEstablished k}"

lemma settled_simps [simp]:
  "settled (RemoveConnectionInLoop k) = {k}" "settled (ConnectDestroyed k) = {k}" "settled (ConnectEstablished k) = {k}"
  "settled (ShutdownInLoop k) = {}"
  by (auto simp: settled_def)

text \<open>The queueing itself, which needs the loops only.\<close>

lemma push_one:
  assumes wf: "loops_wf os s" and l: "l \<in> set (all_loops s)"
  shows "\<exists>s'. queueInLoop os me l f s = Inr s' \<and> loops_wf os s' \<and> net_frame s s' \<and> chans s' = chans s \<and>
    open_fds (io_trace s') = open_fds (io_trace s) \<and> (\<forall>j. sig_of s' j = sig_of s j) \<and>
    (\<forall>j. queued_in s' j = queued_in s j @ (if j = l then [f] else []))"
proof -
  obtain lp where lp: "loops s l = Some lp" using wf l unfolding loops_wf_def by blast
  let ?lp = "lp\<lparr>pendingFunctors := pendingFunctors lp @ [f]\<rparr>"
  define s' where "s' = (if must_wake me lp then snd (do_call os me (WriteFd (wakeFd lp) eventfd_one) (put_loop l ?lp s))
      else put_loop l ?lp s)"
  have run: "queueInLoop os me l f s = Inr s'" unfolding s'_def by (rule queueInLoop_ok [OF lp])
  have s': "srv s' = srv s" "chans s' = chans s" "loops s' = (loops s)(l := Some ?lp)"
    "\<And>ep. interest_of ep (io_trace s') = interest_of ep (io_trace s)" "open_fds (io_trace s') = open_fds (io_trace s)"
    by (simp_all add: s'_def)
  have upd: "rel_option loop_update (loops s j) (loops s' j)" for j
    using lp by (auto simp: s'(3) loop_update_def loop_sig_def intro!: rel_option_reflI)
  have sig: "sig_of s' j = sig_of s j" for j using lp by (simp add: sig_of_def s'(3) loop_sig_def)
  have "loops_wf os s'"
    by (rule loops_wf_cong [OF wf]) (use wf in \<open>auto simp: s'(1,2,4) sig loops_wf_def
      intro!: reg_inv_alike [OF _ upd] rel_option_reflI\<close>)
  moreover have "queued_in s' j = queued_in s j @ (if j = l then [f] else [])" for j
    using lp by (simp add: queued_in_def s'(3))
  ultimately show ?thesis using run queueInLoop_net [OF run] s'(2,5) sig by blast
qed

lemma running_push:
  assumes inv: "running_inv os B X E C D s" and f: "may_queue B s l f"
  shows "\<exists>s'. queueInLoop os me l f s = Inr s' \<and>
    running_inv os B X (E - settled f)
      (C - {k. f = RemoveConnectionInLoop k}) D s' \<and> stays s s' \<and>
    conns s' = conns s \<and> chans s' = chans s \<and>
    (\<forall>j. queued_in s' j = queued_in s j @ (if j = l then [f] else []))"
proof -
  note wf = running_invD [OF inv]
  have l: "l \<in> set (all_loops s)" using f worker_loop base_loop by (auto simp: may_queue_def)
  from push_one [OF wf(2) l, of me f] obtain s' where run: "queueInLoop os me l f s = Inr s'" and lw: "loops_wf os s'"
    and nf: "net_frame s s'" and ch: "chans s' = chans s" and fds: "open_fds (io_trace s') = open_fds (io_trace s)"
    and sig: "\<And>j. sig_of s' j = sig_of s j" and qd: "\<And>j. queued_in s' j = queued_in s j @ (if j = l then [f] else [])"
    by (elim exE conjE) (rule that; blast)
  note s' = net_frame_conns [OF nf] net_frame_srv [OF nf refl] net_frame_chan_id [OF nf] net_frame_ids [OF nf] ch fds
  have w: "waiting B s' j = waiting B s j @ (if j = l then [f] else [])" for j
    by (simp add: waiting_def qd)
  have idx: "chan_index s' = chan_index s" by (simp add: chan_index_def fun_eq_iff s'(5))
  have wt: "watched s' = watched s" by (simp add: watched_def fun_eq_iff s'(5))
  have "chans_wf s'" using wf(3) by (simp add: chans_wf_def chan_kind_def s'(1-3,5,6))
  moreover have "conns_wf X s'" using wf(4) by (simp add: conns_wf_def s'(1,2,5))
  moreover have "queues_wf B s'"
  proof -
    have fun_same: "base_functor s' = base_functor s" "worker_functor s' = worker_functor s"
      by (simp_all add: base_functor_def worker_functor_def fun_eq_iff s'(1) idx)
    have nb: "base s \<notin> set (workers s)" by (rule base_not_worker [OF inv])
    have "distinct (filter is_established (waiting B s' j)) \<and> shutdown_safe (members s) (waiting B s' j)"
      if "j \<in> set (workers s)" for j
      using wf(5) f that nb unfolding queues_wf_def may_queue_def w by (auto intro!: shutdown_safe_push)
    moreover have "worker_functor s j g" if "j \<in> set (workers s)" "g \<in> set (waiting B s' j)" for j g
      using wf(5) f that nb unfolding queues_wf_def may_queue_def w by (auto split: if_splits)
    moreover have "base_functor s g" if "g \<in> set (waiting B s' (base s))" for g
      using wf(5) f that nb unfolding queues_wf_def may_queue_def w by (auto split: if_splits)
    ultimately show ?thesis unfolding queues_wf_def fun_same s'(2) by blast
  qed
  moreover have "life_wf B (E - settled f)
      (C - {k. f = RemoveConnectionInLoop k}) D s'"
    unfolding life_wf_def
  proof (intro allI impI)
    fix k cn assume "conns s' k = Some cn"
    then have k: "conns s k = Some cn" by (simp add: s'(1))
    have "held B s' k cn" if "held B s k cn" using that by (auto simp: held_def s'(2) w)
    moreover have "held B s' k cn \<and> \<not> is_up cn \<and>
        (conn_state cn = kConnecting \<longrightarrow> ConnectEstablished k \<in> set (waiting B s' (conn_loop cn)))" if "k \<in> settled f"
    proof -
      have "k \<in> members s" if "conn_state cn = kConnecting" by (rule running_member [OF inv k]) (simp add: that)
      with that f k show ?thesis
        by (auto simp: settled_def held_def s'(2) w may_queue_def base_functor_def worker_functor_def is_up_def)
    qed
    moreover have "set (waiting B s (conn_loop cn)) \<subseteq> set (waiting B s' (conn_loop cn))" by (auto simp: w)
    moreover have "RemoveConnectionInLoop j \<in> set (waiting B s' (base s))"
      if "RemoveConnectionInLoop j \<in> set (waiting B s (base s)) \<or> f = RemoveConnectionInLoop j" for j
      using that f by (auto simp: w may_queue_def worker_functor_def)
    ultimately show "(conn_state cn = kDisconnected \<or> k \<in> members s') \<and>
      (conn_state cn = kDisconnected \<longrightarrow> k \<in> members s' \<longrightarrow> RemoveConnectionInLoop k \<in> set (waiting B s' (base s')) \<or>
        k \<in> C - {k. f = RemoveConnectionInLoop k}) \<and>
      (held B s' k cn \<or> k \<in> E - settled f \<or> k \<in> D \<and> chan_index s' (conn_channel cn) = Some kNew) \<and>
      (conn_state cn = kConnecting \<longrightarrow> ConnectEstablished k \<in> set (waiting B s' (conn_loop cn)) \<or> k \<in> E - settled f) \<and>
      (is_up cn \<longrightarrow> watched s' cn \<or> k \<in> E - settled f)"
      using wf(6) k unfolding life_wf_def idx wt s'(2) by blast
  qed
  moreover have "server_inv s'" using keeps_server.R_frame [OF nf] wf(1) by (simp add: keeps_server_def)
  moreover have "acceptor_wf s'" by (rule acceptor_wf_cong [OF wf(8)]) (simp_all add: s'(2,5))
  ultimately have "running_inv os B X (E - settled f)
      (C - {k. f = RemoveConnectionInLoop k}) D s'"
    using inv lw by (simp add: running_inv_def s'(2))
  moreover have "stays s s'" using sig by (auto simp: stays_def s'(1,2,5))
  ultimately show ?thesis using run s'(1,5) qd by blast
qed

subsection \<open>User code on its own connection\<close>

fun call_conn :: "user_call \<Rightarrow> conn_id" where
  "call_conn (UcSend k d) = k"
| "call_conn (UcShutdown k) = k"
| "call_conn (UcRetrieve k n) = k"
| "call_conn (UcRetrieveAll k) = k"

text \<open>Callbacks that use only their own connection, and a message callback that takes all there is.\<close>

definition local_user :: "user_code \<Rightarrow> bool" where
  "local_user uc \<longleftrightarrow> (\<forall>k up. \<forall>call \<in> set (onConnection uc k up). call_conn call = k) \<and>
     (\<forall>k d t. (\<forall>call \<in> set (onMessage uc k d t). call_conn call = k) \<and> UcRetrieveAll k \<in> set (onMessage uc k d t))"

lemma echo_user_local: "local_user echo_user"
  by (simp add: local_user_def echo_user_def echo_onMessage_def)

lemma running_conn_ok:
  assumes inv: "running_inv os B X E C D s" and k: "conns s k = Some cn"
  shows "conn_ok os s k cn"
proof -
  note wf = running_invD [OF inv]
  from conns_wfD [OF wf(4) k] obtain c where c: "chans s (conn_channel cn) = Some c" "ch_loop c = conn_loop cn"
    "ch_fd c = conn_fd cn" "callbacks_of c = conn_callbacks k" "conn_loop cn \<in> set (workers s)" by metis
  from worker_loop [OF c(5)] wf(2) obtain lp w where lp: "reg_inv os (conn_loop cn) s" "loops s (conn_loop cn) = Some lp"
    "chans s (wakeupChannel lp) = Some w" "ch_fd w = wakeFd lp" "callbacks_of w = (Some (LoopHandleRead (conn_loop cn)), None, None, None)"
    unfolding loops_wf_def by blast
  have "wakeFd lp \<noteq> conn_fd cn"
  proof
    assume "wakeFd lp = conn_fd cn"
    then have "wakeupChannel lp = conn_channel cn" using wf(3) lp(3,4) c(1,3) unfolding chans_wf_def by metis
    with lp(3,5) c(1,4) show False by (simp add: conn_callbacks_def)
  qed
  moreover have "bufs_wf cn" using wf(1) k unfolding server_inv_def by blast
  ultimately show ?thesis using k lp(1,2) c(1,2) by (auto simp: conn_ok_def bufs_wf_def)
qed

lemma running_loop:
  assumes "running_inv os B X E C D s" "l \<in> set (all_loops s)"
  obtains lp where "loops s l = Some lp" "threadId lp = thread_of s l"
  using running_invD(2) [OF assms(1)] assms(2) unfolding loops_wf_def thread_of_def by fastforce

text \<open>The loop of a connection is a worker, and that is not in the thread of the base loop.\<close>

lemma running_conn_loop:
  assumes "running_inv os B X E C D s" "conns s k = Some cn"
  obtains lp where "loops s (conn_loop cn) = Some lp" "threadId lp = thread_of s (conn_loop cn)"
    "conn_loop cn \<in> set (workers s)" "thread_of s (base s) \<noteq> thread_of s (conn_loop cn)"
proof -
  from conns_wfD [OF running_invD(4) [OF assms(1)] assms(2)] have w: "conn_loop cn \<in> set (workers s)" by metis
  have "thread_of s (base s) \<noteq> thread_of s (conn_loop cn)"
    using running_invD(2) [OF assms(1)] base_loop worker_loop [OF w] base_not_worker [OF assms(1)] w
    unfolding loops_wf_def inj_on_def by metis
  with running_loop [OF assms(1) worker_loop [OF w]] w that show thesis by metis
qed

lemma running_send:
  assumes inv: "running_inv os B X E C D s" and k: "conns s k = Some cn" and me: "thread_of s (conn_loop cn) = me"
    and a: "strings s a = Some d"
  shows "\<exists>s'. send os me k a s = Inr s' \<and> running_inv os B X E C D s' \<and> stays s s'"
proof (cases "conn_state cn = kConnected")
  case False
  then show ?thesis using k inv by (auto simp: send_def)
next
  case True
  note ok = running_conn_ok [OF inv k]
  from running_conn_loop [OF inv k] me obtain lp where lp: "loops s (conn_loop cn) = Some lp" "threadId lp = me" by metis
  have "conn_static cn" using conns_wfD [OF running_invD(4) [OF inv] k] by metis
  then have "sendInLoop os me k d s = Inr (if writes_directly s cn then snd (do_call os me (WriteFd (conn_fd cn) d) s) else s)"
    using sendInLoop_plain [OF ok] True by (simp add: conn_static_def)
  then have "send os me k a s = Inr (if writes_directly s cn then snd (do_call os me (WriteFd (conn_fd cn) d) s) else s)"
    using True k lp a by (simp add: send_def isInLoopThread_def get_string_def)
  then show ?thesis using inv running_call [OF inv, of "WriteFd (conn_fd cn) d" me] by (cases "writes_directly s cn") auto
qed

lemma disconnected_not_waiting:
  "running_inv os B X E C D s \<Longrightarrow> conns s k = Some cn \<Longrightarrow> conn_state cn \<noteq> kConnecting \<Longrightarrow>
    ConnectEstablished k \<notin> set (waiting B s (conn_loop cn))"
  using established_waiting(1) by blast

lemma running_setState:
  assumes inv: "running_inv os B X E C D s" and k: "conns s k = Some cn"
    and st: "st = conn_state cn \<or> conn_state cn \<noteq> kDisconnected \<and> ConnectEstablished k \<notin> set (waiting B s (conn_loop cn)) \<and>
      (st = kDisconnected \<longrightarrow> k \<in> C) \<and> st \<noteq> kConnecting \<and> (st = kDisconnected \<or> k \<in> E \<or> is_up cn)"
  shows "setState st k s = Inr (put_conn k (cn\<lparr>conn_state := st\<rparr>) s)"
    "running_inv os B X E C D (put_conn k (cn\<lparr>conn_state := st\<rparr>) s)" "stays s (put_conn k (cn\<lparr>conn_state := st\<rparr>) s)"
proof -
  show "setState st k s = Inr (put_conn k (cn\<lparr>conn_state := st\<rparr>) s)" using k by (simp add: setState_def)
  from conns_wfD [OF running_invD(4) [OF inv] k] have c: "conn_static cn" "input_sized cn" "k \<notin> X \<longrightarrow> input_empty cn" by metis+
  have "running_inv os B X E C D (put_conn k (cn\<lparr>conn_state := st\<rparr>) s) \<and> stays s (put_conn k (cn\<lparr>conn_state := st\<rparr>) s)"
    using c st by (intro conjI running_put_conn [OF inv k])
      (auto simp: conn_ident_def conn_static_def input_sized_def input_empty_def bufs_le_def is_up_def)
  then show "running_inv os B X E C D (put_conn k (cn\<lparr>conn_state := st\<rparr>) s)" "stays s (put_conn k (cn\<lparr>conn_state := st\<rparr>) s)"
    by blast+
qed

lemma running_shutdown:
  assumes inv: "running_inv os B X E C D s" and k: "conns s k = Some cn"
  shows "\<exists>s'. shutdown os me k s = Inr s' \<and> running_inv os B X E C D s' \<and> stays s s'"
proof (cases "conn_state cn = kConnected")
  case False
  then show ?thesis using k inv by (auto simp: shutdown_def)
next
  case True
  let ?cn = "cn\<lparr>conn_state := kDisconnecting\<rparr>"
  have "kDisconnecting = conn_state cn \<or> conn_state cn \<noteq> kDisconnected \<and> ConnectEstablished k \<notin> set (waiting B s (conn_loop cn)) \<and>
      (kDisconnecting = kDisconnected \<longrightarrow> k \<in> C) \<and> kDisconnecting \<noteq> kConnecting \<and>
      (kDisconnecting = kDisconnected \<or> k \<in> E \<or> is_up cn)"
    using disconnected_not_waiting [OF inv k] by (intro disjI2 conjI) (simp_all add: True is_up_def)
  note st = running_setState [OF inv k this]
  have w: "conn_loop cn \<in> set (workers s)" using conns_wfD [OF running_invD(4) [OF inv] k] by metis
  have "k \<in> members s" by (rule running_member [OF inv k]) (simp add: True)
  then have "may_queue B (put_conn k ?cn s) (conn_loop cn) (ShutdownInLoop k)"
    using w by (auto simp: may_queue_def worker_functor_def is_established_def)
  from running_push [OF st(2) this, of me] obtain s' where
    s': "queueInLoop os me (conn_loop cn) (ShutdownInLoop k) (put_conn k ?cn s) = Inr s'" "running_inv os B X E C D s'"
      "stays (put_conn k ?cn s) s'" by auto
  have "shutdown os me k s = Inr s'" using True k st(1) s'(1) by (simp add: shutdown_def)
  with s' stays_trans [OF st(3)] show ?thesis by blast
qed

lemma retrieve_keeps_empty: "input_empty cn \<Longrightarrow> retrieve n (inputBuffer cn) = retrieveAll (inputBuffer cn)"
  by (simp add: retrieve_def input_empty_def readableBytes_def)

lemma running_input:
  assumes inv: "running_inv os B X E C D s" and k: "conns s k = Some cn"
    and b: "buf_wf b" "length (buf_vec b) = 1032" and X: "X - {k} \<subseteq> X'"
      "k \<in> X' \<or> readerIndex b = kCheapPrepend \<and> writeIndex b = kCheapPrepend"
  shows "running_inv os B X' E C D (put_conn k (cn\<lparr>inputBuffer := b\<rparr>) s)" "stays s (put_conn k (cn\<lparr>inputBuffer := b\<rparr>) s)"
proof -
  let ?cn = "cn\<lparr>inputBuffer := b\<rparr>"
  from conns_wfD [OF running_invD(4) [OF inv] k] have c: "conn_static cn" by metis
  have "running_inv os B X' E C D (put_conn k ?cn s) \<and> stays s (put_conn k ?cn s)"
    using b X c by (intro conjI running_put_conn [OF inv k])
      (auto simp: conn_ident_def conn_static_def input_sized_def input_empty_def bufs_le_def)
  then show "running_inv os B X' E C D (put_conn k ?cn s)" "stays s (put_conn k ?cn s)" by blast+
qed

lemma retrieve_sized: "length (buf_vec (retrieve n b)) = length (buf_vec b)" "length (buf_vec (retrieveAll b)) = length (buf_vec b)"
  by (simp_all add: retrieve_def retrieveAll_def)

lemma running_run_call:
  assumes inv: "running_inv os B X E C D s" and k: "conns s k = Some cn" and me: "thread_of s (conn_loop cn) = me"
    and own: "call_conn call = k"
  shows "\<exists>s'. run_call os me call s = Inr s' \<and> running_inv os B (if call = UcRetrieveAll k then X - {k} else X) E C D s' \<and> stays s s'"
proof (cases call)
  case (UcSend k' d)
  let ?s = "s\<lparr>strings := (strings s)(next_string s := Some d), next_string := Suc (next_string s)\<rparr>"
  note str = running_strings [OF inv, where x = "(strings s)(next_string s := Some d)" and n = "Suc (next_string s)"]
  have "thread_of ?s (conn_loop cn) = me" using me by (simp add: thread_of_def)
  from running_send [OF str(1) _ this, of k "next_string s" d] k obtain s' where
    "send os me k (next_string s) ?s = Inr s'" "running_inv os B X E C D s'" "stays ?s s'" by auto
  then show ?thesis using UcSend own stays_trans [OF str(2)] by auto
next
  case (UcShutdown k')
  then show ?thesis using running_shutdown [OF inv k, of me] own by auto
next
  case (UcRetrieve k' n)
  from conns_wfD [OF running_invD(4) [OF inv] k] have c: "input_sized cn" "k \<notin> X \<longrightarrow> input_empty cn" by metis+
  have wf: "buf_wf (inputBuffer cn)" using running_conn_ok [OF inv k] by (simp add: conn_ok_def)
  have "k \<in> X \<or> readerIndex (retrieve n (inputBuffer cn)) = kCheapPrepend \<and> writeIndex (retrieve n (inputBuffer cn)) = kCheapPrepend"
    using c(2) retrieve_keeps_empty by (auto simp: retrieveAll_def)
  note r = running_input [OF inv k retrieve_wf [OF wf] _ _ this]
  have "length (buf_vec (retrieve n (inputBuffer cn))) = 1032" using c(1) by (simp add: input_sized_def retrieve_sized)
  with r [OF this] UcRetrieve own k show ?thesis by auto
next
  case (UcRetrieveAll k')
  from conns_wfD [OF running_invD(4) [OF inv] k] have c: "input_sized cn" by metis
  have wf: "buf_wf (inputBuffer cn)" using running_conn_ok [OF inv k] by (simp add: conn_ok_def)
  have "length (buf_vec (retrieveAll (inputBuffer cn))) = 1032" using c by (simp add: input_sized_def retrieve_sized)
  note r = running_input [OF inv k retrieveAll_wf [OF wf] this, of "X - {k}"]
  then show ?thesis using UcRetrieveAll own k retrieveAllAsString_ok [OF wf] by (auto simp: retrieveAll_def)
qed

lemma running_run_calls:
  assumes inv: "running_inv os B X E C D s" and k: "conns s k = Some cn" and me: "thread_of s (conn_loop cn) = me"
    and own: "\<forall>call \<in> set calls. call_conn call = k"
  shows "\<exists>s'. run_calls os me calls s = Inr s' \<and>
    running_inv os B (if UcRetrieveAll k \<in> set calls then X - {k} else X) E C D s' \<and> stays s s'"
proof -
  have "\<exists>s'. foldr_res (run_call os me) calls s = Inr s' \<and>
    running_inv os B (if UcRetrieveAll k \<in> set calls then X - {k} else X) E C D s' \<and> stays s s'"
    using inv k me own
  proof (induction calls arbitrary: s X cn)
    case Nil
    then show ?case by simp
  next
    case (Cons call calls)
    let ?X = "if call = UcRetrieveAll k then X - {k} else X"
    from running_run_call [OF Cons.prems(1-3), of call] Cons.prems(4) obtain s1 where
      s1: "run_call os me call s = Inr s1" "running_inv os B ?X E C D s1" "stays s s1" by auto
    from stays_connD [OF s1(3) Cons.prems(2)] obtain cn1 where cn1: "conns s1 k = Some cn1" "conn_loop cn1 = conn_loop cn" by metis
    from Cons.IH [OF s1(2) cn1(1)] cn1(2) stays_thread [OF s1(3)] Cons.prems(3,4) obtain s2 where
      s2: "foldr_res (run_call os me) calls s1 = Inr s2" "stays s1 s2"
        "running_inv os B (if UcRetrieveAll k \<in> set calls then ?X - {k} else ?X) E C D s2" by auto
    have "(if UcRetrieveAll k \<in> set calls then ?X - {k} else ?X) = (if UcRetrieveAll k \<in> set (call # calls) then X - {k} else X)"
      by auto
    with s1 s2 stays_trans [OF s1(3) s2(2)] show ?case by auto
  qed
  then obtain t where t: "foldr_res (run_call os me) calls s = Inr t" "stays s t"
    "running_inv os B (if UcRetrieveAll k \<in> set calls then X - {k} else X) E C D t" by blast
  let ?x = "\<lambda>a. if next_string s \<le> a then None else strings t a"
  have "run_calls os me calls s = Inr (t\<lparr>strings := ?x\<rparr>)" using t(1) by (simp add: run_calls_def)
  with running_strings' [OF t(3), of ?x] stays_trans [OF t(2)] show ?thesis by blast
qed

subsection \<open>The callbacks of a connection's channel\<close>

text \<open>Peers send at most 1024 bytes at a time, the size of the input buffer.\<close>

definition short_messages :: "os \<Rightarrow> bool" where
  "short_messages os \<longleftrightarrow> (\<forall>tr fd lens. ret (os tr (Readv fd lens)) \<le> 1024)"

lemma running_removeConnection:
  assumes inv: "running_inv os B X E C D s" and k: "conns s k = Some cn" and me: "thread_of s (conn_loop cn) = me"
    and st: "conn_state cn = kDisconnected"
  shows "\<exists>s'. removeConnection os me run k s = Inr s' \<and> running_inv os B X (E - {k}) (C - {k}) D s' \<and> stays s s'"
proof -
  from running_loop [OF inv base_loop] obtain bp where bp: "loops s (base s) = Some bp" "threadId bp = thread_of s (base s)" .
  have "threadId bp \<noteq> me" using running_conn_loop [OF inv k] me bp(2) by metis
  moreover have "may_queue B s (base s) (RemoveConnectionInLoop k)" using k st by (auto simp: may_queue_def base_functor_def)
  from running_push [OF inv this, of me] obtain s' where "queueInLoop os me (base s) (RemoveConnectionInLoop k) s = Inr s'"
    "running_inv os B X (E - {k}) (C - {k}) D s'" "stays s s'" by auto
  ultimately show ?thesis using bp(1) by (simp add: removeConnection_def runInLoop_def isInLoopThread_def)
qed

lemma running_connectionCb:
  assumes inv: "running_inv os B X E C D s" and k: "conns s k = Some cn" and me: "thread_of s (conn_loop cn) = me"
    and uc: "local_user uc"
  shows "\<exists>s'. call_connectionCb os me uc k s = Inr s' \<and> running_inv os B X E C D s' \<and> stays s s'"
proof -
  have cb: "hasConnectionCb cn" using conns_wfD [OF running_invD(4) [OF inv] k] unfolding conn_static_def by metis
  have "\<forall>call \<in> set (onConnection uc k (connected cn)). call_conn call = k" using uc unfolding local_user_def by blast
  from running_run_calls [OF inv k me this] obtain s' where s': "run_calls os me (onConnection uc k (connected cn)) s = Inr s'"
    "running_inv os B (if UcRetrieveAll k \<in> set (onConnection uc k (connected cn)) then X - {k} else X) E C D s'" "stays s s'" by blast
  have "running_inv os B X E C D s'" using s'(2) unfolding running_inv_def conns_wf_def by (auto split: if_splits)
  with s' cb k show ?thesis by (auto simp: call_connectionCb_def)
qed

lemma running_handleClose:
  assumes inv: "running_inv os B X E C D s" and k: "conns s k = Some cn" and c: "chans s (conn_channel cn) = Some c" "ch_index c \<noteq> kNew"
    and me: "thread_of s (conn_loop cn) = me" and uc: "local_user uc"
  shows "\<exists>s'. handleClose os me uc (removeConnection os me run) k s = Inr s' \<and> running_inv os B X (E - {k}) (C - {k}) D s' \<and> stays s s'"
proof -
  let ?cn = "cn\<lparr>conn_state := kDisconnected\<rparr>"
  have nw: "ConnectEstablished k \<notin> set (waiting B s (conn_loop cn))"
    using established_waiting(2) [OF inv k] c by (auto simp: chan_index_def)
  let ?C = "insert k C"
  have "kDisconnected = conn_state cn \<or> conn_state cn \<noteq> kDisconnected \<and> ConnectEstablished k \<notin> set (waiting B s (conn_loop cn)) \<and>
      (kDisconnected = kDisconnected \<longrightarrow> k \<in> ?C) \<and> kDisconnected \<noteq> kConnecting \<and>
      (kDisconnected = kDisconnected \<or> k \<in> E \<or> is_up cn)" using nw by (cases "conn_state cn = kDisconnected") simp_all
  note st = running_setState [OF running_mono [OF inv subset_insertI order_refl] k this]
  define s1 where "s1 = put_conn k ?cn s"
  note i1 = st(2,3) [folded s1_def]
  have k1: "conns s1 k = Some ?cn" and c1: "chans s1 (conn_channel ?cn) = Some c" by (simp_all add: s1_def c)
  from running_events [OF i1(1) k1 c1, of DisableAll me] nw c(2) obtain s2 where
    s2: "set_events os me DisableAll (conn_channel cn) s1 = Inr s2" "running_inv os B X E ?C D s2" "stays s1 s2" "conns s2 = conns s1"
    by (auto simp: s1_def is_up_def)
  have k2: "conns s2 k = Some ?cn" using s2(4) k1 by simp
  have t2: "thread_of s2 (conn_loop ?cn) = me" using stays_thread [OF i1(2)] stays_thread [OF s2(3)] me by simp
  from running_connectionCb [OF s2(2) k2 t2 uc] obtain s3 where
    s3: "call_connectionCb os me uc k s2 = Inr s3" "running_inv os B X E ?C D s3" "stays s2 s3" by blast
  from stays_connD [OF s3(3) k2] obtain dn where dn: "conns s3 k = Some dn" "conn_loop dn = conn_loop cn" "conn_state dn = kDisconnected"
    by auto
  have t3: "thread_of s3 (conn_loop dn) = me" using stays_thread [OF s3(3)] t2 dn(2) by simp
  from running_removeConnection [OF s3(2) dn(1) t3 dn(3), of run] obtain s4 where
    s4: "removeConnection os me run k s3 = Inr s4" "running_inv os B X (E - {k}) (C - {k}) D s4" "stays s3 s4" by auto
  have "hasCloseCb dn" using conns_wfD [OF running_invD(4) [OF s3(2)] dn(1)] unfolding conn_static_def by metis
  then have "handleClose os me uc (removeConnection os me run) k s = Inr s4"
    using st(1) [folded s1_def] k1 s2(1) s3(1) s4(1) dn(1) by (simp add: handleClose_def call_closeCb_def)
  with s4(2) stays_trans [OF i1(2) stays_trans [OF s2(3) stays_trans [OF s3(3) s4(3)]]] show ?thesis by blast
qed

text \<open>A short message in an empty buffer.\<close>

lemma readFd_sized:
  assumes "readFd (Inr d) b = Inr (n, b', e)" "of_nat (length d) \<le> writeableBytes b"
  shows "length (buf_vec b') = length (buf_vec b)" "readerIndex b' = readerIndex b"
    "writeIndex b' = writeIndex b + of_nat (length d)"
  using assms by (auto simp: readFd_def Let_def rbind_eq_Inr copy_to_write_def split: if_splits)

lemma short_read:
  assumes wf: "buf_wf (inputBuffer cn)" and e: "input_empty cn" "input_sized cn" and d: "length d \<le> 1024"
  shows "\<exists>b. readFd (Inr d) (inputBuffer cn) = Inr (int (length d), b, None) \<and> buf_wf b \<and> length (buf_vec b) = 1032 \<and>
    (d = [] \<longrightarrow> readerIndex b = kCheapPrepend \<and> writeIndex b = kCheapPrepend)"
proof -
  let ?b = "inputBuffer cn"
  have free: "free_space ?b = 1024" using e by (simp add: free_space_def input_empty_def input_sized_def)
  have un: "unat (of_nat (length d) :: size_t) = length d" using d by (simp add: unat_size_t_of_nat)
  have le: "of_nat (length d) \<le> writeableBytes ?b" using d un free by (simp add: word_le_nat_alt unat_writeable [OF wf])
  have cap: "length d \<le> readFd_capacity ?b"
    using d e by (simp add: readFd_capacity_eq [OF wf] free extrabuf_size_def input_empty_def)
  from readFd_in_vector [OF wf cap] d free obtain b where b: "readFd (Inr d) ?b = Inr (int (length d), b, None)" "buf_wf b" by auto
  from readFd_sized [OF b(1) le] e b show ?thesis by (auto simp: input_empty_def input_sized_def)
qed

lemma running_handleError:
  assumes "running_inv os B X E C D s" "conns s k = Some cn"
  shows "\<exists>s'. handleError os me k s = Inr s' \<and> running_inv os B X E C D s' \<and> stays s s'"
  using assms running_call [OF assms(1), of "GetSockError (conn_fd cn)" me] by (simp add: handleError_def)

lemma running_handleRead:
  assumes inv: "running_inv os B {} {} {} D s" and k: "conns s k = Some cn" and c: "chans s (conn_channel cn) = Some c" "ch_index c \<noteq> kNew"
    and me: "thread_of s (conn_loop cn) = me" and uc: "local_user uc" and short: "short_messages os"
  shows "\<exists>s'. handleRead os me uc (removeConnection os me run) k t s = Inr s' \<and> running_inv os B {} {} {} D s' \<and> stays s s'"
proof -
  let ?call = "Readv (conn_fd cn) (readv_lens (inputBuffer cn))"
  define r where "r = os (io_trace s) ?call"
  define s1 where "s1 = snd (do_call os me ?call s)"
  have call: "do_call os me ?call s = (r, s1)" by (simp add: r_def s1_def prod_eq_iff)
  have "running_inv os B {} {} {} D s1" "stays s s1" using running_call [OF inv, of ?call me] by (simp_all add: s1_def)
  note i1 = this
  have k1: "conns s1 k = Some cn" by (simp add: s1_def k)
  from conns_wfD [OF running_invD(4) [OF inv] k] have cw: "conn_static cn" "input_sized cn" "input_empty cn" by auto
  have wf: "buf_wf (inputBuffer cn)" using running_conn_ok [OF inv k] by (simp add: conn_ok_def)
  have "\<exists>n b e. readFd (readv_answer r) (inputBuffer cn) = Inr (n, b, e) \<and> buf_wf b \<and> length (buf_vec b) = 1032 \<and>
      (n \<le> 0 \<longrightarrow> readerIndex b = kCheapPrepend \<and> writeIndex b = kCheapPrepend)"
  proof (cases "ret r < 0")
    case True
    then show ?thesis using wf cw by (simp add: readv_answer_def readFd_def Let_def input_empty_def input_sized_def)
  next
    case False
    define d where "d = take (nat (ret r)) (rdata r)"
    have "ret r \<le> 1024" using short by (simp add: short_messages_def r_def)
    then have "length d \<le> 1024" by (simp add: d_def)
    moreover have "readv_answer r = Inr d" using False by (simp add: readv_answer_def d_def)
    ultimately show ?thesis using short_read [OF wf cw(3,2), of d] by auto
  qed
  then obtain n b e where b: "readFd (readv_answer r) (inputBuffer cn) = Inr (n, b, e)" "buf_wf b" "length (buf_vec b) = 1032"
    "n \<le> 0 \<Longrightarrow> readerIndex b = kCheapPrepend \<and> writeIndex b = kCheapPrepend" by blast
  let ?cn = "cn\<lparr>inputBuffer := b\<rparr>" and ?X = "if 0 < n then {k} else {}"
  define s2 where "s2 = put_conn k ?cn s1"
  have i2: "running_inv os B ?X {} {} D s2" "stays s1 s2"
    using running_input [OF i1(1) k1 b(2,3), of ?X] b(4) by (auto simp: s2_def)
  have k2: "conns s2 k = Some ?cn" "chans s2 (conn_channel ?cn) = Some c" by (simp_all add: s2_def s1_def c)
  have t2: "thread_of s2 (conn_loop ?cn) = me" using stays_thread [OF i1(2)] stays_thread [OF i2(2)] me by simp
  have run: "handleRead os me uc (removeConnection os me run) k t s =
      (if 0 < n then call_messageCb os me uc k t s2
       else if n = 0 then handleClose os me uc (removeConnection os me run) k s2 else handleError os me k s2)"
    using k k1 b(1) by (simp add: handleRead_def call s2_def)
  note st = stays_trans [OF i1(2) i2(2)]
  consider "0 < n" | "n = 0" | "n < 0" by linarith
  then show ?thesis
  proof cases
    case 1
    have "(\<forall>call \<in> set (onMessage uc k (contents b) t). call_conn call = k) \<and> UcRetrieveAll k \<in> set (onMessage uc k (contents b) t)"
      using uc unfolding local_user_def by blast
    with running_run_calls [OF i2(1) k2(1) t2, of "onMessage uc k (contents b) t"] 1 obtain s3 where
      "run_calls os me (onMessage uc k (contents b) t) s2 = Inr s3" "running_inv os B {} {} {} D s3" "stays s2 s3" by auto
    with 1 run k2(1) cw(1) stays_trans [OF st] show ?thesis by (auto simp: call_messageCb_def conn_static_def)
  next
    case 2
    with running_handleClose [OF _ k2 c(2) t2 uc, where os = os and B = B and X = "{}" and E = "{}" and C = "{}" and run = run] i2(1) run stays_trans [OF st] show ?thesis by auto
  next
    case 3
    with running_handleError [OF _ k2(1), where os = os and B = B and X = "{}" and E = "{}" and C = "{}" and me = me] i2(1) run stays_trans [OF st] show ?thesis by auto
  qed
qed

lemma running_conn_cb:
  assumes inv: "running_inv os B {} {} {} D s" and k: "conns s k = Some cn" and c: "chans s (conn_channel cn) = Some c" "ch_index c \<noteq> kNew"
    and me: "thread_of s (conn_loop cn) = me" and uc: "local_user uc" and short: "short_messages os"
    and cb: "cb \<in> {ConnHandleRead k, ConnHandleWrite k, ConnHandleClose k, ConnHandleError k}"
  shows "\<exists>s'. server_cb os me uc d cb t s = Inr s' \<and> running_inv os B {} {} {} D s' \<and> stays s s'"
proof -
  have nw: "\<not> isWriting c" using running_invD(3) [OF inv] c(1) unfolding chans_wf_def by blast
  have w: "handleWrite os me k s = Inr s" using k c(1) nw by (simp add: handleWrite_def conn_chan_def)
  show ?thesis
    using cb running_handleRead [OF inv k c me uc short, of "server_run os me uc" t] w inv
      running_handleClose [OF inv k c me uc, of "server_run os me uc"] running_handleError [OF inv k, of me]
    by (auto simp: server_cb_def)
qed

end
