(* ===== verification/ServerRuns.thy ===== *)
theory ServerRuns
  imports ServerInv
begin

section \<open>Whole runs of a server\<close>

text \<open>
  With the invariant of the theory ServerInv: each functor, a batch of functors, the release of
  connections, the acceptance of new ones, the dispatch of events and with them whole turns of the
  loops return without a fault and keep the invariant.
\<close>

subsection \<open>Functors of a worker\<close>

abbreviation no_batch :: "loop_id \<Rightarrow> Functor list" where
  "no_batch \<equiv> \<lambda>_. []"

text \<open>
  What a functor of the loop \<open>l\<close> keeps: the loops and what identifies them, and of the other loops the
  channels that their pollers know.
\<close>

definition same_shape :: "loop_id \<Rightarrow> 'a server_net_scheme \<Rightarrow> 'a server_net_scheme \<Rightarrow> bool" where
  "same_shape l s s' \<longleftrightarrow> all_loops s' = all_loops s \<and> (\<forall>k. sig_of s' k = sig_of s k) \<and>
     nextConnId (srv s') = nextConnId (srv s) \<and> srv_acceptor (srv s') = srv_acceptor (srv s) \<and>
     (\<forall>p c. chans s p = Some c \<longrightarrow> ch_index c \<noteq> kNew \<longrightarrow> ch_loop c \<noteq> l \<longrightarrow>
        (\<exists>c'. chans s' p = Some c' \<and> ch_loop c' = ch_loop c \<and> ch_index c' \<noteq> kNew))"

lemma same_shape_refl [simp]: "same_shape l s s"
  by (simp add: same_shape_def)

lemma same_shape_trans [trans]:
  assumes "same_shape l s t" "same_shape l t u" shows "same_shape l s u"
proof -
  have "\<exists>e. chans u p = Some e \<and> ch_loop e = ch_loop c \<and> ch_index e \<noteq> kNew"
    if c: "chans s p = Some c" "ch_index c \<noteq> kNew" "ch_loop c \<noteq> l" for p c
  proof -
    from assms(1) c obtain d where "chans t p = Some d" "ch_loop d = ch_loop c" "ch_index d \<noteq> kNew"
      unfolding same_shape_def by blast
    with assms(2) c(3) show ?thesis unfolding same_shape_def by metis
  qed
  then show ?thesis using assms by (simp add: same_shape_def)
qed

lemma same_shape_thread: "same_shape l s s' \<Longrightarrow> thread_of s' k = thread_of s k"
  unfolding same_shape_def by (blast intro: sig_of_SomeD(1))

lemma same_shape_loops:
  assumes "same_shape l s s'" shows "base s' = base s" "set (workers s') = set (workers s)" "all_loops s' = all_loops s"
  using assms by (simp_all add: same_shape_def server_loops_def)

lemma stays_shape: "stays s s' \<Longrightarrow> same_shape l s s'"
  unfolding stays_def same_shape_def chan_static_def prod.inject by metis

lemma waiting_upd [simp]:
  "waiting (B(l := q)) s k = (if k = l then q @ queued_in s l else waiting B s k)"
  by (simp add: waiting_def)

lemma running_pop:
  assumes inv: "running_inv os (B(l := f # fs)) X E C D s"
  shows "running_inv os (B(l := fs)) X (E \<union> settled f)
    (C \<union> {k. f = RemoveConnectionInLoop k}) D s"
proof -
  note wf = running_invD [OF inv]
  have "queues_wf (B(l := fs)) s"
    using wf(5) unfolding queues_wf_def by (auto split: if_splits)
  have "held (B(l := fs)) s k cn \<or> k \<in> settled f" if "held (B(l := f # fs)) s k cn" for k cn
    using that unfolding held_def settled_def by (auto split: if_splits)
  moreover have "ConnectEstablished k \<in> set (waiting (B(l := fs)) s j) \<or> k \<in> settled f"
    if "ConnectEstablished k \<in> set (waiting (B(l := f # fs)) s j)" for k j
    using that by (auto simp: settled_def split: if_splits)
  moreover have "RemoveConnectionInLoop k \<in> set (waiting (B(l := fs)) s (base s)) \<or> f = RemoveConnectionInLoop k"
    if "RemoveConnectionInLoop k \<in> set (waiting (B(l := f # fs)) s (base s))" for k
    using that by (auto split: if_splits)
  ultimately have "life_wf (B(l := fs)) (E \<union> settled f)
      (C \<union> {k. f = RemoveConnectionInLoop k}) D s"
    using wf(6) unfolding life_wf_def by blast
  moreover note \<open>queues_wf (B(l := fs)) s\<close>
  ultimately show ?thesis using inv by (simp add: running_inv_def)
qed

text \<open>What the first functor of a worker's batch is.\<close>

lemma worker_head:
  assumes inv: "running_inv os (B(l := f # fs)) X E C D s" and l: "l \<in> set (workers s)"
  shows "worker_functor s l f" "is_established f \<Longrightarrow> f \<notin> set (waiting (B(l := fs)) s l)"
  using running_invD(5) [OF inv] l unfolding queues_wf_def by (auto split: if_splits)

lemma running_tie:
  assumes inv: "running_inv os B X E C D s" and c: "chans s p = Some c"
  shows "upd_chan p (tie k) s = Inr (put_chan p (tie k c) s)" "running_inv os B X E C D (put_chan p (tie k c) s)"
    "stays s (put_chan p (tie k c) s)"
proof -
  let ?s = "put_chan p (tie k c) s"
  show "upd_chan p (tie k) s = Inr ?s" using c by (simp add: upd_chan_def)
  have ids: "srv ?s = srv s" "next_conn ?s = next_conn s" "next_chan ?s = next_chan s" by (simp_all add: put_chan_def)
  have "rel_option chan_alike (chans s q) (chans ?s q)" for q
    using c by (auto simp: chan_alike_def chan_static_def callbacks_of_def chan_sig_def tie_def intro!: rel_option_reflI)
  then have "running_inv os B X E C D ?s \<and> stays s ?s"
    by (intro conjI running_alike [OF inv ids]) (simp_all add: rel_option_reflI waiting_def queued_in_def)
  then show "running_inv os B X E C D ?s" "stays s ?s" by blast+
qed

lemma running_established:
  assumes inv: "running_inv os B X E C D s" and k: "conns s k = Some cn" "conn_state cn = kConnecting"
    and nw: "ConnectEstablished k \<notin> set (waiting B s (conn_loop cn))"
    and me: "thread_of s (conn_loop cn) = me" and uc: "local_user uc" and E: "k \<in> E"
  shows "\<exists>s'. connectEstablished os me uc k s = Inr s' \<and> running_inv os B X (E - {k}) C D s' \<and> stays s s'"
proof -
  let ?cn = "cn\<lparr>conn_state := kConnected\<rparr>"
  have "kConnected = conn_state cn \<or> conn_state cn \<noteq> kDisconnected \<and> ConnectEstablished k \<notin> set (waiting B s (conn_loop cn)) \<and>
      (kConnected = kDisconnected \<longrightarrow> k \<in> C) \<and> kConnected \<noteq> kConnecting \<and> (kConnected = kDisconnected \<or> k \<in> E \<or> is_up cn)"
    using k(2) nw E by simp
  note st = running_setState [OF inv k(1) this]
  define s1 where "s1 = put_conn k ?cn s"
  note i1 = st(2,3) [folded s1_def]
  have k1: "conns s1 k = Some ?cn" by (simp add: s1_def)
  from conns_wfD [OF running_invD(4) [OF i1(1)] k1] obtain c where c: "chans s1 (conn_channel ?cn) = Some c" by metis
  define s2 where "s2 = put_chan (conn_channel ?cn) (tie k c) s1"
  note i2 = running_tie [OF i1(1) c, of k, folded s2_def]
  have k2: "conns s2 k = Some ?cn" "chans s2 (conn_channel ?cn) = Some (tie k c)" by (simp_all add: s2_def k1)
  have w: "waiting B s2 l = waiting B s l" for l by (simp add: s2_def s1_def waiting_def queued_in_def)
  have "k \<in> members s2" by (rule running_member [OF i2(2) k2(1)]) simp
  then have g: "ConnectEstablished k \<notin> set (waiting B s2 (conn_loop ?cn))"
    "ch_index (tie k c) \<noteq> kNew \<or> held B s2 k ?cn \<or> k \<in> E" "\<not> is_up ?cn \<or> k \<in> E" using nw E by (simp_all add: w held_def)
  from running_events [OF i2(2) k2 _ g, of EnableReading me] obtain s3 where
    s3: "set_events os me EnableReading (conn_channel cn) s2 = Inr s3" "running_inv os B X E C D s3" "stays s2 s3" "conns s3 = conns s2"
      "watched s3 ?cn" by auto
  have k3: "conns s3 k = Some ?cn" using s3(4) k2(1) by simp
  have m3: "k \<in> members s3" by (rule running_member [OF s3(2) k3]) simp
  have i3: "running_inv os B X (E - {k}) C D s3"
    by (rule running_less_held [OF s3(2)]) (use k3 s3(5) m3 in \<open>auto simp: held_def\<close>)
  note st3 = stays_trans [OF i1(2) stays_trans [OF i2(3) s3(3)]]
  have t3: "thread_of s3 (conn_loop ?cn) = me" using stays_thread [OF st3] me by simp
  from running_connectionCb [OF i3 k3 t3 uc] obtain s4 where
    s4: "call_connectionCb os me uc k s3 = Inr s4" "running_inv os B X (E - {k}) C D s4" "stays s3 s4" by blast
  have "connectEstablished os me uc k s = Inr s4"
    using st(1) [folded s1_def] k1 i2(1) s3(1) s4(1) by (simp add: connectEstablished_def)
  with s4 stays_trans [OF st3 s4(3)] show ?thesis by blast
qed

lemma running_destroyed:
  assumes inv: "running_inv os B X E C D s" and k: "conns s k = Some cn" "conn_state cn = kDisconnected" and D: "k \<in> D"
  shows "\<exists>s'. connectDestroyed os me uc k s = Inr s' \<and> running_inv os B X (E - {k}) C D s' \<and> same_shape (conn_loop cn) s s'"
proof -
  from conns_wfD [OF running_invD(4) [OF inv] k(1)] obtain c where c: "chans s (conn_channel cn) = Some c"
    "ch_loop c = conn_loop cn" by metis
  from running_remove [OF inv k(1) c(1) k(2) D, of me] c k show ?thesis by (auto simp: connectDestroyed_def same_shape_def)
qed

lemma running_shutdownInLoop:
  assumes inv: "running_inv os B X E C D s" and k: "conns s k = Some cn"
  shows "\<exists>s'. shutdownInLoop os me k s = Inr s' \<and> running_inv os B X E C D s' \<and> same_shape l s s'"
proof -
  from conns_wfD [OF running_invD(4) [OF inv] k] obtain c where c: "chans s (conn_channel cn) = Some c" by metis
  from running_call [OF inv, of "ShutdownWr (conn_fd cn)" me] k c inv show ?thesis
    by (cases "isWriting c") (auto simp: shutdownInLoop_def conn_chan_def stays_shape)
qed

lemma worker_runs:
  assumes inv: "running_inv os (B(l := f # fs)) {} {} {} D s" and l: "l \<in> set (workers s)" and me: "thread_of s l = me"
    and uc: "local_user uc" and D: "\<And>k. f = ConnectDestroyed k \<Longrightarrow> k \<in> D"
  shows "\<exists>s'. server_run os me uc f s = Inr s' \<and> running_inv os (B(l := fs)) {} {} {} D s' \<and> same_shape l s s'"
proof -
  from worker_head(1) [OF inv l] obtain k cn where k: "conns s k = Some cn" "conn_loop cn = l" and
    f: "f = ConnectEstablished k \<and> conn_state cn = kConnecting \<or> f = ConnectDestroyed k \<and> conn_state cn = kDisconnected \<or>
      f = ShutdownInLoop k" unfolding worker_functor_def by blast
  note pop = running_pop [OF inv]
  from f show ?thesis
  proof (elim disjE conjE)
    assume a: "f = ConnectEstablished k" "conn_state cn = kConnecting"
    with pop have "running_inv os (B(l := fs)) {} {k} {} D s" by simp
    from running_established [OF this k(1) a(2) _ _ uc] worker_head(2) [OF inv l] a k(2) me show ?thesis
      by (auto simp: server_run_def is_established_def stays_shape)
  next
    assume a: "f = ConnectDestroyed k" "conn_state cn = kDisconnected"
    with pop have "running_inv os (B(l := fs)) {} {k} {} D s" by simp
    from running_destroyed [OF this k(1) a(2) D [OF a(1)], of me uc] a(1) k(2) show ?thesis by (auto simp: server_run_def)
  next
    assume a: "f = ShutdownInLoop k"
    with pop have "running_inv os (B(l := fs)) {} {} {} D s" by simp
    from running_shutdownInLoop [OF this k(1), of me] a show ?thesis by (auto simp: server_run_def)
  qed
qed

subsection \<open>Functors of the base loop\<close>

lemma queueInLoop_put_srv:
  assumes "queueInLoop os me l f s = Inr s'" "loops s l = Some lp"
  shows "queueInLoop os me l f (put_srv sv s) = Inr (put_srv sv s')"
proof -
  have eqs: "snd (do_call os me k (put_srv sv t)) = put_srv sv (snd (do_call os me k t))"
    "put_loop l q (put_srv sv t) = put_srv sv (put_loop l q t)" for k q and t :: "'a server_net_scheme"
    by (simp_all add: put_srv_def put_loop_def do_call_def Let_def)
  have "loops (put_srv sv s) l = Some lp" using assms(2) by simp
  from queueInLoop_ok [OF this, of os me f] queueInLoop_ok [OF assms(2), of os me f] assms(1) show ?thesis
    unfolding eqs by (auto split: if_splits)
qed

lemma shutdown_safe_mono: "shutdown_safe M q \<Longrightarrow> M \<subseteq> M' \<Longrightarrow> shutdown_safe M' q"
  by (induction q) (auto split: Functor.splits)

lemma shutdown_safe_last:
  "shutdown_safe M (q @ [ConnectDestroyed k]) \<Longrightarrow> shutdown_safe (M - {k}) (q @ [ConnectDestroyed k])"
  by (induction q) (auto split: Functor.splits)

lemma shutdown_safe_other: "shutdown_safe M q \<Longrightarrow> ShutdownInLoop k \<notin> set q \<Longrightarrow> shutdown_safe (M - {k}) q"
  by (induction q) (auto split: Functor.splits)

lemma shutdown_safeD: "shutdown_safe M q \<Longrightarrow> ShutdownInLoop k \<in> set q \<Longrightarrow> k \<in> M \<or> ConnectDestroyed k \<in> set q"
  by (induction q) (auto split: Functor.splits)

lemma running_members:
  assumes inv: "running_inv os B X E C D s" and k: "conns s k = Some cn"
  shows "members s - {k} \<subseteq> snd ` set (erase_conn (conn_name cn) (connections (srv s)))"
proof
  fix j assume j: "j \<in> members s - {k}"
  then obtain n where n: "(n, j) \<in> set (connections (srv s))" by auto
  then obtain dn where dn: "conns s j = Some dn" "conn_name dn = n"
    using running_invD(1) [OF inv] unfolding server_inv_def by blast
  have "n \<noteq> conn_name cn" using running_invD(4) [OF inv] dn k j unfolding conns_wf_def by blast
  with n show "j \<in> snd ` set (erase_conn (conn_name cn) (connections (srv s)))"
    unfolding erase_conn_def by force
qed

text \<open>A connection leaves the map once its destruction waits at the end of its loop's queue.\<close>

lemma running_erase:
  assumes inv: "running_inv os B X E C D s" and k: "conns s k = Some cn" "conn_state cn = kDisconnected"
    and last: "waiting B s (conn_loop cn) = q @ [ConnectDestroyed k]"
  defines "s' \<equiv> put_srv ((srv s)\<lparr>connections := erase_conn (conn_name cn) (connections (srv s))\<rparr>) s"
  shows "running_inv os B X E (C - {k}) D s'"
proof -
  note wf = running_invD [OF inv]
  let ?sv = "(srv s)\<lparr>connections := erase_conn (conn_name cn) (connections (srv s))\<rparr>"
  have s': "srv s' = ?sv" "conns s' = conns s" "chans s' = chans s" "loops s' = loops s" "io_trace s' = io_trace s"
    "next_conn s' = next_conn s" "next_chan s' = next_chan s" by (simp_all add: s'_def)
  have w: "waiting B s' j = waiting B s j" for j by (simp add: waiting_def queued_in_def s'(4))
  have idx: "chan_index s' = chan_index s" by (simp add: chan_index_def fun_eq_iff s'(3))
  have wt: "watched s' = watched s" by (simp add: watched_def fun_eq_iff s'(3))
  have L: "all_loops s' = all_loops s" "base s' = base s" "workers s' = workers s"
    "srv_acceptor (srv s') = srv_acceptor (srv s)" "srv_name (srv s') = srv_name (srv s)" "ipPort (srv s') = ipPort (srv s)"
    "nextConnId (srv s') = nextConnId (srv s)" by (simp_all add: server_loops_def s'(1))
  note M = running_members [OF inv k(1)]
  have gone: "k \<notin> members s'"
    using wf(1) k(1) unfolding server_inv_def s'(1) erase_conn_def by auto
  have si: "server_inv s'" unfolding s'_def
    by (rule server_inv_put_srv [OF wf(1)])
      (use wf(1) in \<open>auto simp: server_inv_def erase_conn_def intro: names_ok_erase [unfolded erase_conn_def]\<close>)
  have sig: "sig_of s' l = sig_of s l" for l by (simp add: sig_of_def s'(4))
  have "loops_wf os s'"
  proof (rule loops_wf_cong [OF wf(2) L(1)])
    show "reg_inv os l s'" if "l \<in> set (all_loops s)" for l
      by (rule reg_inv_alike [where s = s]) (use wf(2) that in \<open>simp_all add: loops_wf_def s'(3-5) rel_option_reflI\<close>)
  qed (use sig s'(3) in auto)
  moreover have "chans_wf s'"
    using wf(3) unfolding chans_wf_def chan_kind_def L s'(2,3,5,7) .
  moreover have "conns_wf X s'"
    using wf(4) unfolding conns_wf_def has_name_def L s'(2,3) .
  moreover have "queues_wf B s'"
  proof -
    have fun_same: "base_functor s' = base_functor s" "worker_functor s' = worker_functor s"
      by (simp_all add: base_functor_def worker_functor_def fun_eq_iff s'(2) idx)
    have "shutdown_safe (members s - {k}) (waiting B s l)" if l: "l \<in> set (workers s)" for l
    proof (cases "l = conn_loop cn")
      case True
      with wf(5) l show ?thesis unfolding queues_wf_def using last by (metis shutdown_safe_last)
    next
      case False
      have "ShutdownInLoop k \<notin> set (waiting B s l)"
      proof
        assume "ShutdownInLoop k \<in> set (waiting B s l)"
        with wf(5) l have "worker_functor s l (ShutdownInLoop k)" unfolding queues_wf_def by blast
        with k(1) False show False by (auto simp: worker_functor_def)
      qed
      with wf(5) l show ?thesis unfolding queues_wf_def by (blast intro: shutdown_safe_other)
    qed
    then have "shutdown_safe (members s') (waiting B s l)" if "l \<in> set (workers s)" for l
      using that M by (auto simp: s'(1) intro: shutdown_safe_mono)
    with wf(5) show ?thesis unfolding queues_wf_def fun_same w L by blast
  qed
  moreover have "life_wf B E (C - {k}) D s'"
    unfolding life_wf_def s'(2) idx wt w
  proof (intro allI impI)
    fix j d assume j: "conns s j = Some d"
    show "(conn_state d = kDisconnected \<or> j \<in> members s') \<and>
      (conn_state d = kDisconnected \<longrightarrow> j \<in> members s' \<longrightarrow>
        RemoveConnectionInLoop j \<in> set (waiting B s (base s')) \<or> j \<in> C - {k}) \<and>
      (held B s' j d \<or> j \<in> E \<or> j \<in> D \<and> chan_index s (conn_channel d) = Some kNew) \<and>
      (conn_state d = kConnecting \<longrightarrow> ConnectEstablished j \<in> set (waiting B s (conn_loop d)) \<or> j \<in> E) \<and>
      (is_up d \<longrightarrow> watched s d \<or> j \<in> E)"
    proof (cases "j = k")
      case True
      with j k last gone show ?thesis by (simp add: held_def w is_up_def)
    next
      case False
      then have "j \<in> members s \<Longrightarrow> j \<in> members s'" "j \<in> members s' \<Longrightarrow> j \<in> members s" "j \<noteq> k"
        using M by (auto simp: s'(1) erase_conn_def)
      with wf(6) j show ?thesis unfolding life_wf_def held_def w L by blast
    qed
  qed
  moreover have "acceptor_wf s'" by (rule acceptor_wf_cong [OF wf(8) L(4,2)]) (simp add: s'(3))
  ultimately show ?thesis using inv si by (simp add: running_inv_def s'(1))
qed

lemma base_runs:
  assumes inv: "running_inv os (B(base s := f # fs)) {} {} {} D s"
  shows "\<exists>s'. server_run os me uc f s = Inr s' \<and> running_inv os (B(base s := fs)) {} {} {} D s' \<and> same_shape l s s'"
proof -
  from running_invD(5) [OF inv] obtain k cn where f: "f = RemoveConnectionInLoop k" and
    k: "conns s k = Some cn" "conn_state cn = kDisconnected" unfolding queues_wf_def base_functor_def by (auto split: if_splits)
  let ?B = "B(base s := fs)" and ?sv = "(srv s)\<lparr>connections := erase_conn (conn_name cn) (connections (srv s))\<rparr>"
  have pop: "running_inv os ?B {} {k} {k} D s" using running_pop [OF inv] f by simp
  from running_conn_loop [OF pop k(1)] obtain lp where lp: "loops s (conn_loop cn) = Some lp" "conn_loop cn \<in> set (workers s)" by metis
  have "may_queue ?B s (conn_loop cn) (ConnectDestroyed k)"
    using lp(2) k by (auto simp: may_queue_def worker_functor_def is_established_def)
  from running_push [OF pop this, of me] obtain s1 where s1: "queueInLoop os me (conn_loop cn) (ConnectDestroyed k) s = Inr s1"
    "running_inv os ?B {} {} {k} D s1" "stays s s1" "conns s1 = conns s"
    "\<forall>j. queued_in s1 j = queued_in s j @ (if j = conn_loop cn then [ConnectDestroyed k] else [])" by auto
  have k1: "conns s1 k = Some cn" using s1(4) k(1) by simp
  have "\<exists>q. waiting ?B s1 (conn_loop cn) = q @ [ConnectDestroyed k]" using s1(5) by (simp add: waiting_def)
  then obtain q where q: "waiting ?B s1 (conn_loop cn) = q @ [ConnectDestroyed k]" by blast
  have srv1: "srv s1 = srv s" using s1(3) by (simp add: stays_def)
  have "server_run os me uc f s = Inr (put_srv ?sv s1)"
    using queueInLoop_put_srv [OF s1(1) lp(1), of ?sv] k f by (simp add: server_run_def removeConnectionInLoop_def)
  moreover have "running_inv os ?B {} {} {} D (put_srv ?sv s1)"
    using running_erase [OF s1(2) k1 k(2) q] by (simp add: srv1)
  moreover have "same_shape l s (put_srv ?sv s1)"
    using stays_shape [OF s1(3), of l] s1(3) by (simp add: same_shape_def stays_def server_loops_def sig_of_def)
  ultimately show ?thesis by blast
qed

subsection \<open>A batch of functors\<close>

lemma functor_runs:
  assumes inv: "running_inv os (B(l := f # fs)) {} {} {} D s" and l: "l \<in> set (all_loops s)" and me: "thread_of s l = me"
    and uc: "local_user uc" and D: "\<And>k. f = ConnectDestroyed k \<Longrightarrow> k \<in> D"
  shows "\<exists>s'. server_run os me uc f s = Inr s' \<and> running_inv os (B(l := fs)) {} {} {} D s' \<and> same_shape l s s'"
proof (cases "l = base s")
  case True
  with base_runs [of os B s f fs D] inv show ?thesis by blast
next
  case False
  with l have "l \<in> set (workers s)" by (simp add: server_loops_def)
  with worker_runs [OF inv _ me uc D] show ?thesis by blast
qed

lemma batch_runs:
  assumes "running_inv os (no_batch(l := fs)) {} {} {} D s" "l \<in> set (all_loops s)" "thread_of s l = me" "local_user uc"
    "\<And>k. ConnectDestroyed k \<in> set fs \<Longrightarrow> k \<in> D"
  shows "\<exists>s'. foldr_res (server_run os me uc) fs s = Inr s' \<and> running_inv os no_batch {} {} {} D s' \<and> same_shape l s s'"
  using assms(1-3,5)
proof (induction fs arbitrary: s)
  case Nil
  have "no_batch(l := []) = no_batch" by auto
  with Nil show ?case by simp
next
  case (Cons f fs)
  have D: "k \<in> D" if "f = ConnectDestroyed k" for k using Cons.prems(4) that by simp
  from functor_runs [OF Cons.prems(1-3) assms(4) D] obtain s1 where s1: "server_run os me uc f s = Inr s1"
    "running_inv os (no_batch(l := fs)) {} {} {} D s1" "same_shape l s s1" by blast
  have l1: "l \<in> set (all_loops s1)" "thread_of s1 l = me"
    using Cons.prems(2,3) same_shape_loops(3) [OF s1(3)] same_shape_thread [OF s1(3)] by simp_all
  have "k \<in> D" if "ConnectDestroyed k \<in> set fs" for k using Cons.prems(4) that by simp
  from Cons.IH [OF s1(2) l1 this] obtain s2 where "foldr_res (server_run os me uc) fs s1 = Inr s2"
    "running_inv os no_batch {} {} {} D s2" "same_shape l s1 s2" by blast
  with s1 same_shape_trans [OF s1(3)] show ?case by auto
qed

subsection \<open>Freeing connections\<close>

lemma set_owners: "set (owners fs) = {k. Some k \<in> functor_owner ` set fs}"
  by (induction fs) (auto simp: owners_def split: option.splits)

text \<open>\<open>P\<close>: what the closures of the batches hold.\<close>

lemma owned_held:
  assumes inv: "running_inv os B {} {} {} D s" and k: "conns s k = Some cn" and own: "owned k s"
  shows "held B s k cn"
proof (cases "k \<in> members s")
  case True
  then show ?thesis by (simp add: held_def)
next
  case False
  with own obtain l f where f: "l \<in> set (all_loops s)" "f \<in> set (queued_in s l)" "functor_owner f = Some k"
    unfolding owned_def by force
  note q = running_invD(5) [OF inv]
  show ?thesis
  proof (cases "l = base s")
    case True
    with q f(2) have "base_functor s f" by (auto simp: queues_wf_def waiting_def)
    with f True show ?thesis by (auto simp: base_functor_def held_def waiting_def)
  next
    case base: False
    with f(1) have "l \<in> set (workers s)" by (simp add: server_loops_def)
    with q f(2) have "worker_functor s l f" by (auto simp: queues_wf_def waiting_def)
    with f k False running_member [OF inv k] show ?thesis by (auto simp: worker_functor_def held_def waiting_def)
  qed
qed

lemma running_released:
  assumes "running_inv os B X E C D s" "\<And>cn. conns s k = Some cn \<Longrightarrow> held B s k cn"
  shows "running_inv os B X E C (D - {k}) s"
  using assms unfolding running_inv_def life_wf_def by blast

text \<open>What has no owner left is not known to its poller, and no queue names it.\<close>

lemma unowned_gone:
  assumes inv: "running_inv os B {} {} {} D s" and k: "conns s k = Some cn" and un: "\<not> owned k s" "k \<notin> P"
    and P: "\<forall>l \<in> set (all_loops s). set (owners (B l)) \<subseteq> P"
  shows "conn_state cn = kDisconnected" "chan_index s (conn_channel cn) = Some kNew" "k \<notin> members s"
    "\<And>l f. l \<in> set (all_loops s) \<Longrightarrow> f \<in> set (waiting B s l) \<Longrightarrow> functor_owner f \<noteq> Some k \<and> f \<noteq> ShutdownInLoop k"
proof -
  note wf = running_invD [OF inv]
  have loc: "conn_loop cn \<in> set (workers s)" using conns_wfD [OF wf(4) k] by metis
  show M: "k \<notin> members s" using un by (simp add: owned_def)
  have own: "functor_owner f \<noteq> Some k" if l: "l \<in> set (all_loops s)" and f: "f \<in> set (waiting B s l)" for l f
  proof (cases "f \<in> set (queued_in s l)")
    case True
    with un(1) l show ?thesis unfolding owned_def by (force simp: image_iff)
  next
    case False
    with f have "f \<in> set (B l)" by (simp add: waiting_def)
    with P l un(2) show ?thesis by (force simp: set_owners)
  qed
  have "\<not> held B s k cn"
    using M own [OF base_loop, of "RemoveConnectionInLoop k"] own [OF worker_loop [OF loc], of "ConnectDestroyed k"]
    by (auto simp: held_def)
  with wf(6) k M show "conn_state cn = kDisconnected" "chan_index s (conn_channel cn) = Some kNew"
    unfolding life_wf_def by blast+
  show "functor_owner f \<noteq> Some k \<and> f \<noteq> ShutdownInLoop k" if l: "l \<in> set (all_loops s)" and f: "f \<in> set (waiting B s l)" for l f
  proof (intro conjI own [OF l f] notI)
    assume sd: "f = ShutdownInLoop k"
    have "l \<in> set (workers s)"
    proof (rule ccontr)
      assume "l \<notin> set (workers s)"
      with l have "l = base s" by (simp add: server_loops_def)
      with wf(5) f sd show False by (auto simp: queues_wf_def base_functor_def)
    qed
    then have "shutdown_safe (members s) (waiting B s l)" using wf(5) by (auto simp: queues_wf_def)
    with f sd M have "ConnectDestroyed k \<in> set (waiting B s l)" by (blast dest: shutdown_safeD)
    with own [OF l this] show False by simp
  qed
qed

text \<open>A channel that is not registered can be freed, and its descriptor closed.\<close>

lemma reg_inv_free:
  assumes reg: "reg_inv os l s" and c: "chans s p = Some c" "ch_loop c = l \<longrightarrow> ch_index c = kNew"
    and fd: "\<And>q d. chans s q = Some d \<Longrightarrow> ch_fd d = ch_fd c \<Longrightarrow> q = p"
    and s': "chans s' = (chans s)(p := None)" "loops s' = loops s" "io_trace s' = io_trace s @ [(me, CloseFd (ch_fd c), r)]"
  shows "reg_inv os l s'"
proof -
  from reg obtain lp pl where lp: "loops s l = Some lp" "loop_poller lp = Some pl" "poller_inv {} pl l s"
    unfolding reg_inv_def reg_inv_except_def by blast
  have kv: "kernel_view pl s' = (kernel_view pl s)(ch_fd c := None)" by (simp add: kernel_view_def s'(3))
  have old: "\<exists>d. chans s q = Some d \<and> ch_loop d = l \<and> ch_fd d = fd"
    if "kernel_view pl s fd = Some (ev, q) \<or> channels pl fd = Some q" for fd ev q
    using lp(3) that unfolding poller_inv_def by blast
  have unreg: "kernel_view pl s (ch_fd c) = None \<and> channels pl (ch_fd c) = None"
  proof (cases "ch_loop c = l")
    case True
    with c poller_invD(1) [OF lp(3) c(1) True] show ?thesis by (auto simp: chan_reg_def index_states)
  next
    case False
    have "\<not> (kernel_view pl s (ch_fd c) = Some (ev, q) \<or> channels pl (ch_fd c) = Some q)" for ev q
    proof
      assume "kernel_view pl s (ch_fd c) = Some (ev, q) \<or> channels pl (ch_fd c) = Some q"
      from old [OF this] fd c(1) False show False by auto
    qed
    then show ?thesis by (cases "kernel_view pl s (ch_fd c)"; cases "channels pl (ch_fd c)") auto
  qed
  then have same: "kernel_view pl s' = kernel_view pl s" by (simp add: kv fun_eq_iff)
  have "distinct_fds l s'" using lp(3) unfolding poller_inv_def distinct_fds_def s'(1) by (auto split: if_splits)
  moreover have "chan_reg pl (kernel_view pl s') q d" if "chans s' q = Some d" "ch_loop d = l" for q d
    using poller_invD(1) [OF lp(3)] that by (auto simp: same s'(1) split: if_splits)
  moreover have "\<exists>d. chans s' q = Some d \<and> ch_loop d = l \<and> ch_fd d = fd"
    if a: "kernel_view pl s' fd = Some (ev, q) \<or> channels pl fd = Some q" for fd ev q
  proof -
    from old [OF a [unfolded same]] obtain d where d: "chans s q = Some d" "ch_loop d = l" "ch_fd d = fd" by blast
    have "q \<noteq> p"
    proof
      assume "q = p"
      with d c(1) have "fd = ch_fd c" by simp
      with a unreg show False by (auto simp: same)
    qed
    with d show ?thesis by (simp add: s'(1))
  qed
  ultimately have "poller_inv {} pl l s'" unfolding poller_inv_def by (simp, blast)
  with reg lp s'(2) show ?thesis by (auto simp: reg_inv_def reg_inv_except_def)
qed

lemma release_runs:
  assumes inv: "running_inv os B {} {} {} D s"
    and P: "\<forall>l \<in> set (all_loops s). set (owners (B l)) \<subseteq> P"
  shows "\<exists>s'. release os me P k s = Inr s' \<and> running_inv os B {} {} {} (D - ({k} - P)) s' \<and> (\<forall>l. same_shape l s s')"
proof (cases "conns s k = None \<or> owned k s \<or> k \<in> P")
  case True
  have "running_inv os B {} {} {} (D - ({k} - P)) s"
  proof (cases "k \<in> P")
    case False
    with True have "running_inv os B {} {} {} (D - {k}) s"
      by (intro running_released [OF inv] owned_held [OF inv]) auto
    moreover have "{k} - P = {k}" using False by auto
    ultimately show ?thesis by simp
  qed (use inv in simp)
  with True show ?thesis by (auto simp: release_def)
next
  case False
  then obtain cn where k: "conns s k = Some cn" and un: "\<not> owned k s" "k \<notin> P" by auto
  note gone = unowned_gone [OF inv k un P]
  note wf = running_invD [OF inv]
  let ?p = "conn_channel cn"
  from conns_wfD [OF wf(4) k] obtain c where c: "chans s ?p = Some c" "ch_loop c = conn_loop cn" "ch_fd c = conn_fd cn"
    "callbacks_of c = conn_callbacks k" by metis
  have new: "ch_index c = kNew" using gone(2) c(1) by (simp add: chan_index_def)
  define s' where "s' = (snd (do_call os me (CloseFd (conn_fd cn)) (s\<lparr>chans := (chans s)(?p := None)\<rparr>)))\<lparr>conns := (conns s)(k := None)\<rparr>"
  have rel: "release os me P k s = Inr s'"
    using False k by (simp add: release_def closeTcpConnection_def Let_def s'_def do_call_def)
  have s': "srv s' = srv s" "conns s' = (conns s)(k := None)" "chans s' = (chans s)(?p := None)" "loops s' = loops s"
    "io_trace s' = io_trace s @ [(me, CloseFd (ch_fd c), os (io_trace s) (CloseFd (ch_fd c)))]"
    "next_conn s' = next_conn s" "next_chan s' = next_chan s"
    by (simp_all add: s'_def do_call_def Let_def c(3))
  have fdp: "q = ?p" if "chans s q = Some d" "ch_fd d = ch_fd c" for q d
    using wf(3) c(1) that unfolding chans_wf_def by metis
  have ji: "j = k" if "conns s j = Some d" "conn_channel d = ?p" for j d
    by (rule conn_channel_inj [OF wf(4) that(1) k that(2)])
  have si: "server_inv s'" using advancesD [OF release_keeps rel] wf(1) by (simp add: keeps_server_def)
  have w: "waiting B s' j = waiting B s j" for B j by (simp add: waiting_def queued_in_def s'(4))
  have idx: "chan_index s' (conn_channel d) = chan_index s (conn_channel d)" if "conns s j = Some d" "j \<noteq> k" for j d
    using ji that by (auto simp: chan_index_def s'(3))
  have L: "all_loops s' = all_loops s" "base s' = base s" "members s' = members s" "workers s' = workers s" by (simp_all add: s'(1))
  note nq = gone(4)
  have "loops_wf os s'"
  proof (rule loops_wf_cong [OF wf(2) L(1)])
    show "reg_inv os l s'" if "l \<in> set (all_loops s)" for l
      by (rule reg_inv_free [OF _ c(1) _ _ s'(3,4,5)]) (use wf(2) that new fdp in \<open>simp_all add: loops_wf_def\<close>)
    show "\<exists>c'. chans s' q = Some c' \<and> chan_static c' = chan_static d" if "chans s q = Some d" "is_wakeup d" for q d
      using that c(1,4) by (auto simp: s'(3) is_wakeup_def conn_callbacks_def)
  qed (simp add: sig_of_def s'(4))
  moreover have "chans_wf s'"
  proof (rule chans_wf_cong [OF wf(3)])
    show "\<exists>d. chans s q = Some d \<and> chan_static c' = chan_static d \<and> \<not> isWriting c' \<and> ch_fd d \<in> open_fds (io_trace s')"
      if "chans s' q = Some c'" for q c'
      using that wf(3) fdp [of q c'] unfolding chans_wf_def s'(3,5) by (auto split: if_splits)
    show "\<exists>cn'. conns s' j = Some cn' \<and> conn_channel cn' = conn_channel d"
      if "conns s j = Some d" "chans s' (conn_channel d) \<noteq> None" for j d
      using that k by (auto simp: s'(2,3))
  qed (simp_all add: s'(1,7))
  moreover have "conns_wf {} s'"
  proof (rule conns_wf_cong [OF wf(4)])
    fix j d assume "conns s' j = Some d"
    then have j: "conns s j = Some d" "j \<noteq> k" by (auto simp: s'(2) split: if_splits)
    with ji have "conn_channel d \<noteq> ?p" by blast
    with j conns_wfD [OF wf(4) j(1)] show "\<exists>cn. conns s j = Some cn \<and> conn_ident d = conn_ident cn \<and> conn_static d \<and>
        input_sized d \<and> (j \<notin> {} \<longrightarrow> input_empty d) \<and>
        (\<forall>c. chans s (conn_channel cn) = Some c \<longrightarrow> callbacks_of c = conn_callbacks j \<longrightarrow>
          (\<exists>c'. chans s' (conn_channel cn) = Some c' \<and> chan_static c' = chan_static c))"
      by (auto simp: s'(3))
  qed (simp_all add: s'(1))
  moreover have "queues_wf B s'"
  proof -
    have "worker_functor s' l f" if l: "l \<in> set (workers s)" "f \<in> set (waiting B s l)" for l f
    proof -
      from wf(5) l obtain j d where j: "conns s j = Some d" "conn_loop d = l"
        "f = ConnectEstablished j \<and> conn_state d = kConnecting \<and> chan_index s (conn_channel d) = Some kNew \<or>
         f = ConnectDestroyed j \<and> conn_state d = kDisconnected \<or> f = ShutdownInLoop j"
        unfolding queues_wf_def worker_functor_def by blast
      have "j \<noteq> k" using nq [OF worker_loop [OF l(1)] l(2)] j(3) by auto
      with j idx [OF j(1)] show ?thesis unfolding worker_functor_def by (auto simp: s'(2))
    qed
    moreover have "base_functor s' f" if f: "f \<in> set (waiting B s (base s))" for f
      using wf(5) f nq [OF base_loop f] unfolding queues_wf_def base_functor_def by (fastforce simp: s'(2))
    ultimately show ?thesis using wf(5) unfolding queues_wf_def w L by blast
  qed
  moreover have "life_wf B {} {} D s'"
  proof (rule life_wf_cong [OF wf(6) L(2,3) w])
    show "conn_loop d \<in> set (workers s)" if "conns s j = Some d" for j d using conns_wfD [OF wf(4) that] by metis
    fix j d assume "conns s' j = Some d"
    then have j: "conns s j = Some d" "j \<noteq> k" by (auto simp: s'(2) split: if_splits)
    with idx show "\<exists>cn. conns s j = Some cn \<and> conn_loop d = conn_loop cn \<and>
        (conn_state cn = kDisconnected \<longrightarrow> conn_state d = kDisconnected) \<and>
        (conn_state d = kDisconnected \<longrightarrow> conn_state cn = kDisconnected \<or> j \<in> {}) \<and>
        (chan_index s (conn_channel cn) = Some kNew \<longrightarrow>
          held B s j cn \<or> j \<in> {} \<or> chan_index s' (conn_channel d) = Some kNew) \<and>
        (conn_state d = kConnecting \<longrightarrow> conn_state cn = kConnecting) \<and>
        (is_up d \<longrightarrow> j \<in> {} \<or> is_up cn \<and> (watched s cn \<longrightarrow> watched s' d))"
      using ji by (auto simp: watched_def s'(3))
  qed
  moreover have "acceptor_wf s'"
    by (rule acceptor_wf_cong [OF wf(8) _ L(2)]) (use c(1,4) in \<open>auto simp: s'(1,3) conn_callbacks_def\<close>)
  ultimately have "running_inv os B {} {} {} D s'" using inv si by (simp add: running_inv_def s'(1))
  then have "running_inv os B {} {} {} (D - {k}) s'" by (rule running_released) (simp add: s'(2))
  then have "running_inv os B {} {} {} (D - ({k} - P)) s'" using un(2) by (simp add: insert_Diff_if)
  moreover have "same_shape l s s'" for l using c(1) new by (auto simp: same_shape_def s'(1,3,4) sig_of_def)
  ultimately show ?thesis using rel by blast
qed

lemma drop_refs_runs:
  assumes "running_inv os B {} {} {} (set (owners fs)) s" "\<forall>j \<in> set (all_loops s). owners (B j) = []"
  shows "\<exists>s'. drop_refs os me fs s = Inr s' \<and> running_inv os B {} {} {} {} s' \<and> same_shape l s s'"
proof -
  have "\<exists>s'. drop_list os me ks s = Inr s' \<and> running_inv os B {} {} {} {} s' \<and> same_shape l s s'"
    if "running_inv os B {} {} {} (set ks) s" "\<forall>j \<in> set (all_loops s). owners (B j) = []" for ks s
    using that
  proof (induction ks arbitrary: s)
    case Nil
    then show ?case by simp
  next
    case (Cons k ks)
    have "\<forall>l \<in> set (all_loops s). set (owners (B l)) \<subseteq> set ks" using Cons.prems(2) by simp
    from release_runs [OF Cons.prems(1) this, where k = k and me = me] obtain t where t: "release os me (set ks) k s = Inr t"
      "running_inv os B {} {} {} (set (k # ks) - ({k} - set ks)) t" "same_shape l s t" by auto
    have "set (k # ks) - ({k} - set ks) = set ks" by auto
    with t(2) have "running_inv os B {} {} {} (set ks) t" by simp
    moreover have "\<forall>j \<in> set (all_loops t). owners (B j) = []" using Cons.prems(2) same_shape_loops(3) [OF t(3)] by simp
    ultimately obtain u where "drop_list os me ks t = Inr u" "running_inv os B {} {} {} {} u"
      "same_shape l t u" using Cons.IH by blast
    with t same_shape_trans [OF t(3)] show ?case by auto
  qed
  from this [OF assms] show ?thesis by (simp add: drop_refs_def)
qed

subsection \<open>The functor phase and the poll of a turn\<close>

lemma running_loop_update:
  assumes inv: "running_inv os B X E C D s" and lp: "loops s l = Some lp" and u: "loop_update lp lp'"
    and q: "B' l @ pendingFunctors lp' = B l @ pendingFunctors lp" "\<And>k. k \<noteq> l \<Longrightarrow> B' k = B k"
  shows "running_inv os B' X E C D (put_loop l lp' s)" "stays s (put_loop l lp' s)"
proof -
  let ?s = "put_loop l lp' s"
  have ids: "srv ?s = srv s" "next_conn ?s = next_conn s" "next_chan ?s = next_chan s" by (simp_all add: put_loop_def)
  have w: "waiting B' ?s k = waiting B s k" for k using lp q by (auto simp: waiting_def queued_in_def)
  have "rel_option loop_update (loops s k) (loops ?s k)" for k using lp u by (auto intro!: rel_option_reflI)
  then have "running_inv os B' X E C D ?s \<and> stays s ?s"
    by (intro conjI running_alike [OF inv ids _ _ _ _ _ w] running_alike(2) [OF inv ids _ _ _ _ _ w])
      (simp_all add: rel_option_reflI)
  then show "running_inv os B' X E C D ?s" "stays s ?s" by blast+
qed

lemma functors_run:
  assumes inv: "running_inv os no_batch {} {} {} {} s" and l: "l \<in> set (all_loops s)" and me: "thread_of s l = me"
    and uc: "local_user uc"
  shows "\<exists>s'. doPendingFunctors (server_run os me uc) (drop_refs os me) l s = Inr s' \<and>
    running_inv os no_batch {} {} {} {} s' \<and> same_shape l s s'"
proof -
  from running_loop [OF inv l] obtain lp where lp: "loops s l = Some lp" by metis
  let ?lp1 = "lp\<lparr>callingPendingFunctors := True\<rparr>" and ?fs = "pendingFunctors lp"
  let ?lp2 = "lp\<lparr>callingPendingFunctors := True, pendingFunctors := []\<rparr>"
  define s2 where "s2 = put_loop l ?lp2 s"
  have twice: "put_loop l a (put_loop l b t) = put_loop l a t" for a b and t :: "'a server_net_scheme"
    by (simp add: put_loop_def)
  have start: "set_calling True l s = Inr (put_loop l ?lp1 s)" "swap_pending l (put_loop l ?lp1 s) = Inr (?fs, s2)"
    using lp by (simp_all add: set_calling_def swap_pending_def twice s2_def)
  let ?D = "set (owners ?fs)"
  have i2: "running_inv os (no_batch(l := ?fs)) {} {} {} {} s2" "stays s s2"
    unfolding s2_def by (rule running_loop_update [OF inv lp, where B' = "no_batch(l := ?fs)"]; simp add: loop_update_def loop_sig_def)+
  have "l \<in> set (all_loops s2)" "thread_of s2 l = me"
    using l me same_shape_loops(3) [OF stays_shape [OF i2(2)]] stays_thread [OF i2(2)] by simp_all
  moreover have "k \<in> ?D" if "ConnectDestroyed k \<in> set ?fs" for k using that by (force simp: set_owners)
  ultimately obtain s3 where s3: "foldr_res (server_run os me uc) ?fs s2 = Inr s3"
    "running_inv os no_batch {} {} {} ?D s3" "same_shape l s2 s3"
    using batch_runs [OF running_mono [OF i2(1) order_refl empty_subsetI] _ _ uc] by blast
  have "l \<in> set (all_loops s3)" using \<open>l \<in> set (all_loops s2)\<close> same_shape_loops(3) [OF s3(3)] by simp
  from running_loop [OF s3(2) this] obtain lp3 where lp3: "loops s3 l = Some lp3" by metis
  define s4 where "s4 = put_loop l (lp3\<lparr>callingPendingFunctors := False\<rparr>) s3"
  have i4: "running_inv os no_batch {} {} {} ?D s4" "stays s3 s4"
    unfolding s4_def by (rule running_loop_update [OF s3(2) lp3, where B' = no_batch]; simp add: loop_update_def loop_sig_def)+
  have "\<forall>j \<in> set (all_loops s4). owners (no_batch j) = []" by (simp add: owners_def)
  from drop_refs_runs [OF i4(1) this, of me l] obtain s5 where s5: "drop_refs os me ?fs s4 = Inr s5"
    "running_inv os no_batch {} {} {} {} s5" "same_shape l s4 s5" by blast
  have "doPendingFunctors (server_run os me uc) (drop_refs os me) l s = Inr s5"
    using start s3(1) s5(1) lp3 by (simp add: doPendingFunctors_def set_calling_def s4_def)
  moreover have "same_shape l s s5"
    by (rule same_shape_trans [OF stays_shape [OF i2(2)] same_shape_trans [OF s3(3) same_shape_trans [OF stays_shape [OF i4(2)] s5(3)]]])
  ultimately show ?thesis using s5(2) by blast
qed

lemma poll_phase_loops:
  assumes "poll_phase os me l s = Inr (active, now, s')"
  shows "\<exists>lp lp'. loops s l = Some lp \<and> loops s' = (loops s)(l := Some lp') \<and> loop_update lp lp' \<and>
    pendingFunctors lp' = pendingFunctors lp"
proof -
  from assms obtain lp pl pl1 s2 where lp: "loops s l = Some lp" "loop_poller lp = Some pl"
      "poller_poll os me pl kPollTimeMS (put_loop l (lp\<lparr>activeChannels := []\<rparr>) s) = Inr (pl1, active, now, s2)"
      "upd_loop l (\<lambda>lp. lp\<lparr>loop_poller := Some pl1, activeChannels := active, pollReturnTime := now\<rparr>) s2 = Inr s'"
    by (auto simp: poll_phase_def rbind_eq_Inr upd_loop_eq_Inr get_poller_eq_Inr)
  from lp(3) have "epollfd pl1 = epollfd pl" "channels pl1 = channels pl"
    by (auto simp: poller_poll_def rbind_eq_Inr Let_def split_beta split: if_splits)
  moreover have "loops s2 = (loops s)(l := Some (lp\<lparr>activeChannels := []\<rparr>))"
    using poller_poll_frame [OF lp(3)] by (simp add: same_above_def)
  ultimately show ?thesis using lp(1,2,4) by (auto simp: upd_loop_eq_Inr loop_update_def loop_sig_def)
qed

lemma poll_runs:
  assumes inv: "running_inv os B {} {} {} D s" and l: "l \<in> set (all_loops s)" and doc: "epoll_wait_documented os"
  shows "\<exists>active now s'. poll_phase os me l s = Inr (active, now, s') \<and> running_inv os B {} {} {} D s' \<and> stays s s' \<and>
    distinct active \<and> (\<forall>p \<in> set active. \<exists>c. chans s' p = Some c \<and> ch_loop c = l \<and> ch_index c \<noteq> kNew)"
proof -
  have "reg_inv os l s" using running_invD(2) [OF inv] l by (simp add: loops_wf_def)
  from poll_phase_ok [OF this doc, of me] obtain active now s' where
    s': "poll_phase os me l s = Inr (active, now, s')" "distinct active"
      "\<forall>p \<in> set active. \<exists>c r. chans s' p = Some c \<and> ch_loop c = l \<and> ch_index c = kAdded \<and>
         allowed_events c \<and> chans s p = Some (c\<lparr>ch_revents := r\<rparr>)"
      "\<forall>p. p \<notin> set active \<longrightarrow> chans s' p = chans s p" by blast
  note nf = poll_phase_net [OF s'(1)]
  have ids: "srv s' = srv s" "next_conn s' = next_conn s" "next_chan s' = next_chan s" "conns s' = conns s"
    by (rule net_frame_srv [OF nf refl], rule net_frame_ids [OF nf], rule net_frame_chan_id [OF nf], rule net_frame_conns [OF nf])
  from poll_phase_trace [OF s'(1)] have tr: "interest_of ep (io_trace s') = interest_of ep (io_trace s)"
    "open_fds (io_trace s') = open_fds (io_trace s)" for ep by auto
  from poll_phase_loops [OF s'(1)] obtain lp lp' where lp: "loops s l = Some lp" "loops s' = (loops s)(l := Some lp')"
    "loop_update lp lp'" "pendingFunctors lp' = pendingFunctors lp" by blast
  have ch: "rel_option chan_alike (chans s p) (chans s' p)" for p
  proof (cases "p \<in> set active")
    case True
    with s'(3) obtain c r where "chans s' p = Some c" "chans s p = Some (c\<lparr>ch_revents := r\<rparr>)" by blast
    then show ?thesis by (simp add: chan_alike_def chan_static_def callbacks_of_def chan_sig_def)
  next
    case False
    with s'(4) show ?thesis by (simp add: rel_option_reflI)
  qed
  have "rel_option loop_update (loops s k) (loops s' k)" for k using lp by (auto intro!: rel_option_reflI)
  moreover have "waiting B s' k = waiting B s k" for k
    using lp by (simp add: waiting_def queued_in_def)
  moreover have "open_fds (io_trace s) \<subseteq> open_fds (io_trace s')" by (simp add: tr)
  ultimately have "running_inv os B {} {} {} D s'" "stays s s'" using running_alike [OF inv ids ch] tr(1) by blast+
  then show ?thesis using s'(1-3) by (fastforce simp: index_states)
qed

subsection \<open>New connections\<close>

lemma given_name_not_next:
  assumes names: "names_ok sv" and cn: "has_name sv cn" shows "conn_name cn \<noteq> next_name sv"
proof
  assume eq: "conn_name cn = next_name sv"
  from names obtain a where a: "ipPort sv = toIpPort a" "1 \<le> nextConnId sv" "nextConnId sv \<le> INT_MAX"
    by (auto simp: names_ok_def)
  from cn obtain i where i: "1 \<le> i" "i < nextConnId sv" "conn_name cn = srv_name sv @ conn_suffix (ipPort sv) i"
    by (auto simp: has_name_def)
  from i(3) eq have "conn_suffix (toIpPort a) i = conn_suffix (toIpPort a) (nextConnId sv)"
    by (simp add: next_name_def a(1))
  then have "show_int i = show_int (nextConnId sv)" using i a(2,3) by (simp add: conn_suffix_full)
  with i(2) show False by simp
qed

text \<open>The state in which \<open>newConnection\<close> queues \<open>connectEstablished\<close>.\<close>

definition made_connection :: "loop_id \<Rightarrow> int \<Rightarrow> thread_pool \<Rightarrow> inet_address \<Rightarrow> inet_address \<Rightarrow>
    'a server_net_scheme \<Rightarrow> 'a server_net_scheme \<Rightarrow> bool" where
  "made_connection l fd pool loc peer s s3 \<longleftrightarrow>
    conns s3 = (conns s)(next_conn s := Some (new_tcpconn (srv s) l fd (next_chan s) loc peer)) \<and>
    chans s3 = (chans s)(next_chan s := Some (new_chan l fd (next_conn s))) \<and> loops s3 = loops s \<and>
    srv s3 = (srv s)\<lparr>srv_pool := pool, nextConnId := nextConnId (srv s) + 1,
      connections := (next_name (srv s), next_conn s) # erase_conn (next_name (srv s)) (connections (srv s))\<rparr> \<and>
    next_conn s3 = Suc (next_conn s) \<and> next_chan s3 = Suc (next_chan s) \<and>
    (\<forall>ep. interest_of ep (io_trace s3) = interest_of ep (io_trace s)) \<and>
    open_fds (io_trace s3) = open_fds (io_trace s) \<and> (\<exists>tr. io_trace s3 = io_trace s @ tr)"

lemma made_connectionD:
  assumes "made_connection l fd pool loc peer s s3"
  shows "conns s3 = (conns s)(next_conn s := Some (new_tcpconn (srv s) l fd (next_chan s) loc peer))"
    "chans s3 = (chans s)(next_chan s := Some (new_chan l fd (next_conn s)))" "loops s3 = loops s"
    "srv s3 = (srv s)\<lparr>srv_pool := pool, nextConnId := nextConnId (srv s) + 1,
      connections := (next_name (srv s), next_conn s) # erase_conn (next_name (srv s)) (connections (srv s))\<rparr>"
    "next_conn s3 = Suc (next_conn s)" "next_chan s3 = Suc (next_chan s)"
    "interest_of ep (io_trace s3) = interest_of ep (io_trace s)" "open_fds (io_trace s3) = open_fds (io_trace s)"
    "\<exists>tr. io_trace s3 = io_trace s @ tr"
  using assms unfolding made_connection_def by blast+

lemma new_tcpconn_fields [simp]:
  "conn_loop (new_tcpconn sv l fd p loc peer) = l" "conn_name (new_tcpconn sv l fd p loc peer) = next_name sv"
  "conn_state (new_tcpconn sv l fd p loc peer) = kConnecting" "conn_fd (new_tcpconn sv l fd p loc peer) = fd"
  "conn_channel (new_tcpconn sv l fd p loc peer) = p"
  "input_sized (new_tcpconn sv l fd p loc peer)" "input_empty (new_tcpconn sv l fd p loc peer)"
  "conn_static (new_tcpconn sv l fd p loc peer) \<longleftrightarrow> srvConnectionCb sv \<and> srvMessageCb sv \<and> \<not> srvWriteCb sv"
  by (simp_all add: new_tcpconn_def bufs_wf_def input_sized_def input_empty_def conn_static_def mkBuffer_def
      kInitialSize_def kCheapPrepend_def)

lemma new_tcpconn_bufs [simp]: "bufs_wf (new_tcpconn sv l fd p loc peer)"
  by (simp add: new_tcpconn_def bufs_wf_def)

lemma new_chan_fields [simp]:
  "ch_loop (new_chan l fd c) = l" "ch_fd (new_chan l fd c) = fd" "ch_index (new_chan l fd c) = kNew"
  "callbacks_of (new_chan l fd c) = conn_callbacks c" "\<not> isWriting (new_chan l fd c)"
  by (simp_all add: new_chan_def mkChannel_def index_states callbacks_of_def conn_callbacks_def isWriting_def)

lemma running_made:
  assumes inv: "running_inv os B X E C D s" and nxt: "getNextLoop (srv_pool (srv s)) = Inr (l, pool)"
    and id: "nextConnId (srv s) < INT_MAX" and fd: "fd \<in> open_fds (io_trace s)" "\<And>q d. chans s q = Some d \<Longrightarrow> ch_fd d \<noteq> fd"
    and m: "made_connection l fd pool loc peer s s3"
  shows "running_inv os B X (insert (next_conn s) E) C D s3" "may_queue B s3 l (ConnectEstablished (next_conn s))"
proof -
  note wf = running_invD [OF inv] and m = made_connectionD [OF m]
  let ?c = "next_conn s" and ?p = "next_chan s" and ?sv = "srv s"
  let ?cn = "new_tcpconn ?sv l fd ?p loc peer" and ?ch = "new_chan l fd ?c"
  have names: "names_ok ?sv" using wf(1) by (simp add: server_inv_def)
  from pool.pick_next [OF wf(7)] pool.pos_bound [OF wf(7)] nxt
  have pool: "pool_ok pool" "pool_loops pool = workers s" "l \<in> set (workers s)" by auto
  have L: "all_loops s3 = all_loops s" "workers s3 = workers s" "base s3 = base s" "srv_acceptor (srv s3) = srv_acceptor ?sv"
    "members s3 = insert ?c (members s)" "srv_name (srv s3) = srv_name ?sv" "ipPort (srv s3) = ipPort ?sv"
    "nextConnId (srv s3) = nextConnId ?sv + 1"
    by (simp_all add: m(4) server_loops_def pool(2) erase_other [OF next_name_new [OF names]])
  have live: "j < ?c" if "conns s j = Some d" for j d using wf(1) that unfolding server_inv_def by blast
  have no_c: "conns s ?c = None" using live by fastforce
  have below: "q < ?p" if "chans s q = Some d" for q d using wf(3) that unfolding chans_wf_def by blast
  have no_p: "chans s ?p = None" using below by fastforce
  have w: "waiting B s3 j = waiting B s j" for j by (simp add: waiting_def queued_in_def m(3))
  have sig: "sig_of s3 j = sig_of s j" for j by (simp add: sig_of_def m(3))
  have chan: "chans s3 q = Some d" if "chans s q = Some d" for q d using that no_p m(2) by auto
  have conn: "conns s3 j = Some d" if "conns s j = Some d" for j d using that no_c m(1) by auto
  have idx: "chan_index s3 q = chan_index s q" if "chans s q \<noteq> None" for q
    using that no_p by (auto simp: chan_index_def m(2))
  have cidx: "chan_index s3 (conn_channel d) = chan_index s (conn_channel d)" if "conns s j = Some d" for j d
  proof -
    from conns_wfD [OF wf(4) that] have "chans s (conn_channel d) \<noteq> None" by (metis option.discI)
    then show ?thesis by (rule idx)
  qed
  have reg: "reg_inv os j s3" if j: "j \<in> set (all_loops s)" for j
  proof (cases "j = l")
    case True
    from wf(2) j have r: "reg_inv os l s" unfolding loops_wf_def True by blast
    from wf(2) j obtain lp where lp: "loops s l = Some lp" "\<exists>d. chans s (wakeupChannel lp) = Some d \<and> ch_fd d = wakeFd lp"
      unfolding loops_wf_def True by blast
    then have "unknown_fd l fd s" using fd(2) by (auto simp: unknown_fd_def)
    from reg_inv_new_chan [OF r this no_p _ _ _ m(2,3,7)] show ?thesis by (simp add: True)
  next
    case False
    from wf(2) j have r: "reg_inv os j s" unfolding loops_wf_def by blast
    then obtain kp pl where kp: "loops s j = Some kp" "loop_poller kp = Some pl"
      unfolding reg_inv_def reg_inv_except_def by blast
    have "same_chans j s s3" using False no_p by (auto simp: same_chans_def m(2))
    from reg_inv_cong [OF r kp _ kp(2) refl refl m(7) this] kp(1) show ?thesis by (simp add: m(3))
  qed
  have "loops_wf os s3" by (rule loops_wf_cong [OF wf(2) L(1) reg sig]) (auto dest: chan)
  moreover have "chans_wf s3"
  proof -
    have "q < next_chan s3 \<and> ch_fd d \<in> open_fds (io_trace s3) \<and> \<not> isWriting d \<and> ch_loop d \<in> set (all_loops s3) \<and>
        chan_kind s3 q d" if q: "chans s3 q = Some d" for q d
    proof (cases "q = ?p")
      case True
      with q have "d = ?ch" by (simp add: m(2))
      then show ?thesis using fd(1) worker_loop [OF pool(3)] True
        by (auto simp: m(6,8) L chan_kind_def m(1))
    next
      case False
      with q have d: "chans s q = Some d" by (simp add: m(2))
      with wf(3) have o: "q < ?p \<and> ch_fd d \<in> open_fds (io_trace s) \<and> \<not> isWriting d \<and> ch_loop d \<in> set (all_loops s)"
        "chan_kind s q d" unfolding chans_wf_def by blast+
      have "chan_kind s3 q d" using o(2) conn unfolding chan_kind_def L by blast
      with o(1) show ?thesis by (simp add: m(6,8) L(1))
    qed
    moreover have "q = r" if "chans s3 q = Some d" "chans s3 r = Some e" "ch_fd d = ch_fd e" for q r d e
      using that wf(3) fd(2) [of q d] fd(2) [of r e] unfolding chans_wf_def m(2)
      by (cases "q = ?p"; cases "r = ?p") auto
    ultimately show ?thesis unfolding chans_wf_def by blast
  qed
  moreover have "conns_wf X s3"
  proof -
    have name: "has_name (srv s3) d" if "has_name ?sv d" for d
      using that unfolding has_name_def L by force
    have new: "has_name (srv s3) ?cn" unfolding has_name_def L
      using names by (intro exI [of _ "nextConnId ?sv"]) (simp add: names_ok_def next_name_def)
    have static: "conn_static ?cn" using inv by (simp add: running_inv_def)
    have "conn_loop d \<in> set (workers s3) \<and> conn_static d \<and> input_sized d \<and> (j \<notin> X \<longrightarrow> input_empty d) \<and> has_name (srv s3) d \<and>
        (\<exists>e. chans s3 (conn_channel d) = Some e \<and> ch_loop e = conn_loop d \<and> ch_fd e = conn_fd d \<and>
          callbacks_of e = conn_callbacks j)" if j: "conns s3 j = Some d" for j d
    proof (cases "j = ?c")
      case True
      with j have "d = ?cn" by (simp add: m(1))
      then show ?thesis using pool(3) new static True by (simp add: L(2) m(2))
    next
      case False
      with j have "conns s j = Some d" by (simp add: m(1))
      from conns_wfD [OF wf(4) this] name chan show ?thesis unfolding L(2) by metis
    qed
    moreover have other: "conn_name d \<noteq> next_name ?sv" if "conns s j = Some d" for j d
      using given_name_not_next [OF names] conns_wfD [OF wf(4) that] by metis
    have "j = k" if "conns s3 j = Some d" "conns s3 k = Some e" "conn_name d = conn_name e" for j k d e
      using that other wf(4) unfolding conns_wf_def m(1) by (auto split: if_splits) metis+
    ultimately show ?thesis unfolding conns_wf_def by blast
  qed
  moreover have "queues_wf B s3"
  proof -
    have "worker_functor s3 j f" if "worker_functor s j f" for j f
      using that conn cidx unfolding worker_functor_def by metis
    moreover have "base_functor s3 f" if "base_functor s f" for f using that conn unfolding base_functor_def by blast
    ultimately show ?thesis using wf(5) unfolding queues_wf_def w L by (blast intro: shutdown_safe_mono)
  qed
  moreover have "life_wf B (insert ?c E) C D s3"
    unfolding life_wf_def
  proof (intro allI impI)
    fix j d assume j: "conns s3 j = Some d"
    show "(conn_state d = kDisconnected \<or> j \<in> members s3) \<and>
      (conn_state d = kDisconnected \<longrightarrow> j \<in> members s3 \<longrightarrow>
        RemoveConnectionInLoop j \<in> set (waiting B s3 (base s3)) \<or> j \<in> C) \<and>
      (held B s3 j d \<or> j \<in> insert ?c E \<or> j \<in> D \<and> chan_index s3 (conn_channel d) = Some kNew) \<and>
      (conn_state d = kConnecting \<longrightarrow> ConnectEstablished j \<in> set (waiting B s3 (conn_loop d)) \<or> j \<in> insert ?c E) \<and>
      (is_up d \<longrightarrow> watched s3 d \<or> j \<in> insert ?c E)"
    proof (cases "j = ?c")
      case True
      with j show ?thesis by (auto simp: L(5) held_def m(1))
    next
      case False
      with j have o: "conns s j = Some d" by (simp add: m(1))
      have "held B s3 j d" if "held B s j d" using that by (auto simp: held_def L w)
      moreover have "watched s3 d" if "watched s d" using that chan unfolding watched_def by blast
      ultimately show ?thesis using wf(6) o False unfolding life_wf_def L(3,5) cidx [OF o] w by blast
    qed
  qed
  moreover have "server_inv s3"
    by (rule server_inv_new [OF wf(1) less_imp_neq [OF id] m(1) _ _ m(4,5)]) simp_all
  moreover have "acceptor_wf s3" by (rule acceptor_wf_cong [OF wf(8) L(4,3)]) (auto dest: chan)
  ultimately show "running_inv os B X (insert ?c E) C D s3" using inv by (simp add: running_inv_def m(4) pool(1))
  have "ConnectEstablished ?c \<notin> set (waiting B s l)"
  proof
    assume "ConnectEstablished ?c \<in> set (waiting B s l)"
    with wf(5) pool(3) have "worker_functor s l (ConnectEstablished ?c)" unfolding queues_wf_def by blast
    with no_c show False by (auto simp: worker_functor_def)
  qed
  then show "may_queue B s3 l (ConnectEstablished ?c)"
    using pool(3) by (simp add: may_queue_def L(2,3) w worker_functor_def m(1,2) chan_index_def)
qed

text \<open>What a callback of a channel keeps; \<open>n\<close> bounds the number of connections it makes.\<close>

definition grows :: "int \<Rightarrow> 'a server_net_scheme \<Rightarrow> 'a server_net_scheme \<Rightarrow> bool" where
  "grows n s s' \<longleftrightarrow> all_loops s' = all_loops s \<and> srv_acceptor (srv s') = srv_acceptor (srv s) \<and>
     (\<forall>l. sig_of s' l = sig_of s l) \<and> nextConnId (srv s') \<le> nextConnId (srv s) + n \<and>
     (\<forall>p c. chans s p = Some c \<longrightarrow> (\<exists>c'. chans s' p = Some c' \<and> chan_static c' = chan_static c \<and>
        (ch_index c \<noteq> kNew \<longrightarrow> ch_index c' \<noteq> kNew)))"

lemma stays_grows: "stays s s' \<Longrightarrow> 0 \<le> n \<Longrightarrow> grows n s s'"
  by (simp add: stays_def grows_def)

lemma grows_trans:
  assumes "grows m s t" "grows n t u" shows "grows (m + n) s u"
proof -
  have "\<exists>e. chans u p = Some e \<and> chan_static e = chan_static c \<and> (ch_index c \<noteq> kNew \<longrightarrow> ch_index e \<noteq> kNew)"
    if "chans s p = Some c" for p c
    using assms that unfolding grows_def by metis
  then show ?thesis using assms by (simp add: grows_def)
qed

lemma grows_thread: "grows n s s' \<Longrightarrow> thread_of s' l = thread_of s l"
  unfolding grows_def by (blast intro: sig_of_SomeD(1))

lemma grows_chan:
  assumes "grows n s s'" "chans s p = Some c"
  obtains c' where "chans s' p = Some c'" "ch_loop c' = ch_loop c" "callbacks_of c' = callbacks_of c"
    "ch_index c \<noteq> kNew \<Longrightarrow> ch_index c' \<noteq> kNew"
  using assms unfolding grows_def chan_static_def prod.inject by metis

lemma running_newConnection:
  assumes inv: "running_inv os B {} {} {} D s" and me: "thread_of s (base s) = me" and id: "nextConnId (srv s) < INT_MAX"
    and fd: "fd \<in> open_fds (io_trace s)" "\<And>q d. chans s q = Some d \<Longrightarrow> ch_fd d \<noteq> fd"
  shows "\<exists>s'. newConnection os me run fd peer s = Inr s' \<and> running_inv os B {} {} {} D s' \<and> grows 1 s s'"
proof -
  note wf = running_invD [OF inv]
  from pool.pick_next [OF wf(7)] pool.pos_bound [OF wf(7)] obtain l pool where
    nxt: "getNextLoop (srv_pool (srv s)) = Inr (l, pool)" and l: "l \<in> set (workers s)" by auto
  from newConnection_made [OF nxt less_imp_neq [OF id], of os me run fd peer] obtain s3 loc where
    run: "newConnection os me run fd peer s = runInLoop os me run l (ConnectEstablished (next_conn s)) s3"
    and m: "made_connection l fd pool loc peer s s3"
    unfolding made_connection_def by metis
  note mD = made_connectionD [OF m]
  have made: "running_inv os B {} {next_conn s} {} D s3" "may_queue B s3 l (ConnectEstablished (next_conn s))"
    by (rule running_made [OF inv nxt id fd(1) _ m], erule fd(2))+
  from running_push [OF made, where me = me] obtain s' where
    s': "queueInLoop os me l (ConnectEstablished (next_conn s)) s3 = Inr s'" "running_inv os B {} {} {} D s'" "stays s3 s'"
    by auto
  have "base s \<noteq> l" using base_not_worker [OF inv] l by blast
  then have "thread_of s l \<noteq> me"
    using wf(2) base_loop worker_loop [OF l] me unfolding loops_wf_def inj_on_def by metis
  moreover from running_loop [OF inv worker_loop [OF l]] obtain lp where "loops s l = Some lp" "threadId lp = thread_of s l" .
  ultimately have "runInLoop os me run l (ConnectEstablished (next_conn s)) s3 = Inr s'"
    using s'(1) by (simp add: runInLoop_def isInLoopThread_def mD(3))
  moreover have "pool_loops pool = workers s" using pool.pick_next [OF wf(7)] nxt by auto
  then have "grows 1 s s3"
    using running_invD(3) [OF inv] by (auto simp: grows_def mD(2,3,4) sig_of_def server_loops_def chans_wf_def)
  then have "grows (1 + 0) s s'" by (rule grows_trans [OF _ stays_grows [OF s'(3)]]) simp
  ultimately show ?thesis using run s'(2) by auto
qed

text \<open>One readiness of the listening socket.\<close>

lemma running_accept:
  assumes inv: "running_inv os B {} {} {} D s" and me: "thread_of s (base s) = me" and id: "nextConnId (srv s) < INT_MAX"
    and doc: "new_fds_documented os"
  shows "\<exists>s'. server_accept os me uc d t s = Inr s' \<and> running_inv os B {} {} {} D s' \<and> grows 1 s s'"
proof -
  let ?a = "srv_acceptor (srv s)"
  let ?call = "Accept (acc_fd ?a)"
  define fd where "fd = ret (os (io_trace s) ?call)"
  define s1 where "s1 = snd (do_call os me ?call s)"
  have i1: "running_inv os B {} {} {} D s1" "stays s s1" using running_call [OF inv, of ?call me] by (simp_all add: s1_def)
  have cb: "hasNewConnectionCb ?a" using inv by (simp add: running_inv_def)
  have call: "do_call os me ?call s = (os (io_trace s) ?call, s1)" by (simp add: s1_def prod_eq_iff)
  show ?thesis
  proof (cases "0 \<le> fd")
    case False
    then have "server_accept os me uc d t s = Inr s1"
      by (simp add: server_accept_def acceptor_handleRead_def socket_accept_def call fd_def [symmetric])
    with i1 stays_grows [OF i1(2), of 1] show ?thesis by auto
  next
    case True
    let ?peer = "sockaddr_of (rdata (os (io_trace s) ?call))"
    have run: "server_accept os me uc d t s = newConnection os me (server_run os me uc) fd ?peer s1"
      using True cb by (simp add: server_accept_def acceptor_handleRead_def socket_accept_def call fd_def [symmetric])
    have "fd \<notin> open_fds (io_trace s)" using doc by (simp add: new_fds_documented_def fd_def)
    then have "ch_fd e \<noteq> fd" if "chans s1 q = Some e" for q e
      using that running_invD(3) [OF inv] by (auto simp: chans_wf_def s1_def)
    moreover have "fd \<in> open_fds (io_trace s1)" using True by (simp add: s1_def fd_def)
    moreover have "thread_of s1 (base s1) = me" "nextConnId (srv s1) < INT_MAX"
      using me id stays_thread [OF i1(2)] i1(2) by (simp_all add: stays_def)
    ultimately obtain s' where s': "newConnection os me (server_run os me uc) fd ?peer s1 = Inr s'"
      "running_inv os B {} {} {} D s'" "grows 1 s1 s'"
      using running_newConnection [OF i1(1), of me fd "server_run os me uc" ?peer] by blast
    have "grows (0 + 1) s s'" by (rule grows_trans [OF stays_grows [OF i1(2)] s'(3)]) simp
    with run s'(1,2) show ?thesis by auto
  qed
qed

subsection \<open>The event phase\<close>

lemma running_loop_read:
  assumes inv: "running_inv os B {} {} {} D s" and l: "l \<in> set (all_loops s)"
  shows "\<exists>s'. loop_handleRead os me l s = Inr s' \<and> running_inv os B {} {} {} D s' \<and> stays s s'"
proof -
  from running_loop [OF inv l] obtain lp where "loops s l = Some lp" by metis
  with running_call [OF inv, of "ReadFd (wakeFd lp) 8" me] show ?thesis by (simp add: loop_handleRead_def)
qed

text \<open>One callback of a channel of the loop whose turn it is.\<close>

lemma running_cb:
  assumes inv: "running_inv os B {} {} {} D s" and c: "chans s p = Some c" "ch_index c \<noteq> kNew"
    and me: "thread_of s (ch_loop c) = me" and uc: "local_user uc" and os: "short_messages os" "new_fds_documented os"
    and cb: "Some cb \<in> {closeCallback c, errorCallback c, readCallback c, writeCallback c}"
    and id: "cb = AcceptorHandleRead \<Longrightarrow> nextConnId (srv s) < INT_MAX"
  shows "\<exists>s'. server_cb os me uc d cb t s = Inr s' \<and> running_inv os B {} {} {} D s' \<and>
    grows (if cb = AcceptorHandleRead then 1 else 0) s s'"
proof -
  have kept: ?thesis if "cb \<noteq> AcceptorHandleRead" "server_cb os me uc d cb t s = Inr s'" "running_inv os B {} {} {} D s'" "stays s s'" for s'
    using that stays_grows [OF that(4), of 0] by simp
  have loc: "ch_loop c \<in> set (all_loops s)" and kind: "chan_kind s p c"
    using running_invD(3) [OF inv] c(1) unfolding chans_wf_def by blast+
  from kind consider "callbacks_of c = (Some (LoopHandleRead (ch_loop c)), None, None, None)"
    | "callbacks_of c = (Some AcceptorHandleRead, None, None, None)" "ch_loop c = base s"
    | k cn where "callbacks_of c = conn_callbacks k" "conns s k = Some cn" "conn_channel cn = p"
    unfolding chan_kind_def by blast
  then show ?thesis
  proof cases
    case 1
    with cb have "cb = LoopHandleRead (ch_loop c)" by (auto simp: callbacks_of_def)
    with running_loop_read [OF inv loc, of me] kept show ?thesis by (auto simp: server_cb_def)
  next
    case 2
    with cb have "cb = AcceptorHandleRead" by (auto simp: callbacks_of_def)
    with running_accept [OF inv _ id os(2)] me 2(2) show ?thesis by (simp add: server_cb_def)
  next
    case 3
    with cb have cb: "cb \<in> {ConnHandleRead k, ConnHandleWrite k, ConnHandleClose k, ConnHandleError k}"
      by (auto simp: callbacks_of_def conn_callbacks_def)
    from conns_wfD [OF running_invD(4) [OF inv] 3(2)] c(1) 3(3) have "conn_loop cn = ch_loop c" by (metis option.inject)
    with running_conn_cb [OF inv 3(2) _ c(2) _ uc os(1) cb, of me d t] c(1) 3(3) me kept cb show ?thesis by auto
  qed
qed

lemma running_call_if:
  assumes inv: "running_inv os B {} {} {} D s" and c: "chans s p = Some c" "ch_index c \<noteq> kNew"
    and me: "thread_of s (ch_loop c) = me" and uc: "local_user uc" and os: "short_messages os" "new_fds_documented os"
    and cb: "o1 \<in> {closeCallback c, errorCallback c, readCallback c, writeCallback c}"
    and id: "o1 = Some AcceptorHandleRead \<Longrightarrow> nextConnId (srv s) < INT_MAX"
  shows "\<exists>s' c'. call_if (server_cb os me uc d) t b o1 s = Inr s' \<and> running_inv os B {} {} {} D s' \<and>
    grows (if o1 = Some AcceptorHandleRead then 1 else 0) s s' \<and> chans s' p = Some c' \<and> ch_loop c' = ch_loop c \<and>
    callbacks_of c' = callbacks_of c \<and> ch_index c' \<noteq> kNew \<and> thread_of s' (ch_loop c') = me"
proof -
  let ?n = "if o1 = Some AcceptorHandleRead then 1 else 0"
  have "\<exists>s'. call_if (server_cb os me uc d) t b o1 s = Inr s' \<and> running_inv os B {} {} {} D s' \<and> grows ?n s s'"
  proof (cases "b \<and> o1 \<noteq> None")
    case True
    then obtain f where "o1 = Some f" by auto
    with True running_cb [OF inv c me uc os, of f d t] cb id show ?thesis by (auto simp: call_if_def)
  next
    case False
    with inv stays_grows [of s s ?n] show ?thesis by (auto simp: call_if_def)
  qed
  then obtain s' where s': "call_if (server_cb os me uc d) t b o1 s = Inr s'" "running_inv os B {} {} {} D s'" "grows ?n s s'"
    by blast
  from grows_chan [OF s'(3) c(1)] c(2) obtain c' where "chans s' p = Some c'" "ch_loop c' = ch_loop c"
    "callbacks_of c' = callbacks_of c" "ch_index c' \<noteq> kNew" by metis
  with s' me grows_thread [OF s'(3)] show ?thesis by auto
qed

lemma running_call_plain:
  assumes inv: "running_inv os B {} {} {} D s" and c: "chans s p = Some c" "ch_index c \<noteq> kNew"
    and me: "thread_of s (ch_loop c) = me" and uc: "local_user uc" and os: "short_messages os" "new_fds_documented os"
    and cb: "o1 \<in> {closeCallback c, errorCallback c, readCallback c, writeCallback c}" "o1 \<noteq> Some AcceptorHandleRead"
  shows "\<exists>s' c'. call_if (server_cb os me uc d) t b o1 s = Inr s' \<and> running_inv os B {} {} {} D s' \<and>
    grows 0 s s' \<and> chans s' p = Some c' \<and> ch_loop c' = ch_loop c \<and>
    callbacks_of c' = callbacks_of c \<and> ch_index c' \<noteq> kNew \<and> thread_of s' (ch_loop c') = me"
  using running_call_if [OF inv c me uc os cb(1), of d t b] cb(2) by simp

lemma accept_callback:
  assumes "running_inv os B X E C D s" "chans s p = Some c"
  shows "closeCallback c \<noteq> Some AcceptorHandleRead" "errorCallback c \<noteq> Some AcceptorHandleRead"
    "writeCallback c \<noteq> Some AcceptorHandleRead"
    "readCallback c = Some AcceptorHandleRead \<Longrightarrow> p = acc_chan (srv_acceptor (srv s))"
proof -
  have "chan_kind s p c" using running_invD(3) [OF assms(1)] assms(2) unfolding chans_wf_def by blast
  then show "closeCallback c \<noteq> Some AcceptorHandleRead" "errorCallback c \<noteq> Some AcceptorHandleRead"
    "writeCallback c \<noteq> Some AcceptorHandleRead"
    "readCallback c = Some AcceptorHandleRead \<Longrightarrow> p = acc_chan (srv_acceptor (srv s))"
    by (auto simp: chan_kind_def callbacks_of_def conn_callbacks_def)
qed

abbreviation is_acceptor :: "'a server_net_scheme \<Rightarrow> chan_id \<Rightarrow> int" where
  "is_acceptor s p \<equiv> (if p = acc_chan (srv_acceptor (srv s)) then 1 else 0)"

lemma running_guard:
  assumes inv: "running_inv os B {} {} {} D s" and c: "chans s p = Some c" "ch_index c \<noteq> kNew"
    and me: "thread_of s (ch_loop c) = me" and uc: "local_user uc" and os: "short_messages os" "new_fds_documented os"
    and id: "nextConnId (srv s) + is_acceptor s p \<le> INT_MAX"
  shows "\<exists>s'. handleEventWithGuard (server_cb os me uc d) p t s = Inr s' \<and> running_inv os B {} {} {} D s' \<and>
    grows (is_acceptor s p) s s'"
proof -
  have cbs: "closeCallback e = closeCallback c \<and> errorCallback e = errorCallback c \<and> readCallback e = readCallback c \<and>
    writeCallback e = writeCallback c" if "callbacks_of e = callbacks_of c" for e
    using that by (simp add: callbacks_of_def)
  note acc = accept_callback [OF inv c(1)]
  from running_call_plain [OF inv c me uc os _ acc(1), where d = d and t = t and b = "wants_close (ch_revents c)"] obtain s1 c1 where
    1: "call_if (server_cb os me uc d) t (wants_close (ch_revents c)) (closeCallback c) s = Inr s1"
    "running_inv os B {} {} {} D s1" "grows 0 s s1" "chans s1 p = Some c1" "callbacks_of c1 = callbacks_of c"
    "ch_index c1 \<noteq> kNew" "thread_of s1 (ch_loop c1) = me" by blast
  have "errorCallback c1 \<noteq> Some AcceptorHandleRead" using cbs [OF 1(5)] acc(2) by simp
  from running_call_plain [OF 1(2,4,6,7) uc os _ this, where d = d and t = t and b = "wants_error (ch_revents c1)"] obtain s2 c2 where
    2: "call_if (server_cb os me uc d) t (wants_error (ch_revents c1)) (errorCallback c1) s1 = Inr s2"
    "running_inv os B {} {} {} D s2" "grows 0 s1 s2" "chans s2 p = Some c2" "callbacks_of c2 = callbacks_of c"
    "ch_index c2 \<noteq> kNew" "thread_of s2 (ch_loop c2) = me" unfolding 1(5) by blast
  have "nextConnId (srv s2) \<le> nextConnId (srv s)" using 1(3) 2(3) by (simp add: grows_def)
  then have id2: "nextConnId (srv s2) < INT_MAX" if "readCallback c2 = Some AcceptorHandleRead"
    using that acc(4) cbs [OF 2(5)] id by simp
  let ?n = "if readCallback c2 = Some AcceptorHandleRead then 1 else 0"
  from running_call_if [OF 2(2,4,6,7) uc os _ id2, where d = d and t = t and b = "wants_read (ch_revents c2)"] obtain s3 c3 where
    3: "call_if (server_cb os me uc d) t (wants_read (ch_revents c2)) (readCallback c2) s2 = Inr s3"
    "running_inv os B {} {} {} D s3" "grows ?n s2 s3" "chans s3 p = Some c3" "callbacks_of c3 = callbacks_of c"
    "ch_index c3 \<noteq> kNew" "thread_of s3 (ch_loop c3) = me" unfolding 2(5) by blast
  have "writeCallback c3 \<noteq> Some AcceptorHandleRead" using cbs [OF 3(5)] acc(3) by simp
  from running_call_plain [OF 3(2,4,6,7) uc os _ this, where d = d and t = t and b = "wants_write (ch_revents c3)"] obtain s4 where
    4: "call_if (server_cb os me uc d) t (wants_write (ch_revents c3)) (writeCallback c3) s3 = Inr s4"
    "running_inv os B {} {} {} D s4" "grows 0 s3 s4" by blast
  have "handleEventWithGuard (server_cb os me uc d) p t s = Inr s4"
    using c(1) 1(1,4) 2(1,4) 3(1,4) 4(1) by (simp add: handleEventWithGuard_def)
  moreover have "grows (0 + 0 + ?n + 0) s s4" by (rule grows_trans [OF grows_trans [OF grows_trans [OF 1(3) 2(3)] 3(3)] 4(3)])
  then have "grows (is_acceptor s p) s s4"
    using acc(4) cbs [OF 2(5)] by (auto simp: grows_def split: if_splits)
  ultimately show ?thesis using 4(2) by blast
qed

lemma running_event:
  assumes "running_inv os B {} {} {} D s" "chans s p = Some c" "ch_index c \<noteq> kNew"
    "thread_of s (ch_loop c) = me" "local_user uc" "short_messages os" "new_fds_documented os"
    "nextConnId (srv s) + is_acceptor s p \<le> INT_MAX"
  shows "\<exists>s'. handleEvent alive (server_cb os me uc d) p t s = Inr s' \<and> running_inv os B {} {} {} D s' \<and>
    grows (is_acceptor s p) s s'"
  using running_guard [OF assms, of d t] assms(1,2) stays_grows [OF stays_refl, of "is_acceptor s p" s]
  by (auto simp: handleEvent_def split: option.split)

lemma events_run:
  assumes "running_inv os B {} {} {} D s" "distinct active"
    "\<forall>p \<in> set active. \<exists>c. chans s p = Some c \<and> ch_loop c = l \<and> ch_index c \<noteq> kNew"
    "thread_of s l = me" "local_user uc" "short_messages os" "new_fds_documented os"
    "nextConnId (srv s) + (if acc_chan (srv_acceptor (srv s)) \<in> set active then 1 else 0) \<le> INT_MAX"
  shows "\<exists>s'. foldr_res (\<lambda>p. handleEvent alive (server_cb os me uc d) p t) active s = Inr s' \<and>
    running_inv os B {} {} {} D s' \<and> grows (if acc_chan (srv_acceptor (srv s)) \<in> set active then 1 else 0) s s'"
  using assms
proof (induction active arbitrary: s)
  case Nil
  then show ?case using stays_grows [OF stays_refl, of 0 s] by simp
next
  case (Cons p active)
  from Cons.prems(3) obtain c where c: "chans s p = Some c" "ch_loop c = l" "ch_index c \<noteq> kNew" by auto
  let ?n = "if acc_chan (srv_acceptor (srv s)) \<in> set active then 1 else 0 :: int"
  have id: "nextConnId (srv s) + is_acceptor s p + ?n \<le> INT_MAX" using Cons.prems(2,8) by (auto split: if_splits)
  then have "nextConnId (srv s) + is_acceptor s p \<le> INT_MAX" by (auto split: if_splits)
  from running_event [OF Cons.prems(1) c(1,3) _ Cons.prems(5-7) this, of me alive d t] c(2) Cons.prems(4) obtain s1 where
    s1: "handleEvent alive (server_cb os me uc d) p t s = Inr s1" "running_inv os B {} {} {} D s1" "grows (is_acceptor s p) s s1"
    by auto
  have same: "srv_acceptor (srv s1) = srv_acceptor (srv s)" using s1(3) by (simp add: grows_def)
  have "\<exists>e. chans s1 q = Some e \<and> ch_loop e = l \<and> ch_index e \<noteq> kNew" if q: "q \<in> set active" for q
  proof -
    from Cons.prems(3) q obtain e where e: "chans s q = Some e" "ch_loop e = l" "ch_index e \<noteq> kNew" by auto
    from grows_chan [OF s1(3) e(1)] e(2,3) show ?thesis by metis
  qed
  moreover have "nextConnId (srv s1) + ?n \<le> INT_MAX" using s1(3) id by (simp add: grows_def)
  moreover have "thread_of s1 l = me" using grows_thread [OF s1(3)] Cons.prems(4) by simp
  ultimately obtain s2 where s2: "foldr_res (\<lambda>p. handleEvent alive (server_cb os me uc d) p t) active s1 = Inr s2"
    "running_inv os B {} {} {} D s2" "grows ?n s1 s2"
    using Cons.IH [OF s1(2)] Cons.prems(2,5-7) unfolding same by auto
  have "is_acceptor s p + ?n = (if acc_chan (srv_acceptor (srv s)) \<in> set (p # active) then 1 else 0)"
    using Cons.prems(2) by auto
  with grows_trans [OF s1(3) s2(3)] s1(1) s2(1,2) show ?case by auto
qed

subsection \<open>Turns\<close>

text \<open>A turn of any loop, in that loop's thread.\<close>

lemma turn_runs:
  assumes inv: "running_inv os no_batch {} {} {} {} s" and l: "l \<in> set (all_loops s)" and me: "thread_of s l = me"
    and uc: "local_user uc" and os: "epoll_wait_documented os" "short_messages os" "new_fds_documented os"
    and id: "nextConnId (srv s) < INT_MAX"
  shows "\<exists>s'. server_turn os me uc d l s = Inr s' \<and> running_inv os no_batch {} {} {} {} s' \<and>
    all_loops s' = all_loops s \<and> (\<forall>k. sig_of s' k = sig_of s k) \<and> nextConnId (srv s') \<le> nextConnId (srv s) + 1"
proof -
  from poll_runs [OF inv l os(1), of me] obtain active now s1 where
    s1: "poll_phase os me l s = Inr (active, now, s1)" "running_inv os no_batch {} {} {} {} s1" "stays s s1" "distinct active"
      "\<forall>p \<in> set active. \<exists>c. chans s1 p = Some c \<and> ch_loop c = l \<and> ch_index c \<noteq> kNew" by blast
  let ?n = "if acc_chan (srv_acceptor (srv s1)) \<in> set active then 1 else 0 :: int"
  have "thread_of s1 l = me" using stays_thread [OF s1(3)] me by simp
  moreover have "nextConnId (srv s1) + ?n \<le> INT_MAX" using id s1(3) by (simp add: stays_def)
  ultimately obtain s2 where s2: "foldr_res (\<lambda>p. handleEvent (\<lambda>c s. conns s c \<noteq> None) (server_cb os me uc d) p now) active s1 = Inr s2"
    "running_inv os no_batch {} {} {} {} s2" "grows ?n s1 s2"
    using events_run [OF s1(2,4,5) _ uc os(2,3)] by blast
  have "grows (0 + ?n) s s2" by (rule grows_trans [OF stays_grows [OF s1(3)] s2(3)]) simp
  then have g: "grows ?n s s2" by simp
  have "l \<in> set (all_loops s2)" "thread_of s2 l = me" using g l me grows_thread [OF g] by (simp_all add: grows_def)
  from functors_run [OF s2(2) this uc] obtain s3 where
    s3: "doPendingFunctors (server_run os me uc) (drop_refs os me) l s2 = Inr s3" "running_inv os no_batch {} {} {} {} s3"
      "same_shape l s2 s3" by blast
  have "server_turn os me uc d l s = Inr s3" using s1(1) s2(1) s3(1) by (simp add: server_turn_def loop_turn_def)
  moreover have "all_loops s3 = all_loops s \<and> (\<forall>k. sig_of s3 k = sig_of s k) \<and> nextConnId (srv s3) \<le> nextConnId (srv s) + 1"
    using g s3(3) unfolding grows_def same_shape_def by (simp split: if_splits)
  ultimately show ?thesis using s3(2) by blast
qed

text \<open>A run: the loops of the server take turns in any order, each in its own thread.\<close>

fun server_turns :: "os \<Rightarrow> user_code \<Rightarrow> inet_address \<Rightarrow> loop_id list \<Rightarrow> 'a server_net_scheme \<Rightarrow> 'a server_net_scheme res" where
  "server_turns os uc d [] s = Inr s"
| "server_turns os uc d (l # ls) s = rbind (server_turn os (thread_of s l) uc d l s) (server_turns os uc d ls)"

lemma turns_run:
  assumes "running_inv os no_batch {} {} {} {} s" "set ls \<subseteq> set (all_loops s)" "local_user uc"
    "epoll_wait_documented os" "short_messages os" "new_fds_documented os" "nextConnId (srv s) + int (length ls) \<le> INT_MAX"
  shows "\<exists>s'. server_turns os uc d ls s = Inr s' \<and> running_inv os no_batch {} {} {} {} s' \<and> all_loops s' = all_loops s \<and>
    (\<forall>k. sig_of s' k = sig_of s k) \<and> nextConnId (srv s') \<le> nextConnId (srv s) + int (length ls)"
  using assms(1,2,7)
proof (induction ls arbitrary: s)
  case Nil
  then show ?case by simp
next
  case (Cons l ls)
  have "nextConnId (srv s) < INT_MAX" "l \<in> set (all_loops s)" using Cons.prems(2,3) by simp_all
  from turn_runs [OF Cons.prems(1) this(2) refl assms(3-6) this(1), of d] obtain s1 where
    s1: "server_turn os (thread_of s l) uc d l s = Inr s1" "running_inv os no_batch {} {} {} {} s1" "all_loops s1 = all_loops s"
      "\<forall>k. sig_of s1 k = sig_of s k" "nextConnId (srv s1) \<le> nextConnId (srv s) + 1" by blast
  have "set ls \<subseteq> set (all_loops s1)" "nextConnId (srv s1) + int (length ls) \<le> INT_MAX"
    using Cons.prems(2,3) s1(3,5) by simp_all
  from Cons.IH [OF s1(2) this] s1 show ?case by auto
qed

end
