(* ===== verification/ServerStart.thy ===== *)
theory ServerStart
  imports ServerRuns
begin

section \<open>From the start of the program\<close>

text \<open>
  Construction and start: the loops come up one by one, each in a thread of its own and with
  descriptors of its own, the listening channel joins the base loop, and when \<open>start\<close> returns the
  invariant of the theory ServerInv holds. With the turns of the theory ServerRuns this covers the
  program from its first statement on.
\<close>

subsection \<open>Loops that have come up\<close>

text \<open>\<open>Ls\<close>: the loops; \<open>A\<close>: listening channels with their loops.\<close>

definition loops_ready :: "os \<Rightarrow> loop_id list \<Rightarrow> (chan_id \<times> loop_id) set \<Rightarrow> 'a reactor_scheme \<Rightarrow> bool" where
  "loops_ready os Ls A s \<longleftrightarrow> distinct Ls \<and>
     (\<forall>l \<in> set Ls. reg_inv os l s \<and>
        (\<exists>lp pl c. loops s l = Some lp \<and> loop_poller lp = Some pl \<and> epollfd pl \<in> open_fds (io_trace s) \<and>
           pendingFunctors lp = [] \<and> t_loopInthisThread s (threadId lp) = Some l \<and>
           chans s (wakeupChannel lp) = Some c \<and> ch_loop c = l \<and> ch_fd c = wakeFd lp \<and> is_wakeup c)) \<and>
     inj_on (epfd_of s) (set Ls) \<and>
     (\<forall>p c. chans s p = Some c \<longrightarrow> ch_fd c \<in> open_fds (io_trace s) \<and> \<not> isWriting c \<and> ch_loop c \<in> set Ls \<and>
        (is_wakeup c \<or> (p, ch_loop c) \<in> A \<and> callbacks_of c = (Some AcceptorHandleRead, None, None, None))) \<and>
     (\<forall>p q c d. chans s p = Some c \<longrightarrow> chans s q = Some d \<longrightarrow> ch_fd c = ch_fd d \<longrightarrow> p = q)"

lemma loops_ready_none: "chans s = Map.empty \<Longrightarrow> loops_ready os [] {} s"
  by (simp add: loops_ready_def)

lemma loops_readyD:
  assumes "loops_ready os Ls A s" "l \<in> set Ls"
  obtains lp pl c where "reg_inv os l s" "loops s l = Some lp" "loop_poller lp = Some pl" "epollfd pl \<in> open_fds (io_trace s)"
    "pendingFunctors lp = []" "t_loopInthisThread s (threadId lp) = Some l" "chans s (wakeupChannel lp) = Some c"
    "ch_loop c = l" "ch_fd c = wakeFd lp" "is_wakeup c"
  using assms unfolding loops_ready_def by blast

lemma loops_ready_loop:
  assumes "loops_ready os Ls A s" "l \<in> set Ls"
  shows "\<exists>lp c. loops s l = Some lp \<and> pendingFunctors lp = [] \<and> t_loopInthisThread s (threadId lp) = Some l \<and>
    chans s (wakeupChannel lp) = Some c \<and> ch_loop c = l \<and> ch_fd c = wakeFd lp \<and>
    callbacks_of c = (Some (LoopHandleRead l), None, None, None)"
  by (rule loops_readyD [OF assms]) (simp add: is_wakeup_def)

lemma loops_ready_chanD:
  assumes "loops_ready os Ls A s" "chans s p = Some c"
  shows "ch_fd c \<in> open_fds (io_trace s)" "\<not> isWriting c" "ch_loop c \<in> set Ls"
    "is_wakeup c \<or> (p, ch_loop c) \<in> A \<and> callbacks_of c = (Some AcceptorHandleRead, None, None, None)"
    "\<And>q d. chans s q = Some d \<Longrightarrow> ch_fd d = ch_fd c \<Longrightarrow> q = p"
  using assms unfolding loops_ready_def by metis+

lemma loops_ready_same:
  assumes rdy: "loops_ready os Ls A s" and same: "chans s' = chans s" "loops s' = loops s" "io_trace s' = io_trace s"
    "t_loopInthisThread s' = t_loopInthisThread s"
  shows "loops_ready os Ls A s'"
proof -
  have "reg_inv os l s'" if "l \<in> set Ls" for l
    by (rule reg_inv_alike [where s = s]) (use rdy that in \<open>simp_all add: same rel_option_reflI loops_ready_def\<close>)
  moreover have "epfd_of s' = epfd_of s" by (simp add: epfd_of_def fun_eq_iff same)
  ultimately show ?thesis using rdy unfolding loops_ready_def same by (simp only:) blast
qed

text \<open>One more loop.\<close>

lemma loops_ready_add:
  assumes rdy: "loops_ready os Ls A s" and new: "new_loop_ok os me l p s" and doc: "new_fds_documented os"
  shows "\<exists>s'. mkEventLoop os me False l p s = Inr s' \<and> loops_ready os (Ls @ [l]) A s' \<and>
    (\<forall>q. q \<noteq> p \<longrightarrow> chans s' q = chans s q) \<and> chans s' p \<noteq> None \<and>
    t_loopInthisThread s' = (t_loopInthisThread s)(me := Some l) \<and>
    (\<forall>k. thread_of s' k = (if k = l then me else thread_of s k))"
proof -
  have nl: "l \<notin> set Ls"
  proof
    assume "l \<in> set Ls"
    from loops_readyD [OF rdy this] new show False unfolding new_loop_ok_def by metis
  qed
  from mkEventLoop_steps [OF new] obtain s4 r w pl where
    s4: "mkEventLoop os me False l p s = set_events os me EnableReading p s4" "reg_inv os l s4"
      "r = os (io_trace s) EpollCreate" "w = os (io_trace s @ [(me, EpollCreate, r)]) EventFd"
      "io_trace s4 = io_trace s @ [(me, EpollCreate, r), (me, EventFd, w)]" "epollfd pl = ret r"
      "loops s4 = (loops s)(l := Some \<lparr>looping = False, quit_flag = False, threadId = me, pollReturnTime = 0,
        loop_poller = Some pl, wakeFd = ret w, wakeupChannel = p, activeChannels = [],
        callingPendingFunctors = False, pendingFunctors = []\<rparr>)"
      "t_loopInthisThread s4 = (t_loopInthisThread s)(me := Some l)"
      "chans s4 = (chans s)(p := Some ((mkChannel l (ret w))\<lparr>readCallback := Some (LoopHandleRead l)\<rparr>))"
    by (elim exE conjE) (rule that)
  let ?c = "(mkChannel l (ret w))\<lparr>readCallback := Some (LoopHandleRead l)\<rparr>"
  let ?d = "?c\<lparr>ch_events := change_events EnableReading (ch_events ?c)\<rparr>"
  let ?e = "?d\<lparr>ch_index := index_after_update ?d\<rparr>"
  have c4: "chans s4 p = Some ?c" "ch_loop ?c = l" by (simp_all add: s4(9) mkChannel_def)
  from set_events_ok [OF s4(2) c4, of me EnableReading] obtain s' where
    s': "set_events os me EnableReading p s4 = Inr s'" "reg_inv os l s'" "only_poller l s4 s'"
      "chans s' = (chans s4)(p := Some ?e)" by auto
  from s'(3) obtain lp pl' where lp: "loops s' = (loops s)(l := Some lp)" "threadId lp = me" "wakeupChannel lp = p"
    "wakeFd lp = ret w" "pendingFunctors lp = []" "loop_poller lp = Some pl'"
    and tl: "t_loopInthisThread s' = (t_loopInthisThread s)(me := Some l)"
    unfolding only_poller_def s4(7,8) by auto
  have "sig_of s' l = sig_of s4 l" by (rule set_events_sig [OF s'(1)])
  then have ep: "epollfd pl' = ret r" using lp(1,6) by (simp add: sig_of_def loop_sig_def s4(6,7))
  have chs: "chans s' = (chans s)(p := Some ?e)" by (simp add: s'(4) s4(9))
  have e: "ch_loop ?e = l" "ch_fd ?e = ret w" "is_wakeup ?e" "\<not> isWriting ?e"
    by (simp_all add: mkChannel_def is_wakeup_def callbacks_of_def isWriting_def channel_masks epoll_bits)
  have pos: "0 \<le> ret r" "0 \<le> ret w" using new by (simp_all add: new_loop_ok_def s4(3,4))
  have fresh: "ret r \<notin> open_fds (io_trace s)" "ret w \<notin> insert (ret r) (open_fds (io_trace s))"
    using doc pos by (auto simp: new_fds_documented_def s4(3,4) dest!: spec [where x = "io_trace s @ [(me, EpollCreate, r)]"])
  have fds: "open_fds (io_trace s') = insert (ret w) (insert (ret r) (open_fds (io_trace s)))"
    using ctl_only_open [OF set_events_trace [OF s'(1)]] pos by (simp add: s4(5))
  have other: "reg_inv os k s'" if k: "k \<in> set Ls" for k
  proof -
    from loops_readyD [OF rdy k] obtain kp ql where kp: "reg_inv os k s" "loops s k = Some kp" "loop_poller kp = Some ql"
      "epollfd ql \<in> open_fds (io_trace s)" by metis
    have kl: "k \<noteq> l" using k nl by blast
    have ne: "epollfd ql \<noteq> ret r" using kp(4) fresh(1) by metis
    have "interest_of (epollfd ql) (io_trace s') = interest_of (epollfd ql) (io_trace s4)"
      by (rule set_events_interest [OF s'(1) c4(1)]) (use ne in \<open>auto simp: s4(6,7) mkChannel_def\<close>)
    then have "interest_of (epollfd ql) (io_trace s') = interest_of (epollfd ql) (io_trace s)"
      using ne by (simp add: s4(5))
    moreover have "same_chans k s s'" using new kl e(1) unfolding new_loop_ok_def same_chans_def chs by auto
    ultimately show ?thesis using reg_inv_cong [OF kp(1-3), of s' kp ql] lp(1) kl kp(2,3) by simp
  qed
  have "loops_ready os (Ls @ [l]) A s'"
    unfolding loops_ready_def
  proof (intro conjI ballI allI impI)
    show "distinct (Ls @ [l])" using rdy nl by (simp add: loops_ready_def)
    show "reg_inv os k s'" if "k \<in> set (Ls @ [l])" for k using that other s'(2) by auto
    show "\<exists>lp pl c. loops s' k = Some lp \<and> loop_poller lp = Some pl \<and> epollfd pl \<in> open_fds (io_trace s') \<and>
           pendingFunctors lp = [] \<and> t_loopInthisThread s' (threadId lp) = Some k \<and>
           chans s' (wakeupChannel lp) = Some c \<and> ch_loop c = k \<and> ch_fd c = wakeFd lp \<and> is_wakeup c"
      if k: "k \<in> set (Ls @ [l])" for k
    proof (cases "k = l")
      case True
      then show ?thesis using lp tl ep fds e chs by auto
    next
      case False
      with k have "k \<in> set Ls" by simp
      from loops_readyD [OF rdy this] obtain kp ql c where kp: "loops s k = Some kp" "loop_poller kp = Some ql"
        "epollfd ql \<in> open_fds (io_trace s)" "pendingFunctors kp = []" "t_loopInthisThread s (threadId kp) = Some k"
        "chans s (wakeupChannel kp) = Some c" "ch_loop c = k" "ch_fd c = wakeFd kp" "is_wakeup c" by metis
      have "threadId kp \<noteq> me" "wakeupChannel kp \<noteq> p" using new kp(5,6) by (auto simp: new_loop_ok_def)
      with kp False show ?thesis by (simp add: lp(1) tl fds chs)
    qed
    show "inj_on (epfd_of s') (set (Ls @ [l]))"
    proof -
      have old: "epfd_of s' k = epfd_of s k \<and> epfd_of s k \<noteq> Some (ret r)" if k: "k \<in> set Ls" for k
      proof -
        from loops_readyD [OF rdy k] obtain kp ql where "loops s k = Some kp" "loop_poller kp = Some ql"
          "epollfd ql \<in> open_fds (io_trace s)" by metis
        moreover have "k \<noteq> l" using k nl by blast
        ultimately show ?thesis using fresh(1) by (auto simp: epfd_of_def lp(1))
      qed
      have new: "epfd_of s' l = Some (ret r)" by (simp add: epfd_of_def lp ep)
      have "inj_on (epfd_of s) (set Ls)" using rdy by (simp add: loops_ready_def)
      then have "inj_on (epfd_of s') (set Ls)" by (rule inj_on_cong [THEN iffD1, rotated]) (simp add: old)
      moreover have "epfd_of s' l \<notin> epfd_of s' ` set Ls" unfolding new using old by fastforce
      ultimately show ?thesis using nl by simp
    qed
  next
    fix q c assume q: "chans s' q = Some c"
    have "ch_fd c \<in> open_fds (io_trace s') \<and> \<not> isWriting c \<and> ch_loop c \<in> set (Ls @ [l]) \<and>
      (is_wakeup c \<or> (q, ch_loop c) \<in> A \<and> callbacks_of c = (Some AcceptorHandleRead, None, None, None))"
    proof (cases "q = p")
      case True
      with q have "c = ?e" by (simp add: chs)
      with e fds show ?thesis by simp
    next
      case False
      with q have "chans s q = Some c" by (simp add: chs)
      note old = loops_ready_chanD [OF rdy this]
      show ?thesis using old(1-3) by (intro conjI old(4)) (simp_all add: fds)
    qed
    then show "ch_fd c \<in> open_fds (io_trace s')" "\<not> isWriting c" "ch_loop c \<in> set (Ls @ [l])"
      "is_wakeup c \<or> (q, ch_loop c) \<in> A \<and> callbacks_of c = (Some AcceptorHandleRead, None, None, None)"
      by blast+
  next
    fix q q' c c' assume a: "chans s' q = Some c" "chans s' q' = Some c'" "ch_fd c = ch_fd c'"
    have old: "ch_fd d \<noteq> ret w" if "chans s u = Some d" for u d using loops_ready_chanD(1) [OF rdy that] fresh(2) by auto
    show "q = q'"
      using a old [of q c] old [of q' c'] e(2) loops_ready_chanD(5) [OF rdy, of q' c' q c]
      unfolding chs by (cases "q = p"; cases "q' = p") auto
  qed
  moreover have "thread_of s' k = (if k = l then me else thread_of s k)" for k by (simp add: thread_of_def lp)
  ultimately show ?thesis using s4(1) s'(1) tl by (auto simp: chs)
qed

subsection \<open>The listening channel\<close>

text \<open>A kernel that gives out sockets and binds and listens as it is asked.\<close>

definition sockets_given :: "os \<Rightarrow> bool" where
  "sockets_given os \<longleftrightarrow> (\<forall>tr. 0 \<le> ret (os tr SocketNew) \<and> (\<forall>fd a. ret (os tr (Bind fd a)) = 0) \<and>
     (\<forall>fd n. ret (os tr (Listen fd n)) = 0))"

lemma loops_ready_acceptor:
  assumes rdy: "loops_ready os Ls A s" and l: "l \<in> set Ls" and p: "chans s p = None"
    and doc: "new_fds_documented os" and sk: "sockets_given os"
  shows "\<exists>a s' c. mkAcceptor os me l addr reuse p s = Inr (a, s') \<and> loops_ready os Ls (insert (p, l) A) s' \<and>
    acc_chan a = p \<and> chans s' = (chans s)(p := Some c) \<and>
    callbacks_of c = (Some AcceptorHandleRead, None, None, None) \<and> \<not> listenning a \<and> loops s' = loops s \<and>
    t_loopInthisThread s' = t_loopInthisThread s"
proof -
  define fd where "fd = ret (os (io_trace s) SocketNew)"
  define s1 where "s1 = snd (do_call os me SocketNew s)"
  let ?c = "mkChannel l fd"
  define s2 where "s2 = setReusePort os me True fd (setReuseAddr os me True fd (put_chan p ?c s1))"
  define s3 where "s3 = snd (do_call os me (Bind fd (sockaddr_bytes addr)) s2)"
  let ?d = "?c\<lparr>readCallback := Some AcceptorHandleRead\<rparr>"
  define s' where "s' = put_chan p ?d s3"
  have pos: "0 \<le> fd" using sk by (simp add: sockets_given_def fd_def)
  have new: "fd \<notin> open_fds (io_trace s)" using doc by (simp add: new_fds_documented_def fd_def)
  have s': "chans s' = (chans s)(p := Some ?d)" "loops s' = loops s" "t_loopInthisThread s' = t_loopInthisThread s"
    "interest_of ep (io_trace s') = interest_of ep (io_trace s)" "open_fds (io_trace s') = insert fd (open_fds (io_trace s))" for ep
    using pos by (simp_all add: s'_def s3_def s2_def s1_def setReusePort_def setReuseAddr_def setOption_def fd_def)
  have bind: "ret (os (io_trace s2) (Bind fd (sockaddr_bytes addr))) = 0" using sk by (simp add: sockets_given_def)
  have "chans s3 p = Some ?c" by (simp add: s3_def s2_def s1_def setReusePort_def setReuseAddr_def setOption_def)
  then have run: "mkAcceptor os me l addr reuse p s =
      Inr (\<lparr>acc_loop = l, acc_fd = fd, acc_chan = p, hasNewConnectionCb = False, listenning = False\<rparr>, s')"
    using pos bind
    by (simp add: mkAcceptor_def CreateNoblocking_def bindAddress_def split_beta Let_def upd_chan_def
        fd_def [symmetric] s1_def [symmetric] s2_def [symmetric] s3_def [symmetric] s'_def)
  have d: "ch_loop ?d = l" "ch_fd ?d = fd" "ch_index ?d = kNew" "\<not> isWriting ?d"
    "callbacks_of ?d = (Some AcceptorHandleRead, None, None, None)"
    by (simp_all add: mkChannel_def callbacks_of_def isWriting_def index_states)
  have old: "ch_fd e \<noteq> fd" if "chans s q = Some e" for q e using loops_ready_chanD(1) [OF rdy that] new by blast
  have "reg_inv os k s'" if k: "k \<in> set Ls" for k
  proof -
    from loops_readyD [OF rdy k] obtain kp pl c where kp: "reg_inv os k s" "loops s k = Some kp" "loop_poller kp = Some pl"
      "chans s (wakeupChannel kp) = Some c" "ch_fd c = wakeFd kp" by metis
    show ?thesis
    proof (cases "k = l")
      case True
      have "unknown_fd k fd s" using old kp(2) old [OF kp(4)] kp(5) by (auto simp: unknown_fd_def)
      from reg_inv_new_chan [OF kp(1) this p _ _ d(3) s'(1,2,4)] d(1,2) True show ?thesis by simp
    next
      case False
      have "same_chans k s s'" using p d(1) False by (auto simp: same_chans_def s'(1))
      from reg_inv_cong [OF kp(1-3) _ kp(3) refl refl s'(4) this] kp(2) show ?thesis by (simp add: s'(2))
    qed
  qed
  moreover have "ch_fd c \<in> open_fds (io_trace s') \<and> \<not> isWriting c \<and> ch_loop c \<in> set Ls \<and>
      (is_wakeup c \<or> (q, ch_loop c) \<in> insert (p, l) A \<and> callbacks_of c = (Some AcceptorHandleRead, None, None, None))"
    if q: "chans s' q = Some c" for q c
  proof (cases "q = p")
    case True
    with q have "c = ?d" by (simp add: s'(1))
    with d l True s'(5) show ?thesis by simp
  next
    case False
    with q have "chans s q = Some c" by (simp add: s'(1))
    from loops_ready_chanD [OF rdy this] show ?thesis by (auto simp: s'(5))
  qed
  moreover have "q = q'" if "chans s' q = Some c" "chans s' q' = Some c'" "ch_fd c = ch_fd c'" for q q' c c'
    using that old [of q c] old [of q' c'] d(2) loops_ready_chanD(5) [OF rdy, of q' c' q c]
    unfolding s'(1) by (cases "q = p"; cases "q' = p") auto
  moreover have "\<exists>lp pl c. loops s' k = Some lp \<and> loop_poller lp = Some pl \<and> epollfd pl \<in> open_fds (io_trace s') \<and>
      pendingFunctors lp = [] \<and> t_loopInthisThread s' (threadId lp) = Some k \<and>
      chans s' (wakeupChannel lp) = Some c \<and> ch_loop c = k \<and> ch_fd c = wakeFd lp \<and> is_wakeup c" if k: "k \<in> set Ls" for k
  proof -
    from loops_readyD [OF rdy k] obtain kp ql c where kp: "loops s k = Some kp" "loop_poller kp = Some ql"
      "epollfd ql \<in> open_fds (io_trace s)" "pendingFunctors kp = []" "t_loopInthisThread s (threadId kp) = Some k"
      "chans s (wakeupChannel kp) = Some c" "ch_loop c = k" "ch_fd c = wakeFd kp" "is_wakeup c" by metis
    have "wakeupChannel kp \<noteq> p" using p kp(6) by auto
    with kp show ?thesis by (simp add: s'(1,2,3,5))
  qed
  moreover have "epfd_of s' = epfd_of s" by (simp add: epfd_of_def fun_eq_iff s'(2))
  then have "distinct Ls" "inj_on (epfd_of s') (set Ls)" using rdy by (simp_all add: loops_ready_def)
  ultimately have "loops_ready os Ls (insert (p, l) A) s'" unfolding loops_ready_def by blast
  with run s'(1-3) d(5) show ?thesis by auto
qed

subsection \<open>The workers\<close>

lemma start_one_run:
  assumes "place i = (t, l, p)" "mkEventLoop os t b l p s = Inr s'"
  shows "\<exists>ths num'. start_one os b place cb i (pool, num, s) =
    Inr (pool\<lparr>pool_threads := ths, pool_loops := pool_loops pool @ [l]\<rparr>, num', s')"
  using assms by (auto simp: start_one_def startLoop_def thread_start_def mkEventLoopThread_def mkThread_def
      split_beta Let_def)

lemma fresh_placesD:
  assumes "fresh_places place i n s" "i \<le> k" "k < n"
  shows "t_loopInthisThread s (fst (place k)) = None" "chans s (snd (snd (place k))) = None"
    "chans s q = Some d \<Longrightarrow> ch_loop d \<noteq> fst (snd (place k))"
    "i \<le> j \<Longrightarrow> j < n \<Longrightarrow> j \<noteq> k \<Longrightarrow> fst (place k) \<noteq> fst (place j)"
    "i \<le> j \<Longrightarrow> j < n \<Longrightarrow> j \<noteq> k \<Longrightarrow> fst (snd (place k)) \<noteq> fst (snd (place j))"
    "i \<le> j \<Longrightarrow> j < n \<Longrightarrow> j \<noteq> k \<Longrightarrow> snd (snd (place k)) \<noteq> snd (snd (place j))"
  using assms unfolding fresh_places_def case_prod_beta by simp_all

lemma loops_ready_pool:
  assumes rdy: "loops_ready os Ls A s" and os: "loop_fds_given os" "new_fds_documented os"
    and fresh: "fresh_places place 0 n s" and k: "k \<le> n"
  shows "\<exists>ths num' s'. foldr_res (start_one os False place cb) [0..<k] (pool, num, s) =
      Inr (pool\<lparr>pool_threads := ths, pool_loops := pool_loops pool @ map (\<lambda>i. fst (snd (place i))) [0..<k]\<rparr>, num', s') \<and>
    loops_ready os (Ls @ map (\<lambda>i. fst (snd (place i))) [0..<k]) A s' \<and>
    (\<forall>q. q \<notin> (\<lambda>i. snd (snd (place i))) ` {..<k} \<longrightarrow> chans s' q = chans s q) \<and>
    (\<forall>t. t \<notin> (\<lambda>i. fst (place i)) ` {..<k} \<longrightarrow> t_loopInthisThread s' t = t_loopInthisThread s t) \<and>
    (\<forall>j. j \<notin> (\<lambda>i. fst (snd (place i))) ` {..<k} \<longrightarrow> thread_of s' j = thread_of s j)"
  using k
proof (induction k)
  case 0
  have "pool = pool\<lparr>pool_threads := pool_threads pool, pool_loops := pool_loops pool\<rparr>" by simp
  with rdy show ?case by (auto intro!: exI [of _ "pool_threads pool"])
next
  case (Suc k)
  let ?L = "\<lambda>k. map (\<lambda>i. fst (snd (place i))) [0..<k]"
  obtain t l p where pk: "place k = (t, l, p)" by (cases "place k")
  from Suc.IH [OF Suc_leD [OF Suc.prems]] obtain ths num1 s1 where
    s1: "foldr_res (start_one os False place cb) [0..<k] (pool, num, s) =
        Inr (pool\<lparr>pool_threads := ths, pool_loops := pool_loops pool @ ?L k\<rparr>, num1, s1)"
      "loops_ready os (Ls @ ?L k) A s1"
      "\<forall>q. q \<notin> (\<lambda>i. snd (snd (place i))) ` {..<k} \<longrightarrow> chans s1 q = chans s q"
      "\<forall>t. t \<notin> (\<lambda>i. fst (place i)) ` {..<k} \<longrightarrow> t_loopInthisThread s1 t = t_loopInthisThread s t"
      "\<forall>j. j \<notin> (\<lambda>i. fst (snd (place i))) ` {..<k} \<longrightarrow> thread_of s1 j = thread_of s j"
    by (elim exE conjE) (rule that)
  have kn: "k < n" using Suc.prems by simp
  note f = fresh_placesD [OF fresh le0 kn, unfolded pk fst_conv snd_conv]
  have diff: "t \<noteq> fst (place j) \<and> l \<noteq> fst (snd (place j)) \<and> p \<noteq> snd (snd (place j))" if "j < k" for j
    using f(4-6) [of j] that kn by simp
  have "l \<notin> set Ls"
  proof
    assume "l \<in> set Ls"
    from loops_readyD [OF rdy this] f(3) show False by metis
  qed
  then have "l \<notin> set (Ls @ ?L k)" using diff by force
  then have "ch_loop d \<noteq> l" if "chans s1 q = Some d" for q d
    using loops_ready_chanD(3) [OF s1(2) that] by metis
  moreover have "t \<notin> (\<lambda>i. fst (place i)) ` {..<k}" "p \<notin> (\<lambda>i. snd (snd (place i))) ` {..<k}" using diff by auto
  then have "t_loopInthisThread s1 t = None" "chans s1 p = None" using s1(3,4) f(1,2) by simp_all
  ultimately have "new_loop_ok os t l p s1" using os(1) by (simp add: new_loop_ok_def loop_fds_given_def)
  from loops_ready_add [OF s1(2) this os(2)] obtain s2 where
    s2: "mkEventLoop os t False l p s1 = Inr s2" "loops_ready os ((Ls @ ?L k) @ [l]) A s2"
      "\<forall>q. q \<noteq> p \<longrightarrow> chans s2 q = chans s1 q" "t_loopInthisThread s2 = (t_loopInthisThread s1)(t := Some l)"
      "\<forall>j. thread_of s2 j = (if j = l then t else thread_of s1 j)" by blast
  from start_one_run [where place = place and i = k and num = num1 and cb = cb and pool = "pool\<lparr>pool_threads := ths, pool_loops := pool_loops pool @ ?L k\<rparr>", OF pk s2(1)]
  obtain ths2 num2 where "start_one os False place cb k (pool\<lparr>pool_threads := ths, pool_loops := pool_loops pool @ ?L k\<rparr>, num1, s1) =
      Inr (pool\<lparr>pool_threads := ths2, pool_loops := pool_loops pool @ ?L (Suc k)\<rparr>, num2, s2)" by (auto simp: pk)
  then have "foldr_res (start_one os False place cb) [0..<Suc k] (pool, num, s) =
      Inr (pool\<lparr>pool_threads := ths2, pool_loops := pool_loops pool @ ?L (Suc k)\<rparr>, num2, s2)"
    using s1(1) by (simp add: foldr_res_append)
  moreover have "(Ls @ ?L k) @ [l] = Ls @ ?L (Suc k)" by (simp add: pk)
  ultimately show ?case using s2(2-5) s1(3-5)
    by (intro exI [of _ ths2] exI [of _ num2] exI [of _ s2]) (auto simp: pk lessThan_Suc)
qed

subsection \<open>The invariant is reached\<close>

lemma running_start:
  assumes rdy: "loops_ready os (all_loops s) {(acc_chan (srv_acceptor (srv s)), base s)} s"
    and none: "conns s = Map.empty" "connections (srv s) = []" and names: "names_ok (srv s)" and pool: "pool_ok (srv_pool (srv s))"
    and cb: "hasNewConnectionCb (srv_acceptor (srv s))" "srvConnectionCb (srv s)" "srvMessageCb (srv s)" "\<not> srvWriteCb (srv s)"
    and below: "\<And>p c. chans s p = Some c \<Longrightarrow> p < next_chan s"
    and acc: "chans s (acc_chan (srv_acceptor (srv s))) = Some c" "ch_loop c = base s"
      "callbacks_of c = (Some AcceptorHandleRead, None, None, None)" "\<not> listenning (srv_acceptor (srv s))"
  shows "running_inv os no_batch {} {} {} {} s"
proof -
  have empty: "queued_in s l = []" if l: "l \<in> set (all_loops s)" for l
  proof -
    from loops_ready_loop [OF rdy l] obtain lp where "loops s l = Some lp" "pendingFunctors lp = []" by blast
    then show ?thesis by (simp add: queued_in_def)
  qed
  have "inj_on (thread_of s) (set (all_loops s))"
  proof (rule inj_onI)
    fix k l assume kl: "k \<in> set (all_loops s)" "l \<in> set (all_loops s)" "thread_of s k = thread_of s l"
    have "t_loopInthisThread s (thread_of s j) = Some j" if j: "j \<in> set (all_loops s)" for j
    proof -
      from loops_ready_loop [OF rdy j] obtain lp where "loops s j = Some lp" "t_loopInthisThread s (threadId lp) = Some j" by blast
      then show ?thesis by (simp add: thread_of_def)
    qed
    from this [OF kl(1)] this [OF kl(2)] show "k = l" unfolding kl(3) by (rule option.inject [THEN iffD1, OF trans [OF sym]])
  qed
  moreover have "\<exists>lp c. loops s l = Some lp \<and> chans s (wakeupChannel lp) = Some c \<and> ch_loop c = l \<and> ch_fd c = wakeFd lp \<and>
      callbacks_of c = (Some (LoopHandleRead l), None, None, None)" if l: "l \<in> set (all_loops s)" for l
    using loops_ready_loop [OF rdy l] by blast
  ultimately have "loops_wf os s" using rdy unfolding loops_wf_def loops_ready_def by blast
  moreover have "chans_wf s"
    unfolding chans_wf_def
  proof (intro conjI allI impI)
    fix p c assume p: "chans s p = Some c"
    note f = loops_ready_chanD [OF rdy p]
    show "p < next_chan s" by (rule below [OF p])
    show "ch_fd c \<in> open_fds (io_trace s)" "\<not> isWriting c" "ch_loop c \<in> set (all_loops s)" using f by blast+
    show "chan_kind s p c" using f(4) by (auto simp: chan_kind_def is_wakeup_def)
  next
    show "p = q" if "chans s p = Some c" "chans s q = Some d" "ch_fd c = ch_fd d" for p q c d
      using loops_ready_chanD(5) [OF rdy that(2,1,3)] .
  qed
  moreover have "queues_wf no_batch s"
    using empty worker_loop [of _ s] base_loop [of s] by (simp add: queues_wf_def waiting_def)
  moreover have "server_inv s" using names by (simp add: server_inv_def none)
  moreover have "acceptor_wf s" using acc by (simp add: acceptor_wf_def)
  ultimately show ?thesis using pool cb by (simp add: running_inv_def conns_wf_def life_wf_def none(1))
qed

text \<open>\<open>listen\<close>, in the base loop.\<close>

lemma running_put_acceptor:
  assumes inv: "running_inv os B X E C D s"
    and acc: "acc_chan a = acc_chan (srv_acceptor (srv s))" "hasNewConnectionCb a = hasNewConnectionCb (srv_acceptor (srv s))"
      "chans s (acc_chan a) = Some c" "ch_index c = kAdded" "ch_events c AND kReadEvent = kReadEvent"
  shows "running_inv os B X E C D (put_srv ((srv s)\<lparr>srv_acceptor := a\<rparr>) s)"
proof -
  note wf = running_invD [OF inv]
  let ?s = "put_srv ((srv s)\<lparr>srv_acceptor := a\<rparr>) s"
  have L: "all_loops ?s = all_loops s" by (simp add: server_loops_def)
  have q: "waiting B ?s l = waiting B s l" for l by (simp add: waiting_def queued_in_def)
  have "reg_inv os l ?s" if "l \<in> set (all_loops s)" for l
    by (rule reg_inv_alike [where s = s]) (use wf(2) that in \<open>simp_all add: loops_wf_def rel_option_reflI\<close>)
  then have "loops_wf os ?s" by (intro loops_wf_cong [OF wf(2) L]) (auto simp: sig_of_def)
  moreover have "chans_wf ?s" using wf(3) by (simp add: chans_wf_def chan_kind_def server_loops_def acc)
  moreover have "conns_wf X ?s" using wf(4) by (simp add: conns_wf_def has_name_def)
  moreover have "queues_wf B ?s"
    using wf(5) by (simp add: queues_wf_def q base_functor_def worker_functor_def chan_index_def)
  moreover have "life_wf B E C D ?s" using wf(6) by (simp add: life_wf_def q held_def chan_index_def watched_def)
  moreover have "server_inv ?s" using wf(1) by (simp add: server_inv_def names_ok_def)
  moreover have "acceptor_wf ?s" using wf(8) acc(1,3-5) by (simp add: acceptor_wf_def)
  ultimately show ?thesis using inv acc by (simp add: running_inv_def)
qed

lemma running_listen:
  assumes inv: "running_inv os no_batch {} {} {} {} s" and none: "conns s = Map.empty" and sk: "sockets_given os"
    and c: "chans s (acc_chan (srv_acceptor (srv s))) = Some c" "callbacks_of c = (Some AcceptorHandleRead, None, None, None)"
  shows "\<exists>s'. server_listen os me s = Inr s' \<and> running_inv os no_batch {} {} {} {} s' \<and> all_loops s' = all_loops s \<and>
    (\<forall>k. sig_of s' k = sig_of s k) \<and> nextConnId (srv s') = nextConnId (srv s) \<and> listenning (srv_acceptor (srv s')) \<and>
    (\<forall>k. queued_in s' k = queued_in s k)"
proof -
  let ?a = "srv_acceptor (srv s)"
  let ?p = "acc_chan ?a" and ?k = "Listen (acc_fd ?a) 1024"
  define s1 where "s1 = snd (do_call os me ?k s)"
  have i1: "running_inv os no_batch {} {} {} {} s1" "stays s s1" using running_call [OF inv, of ?k me] by (simp_all add: s1_def)
  have same1: "chans s1 = chans s" "srv s1 = srv s" "conns s1 = conns s" by (simp_all add: s1_def)
  have "ret (os (io_trace s) ?k) = 0" using sk by (simp add: sockets_given_def)
  then have li: "socket_listen os me (acc_fd ?a) s = Inr s1" by (simp add: socket_listen_def split_beta Let_def s1_def)
  note wf = running_invD [OF i1(1)]
  have c1: "chans s1 ?p = Some c" using c(1) same1 by simp
  have loc: "ch_loop c \<in> set (all_loops s1)" and nw: "\<not> isWriting c" using wf(3) c1 unfolding chans_wf_def by blast+
  let ?d = "c\<lparr>ch_events := change_events EnableReading (ch_events c)\<rparr>"
  let ?e = "?d\<lparr>ch_index := index_after_update ?d\<rparr>"
  from set_events_one [OF wf(2) loc c1 refl, where chg = EnableReading and me = me] obtain s2 where
    s2: "set_events os me EnableReading ?p s1 = Inr s2" "one_channel os (ch_loop c) ?p ?e s1 s2" by blast
  note one = one_channelD [OF s2(2)]
  have upd: "chan_update c ?e"
    using nw change_events_writing(3) by (auto simp: chan_update_def chan_static_def callbacks_of_def isWriting_def)
  have i2: "running_inv os no_batch {} {} {} {} s2"
  proof (rule running_update [OF i1(1) one(3)])
    show "server_inv s2" using keeps_server.R_frame [OF one(1)] wf(1) by (simp add: keeps_server_def)
    show "rel_option chan_update (chans s1 q) (chans s2 q)" for q
      using c1 upd unfolding one(6) by (auto simp: chan_update_def intro!: rel_option_reflI)
    show "rel_option (conn_update no_batch {} {} {} s1 s2 k) (conns s1 k) (conns s2 k)" for k
      by (simp add: one(2) same1(3) none)
    have "chan_static ?e = chan_static c" by (simp add: chan_static_def callbacks_of_def)
    moreover obtain "ch_loop c = base s1" using wf(8) c1 unfolding acceptor_wf_def same1(2) by auto
    ultimately show "acceptor_wf s2" using c(2) reading_added [of "ch_events c"]
      by (simp add: acceptor_wf_def one(3,6) same1(2) chan_static_def index_after_update_def isNoneEvent_def)
  qed (simp_all add: one(5,7,9,10) waiting_def one(8))
  let ?sv = "(srv s2)\<lparr>srv_acceptor := ?a\<lparr>listenning := True\<rparr>\<rparr>"
  have "server_listen os me s = Inr (put_srv ?sv s2)"
    using li s2(1) by (simp add: server_listen_def acceptor_listen_def)
  moreover have sv: "srv s2 = srv s" using one(3) same1(2) by simp
  moreover have "running_inv os no_batch {} {} {} {} (put_srv ?sv s2)"
    by (rule running_put_acceptor [OF i2, where c = ?e])
      (use reading_added [of "ch_events c"] in \<open>simp_all add: sv one(6) index_after_update_def isNoneEvent_def\<close>)
  moreover have "sig_of (put_srv ?sv s2) k = sig_of s k" for k using one(7) i1(2) by (simp add: sig_of_def stays_def)
  moreover have "queued_in (put_srv ?sv s2) k = queued_in s k" for k using one(8) by (simp add: queued_in_def s1_def)
  ultimately show ?thesis using sv by (simp add: server_loops_def)
qed

subsection \<open>A server is constructed and started\<close>

text \<open>
  \<open>n\<close> worker threads; \<open>place\<close> says where the threads, their loops and the wakeup channels end up:
  everywhere different, and different from what is there.
\<close>

lemma server_comes_up:
  assumes rdy: "loops_ready os [l] {} s" and me: "thread_of s l = me" and none: "conns s = Map.empty"
    and os: "loop_fds_given os" "new_fds_documented os" "sockets_given os" and n: "0 < n"
    and fresh: "fresh_places place 0 n s"
    and below: "\<And>p. chans s p \<noteq> None \<Longrightarrow> p < next_chan s" "\<And>i. i < n \<Longrightarrow> snd (snd (place i)) < next_chan s"
    and f: "f = (\<lambda>sv. setThreadNum (int n) (setMessageCallback True (setConnectionCallback True sv)))"
  shows "\<exists>s'. rbind (mkTcpServer os me (Some l) addr name reuse s)
      (\<lambda>s. server_start os me uc False place init_cb (put_srv (f (srv s)) s)) = Inr s' \<and>
    running_inv os no_batch {} {} {} {} s' \<and> all_loops s' = l # map (\<lambda>i. fst (snd (place i))) [0..<n] \<and>
    nextConnId (srv s') = 1 \<and> thread_of s' l = me \<and> listenning (srv_acceptor (srv s')) \<and>
    (\<forall>j \<in> set (all_loops s'). queued_in s' j = [])"
proof -
  let ?p = "next_chan s" and ?L = "map (\<lambda>i. fst (snd (place i))) [0..<n]"
  have p: "chans s ?p = None" using below(1) by blast
  from loops_ready_acceptor [OF rdy _ p os(2,3), where me = me and l = l and addr = addr and reuse = reuse] obtain a s1 c where
    s1: "mkAcceptor os me l addr reuse ?p s = Inr (a, s1)" "loops_ready os [l] {(?p, l)} s1" "acc_chan a = ?p"
      "chans s1 = (chans s)(?p := Some c)" "loops s1 = loops s" "t_loopInthisThread s1 = t_loopInthisThread s"
      "callbacks_of c = (Some AcceptorHandleRead, None, None, None)" "\<not> listenning a" by auto
  have nf: "net_frame s s1"
    using s1(1) by (auto simp: mkAcceptor_def CreateNoblocking_def bindAddress_def setReuseAddr_def setReusePort_def
        setOption_def rbind_eq_Inr Let_def split_beta split: if_splits dest!: upd_chan_net)
  have same1: "conns s1 = Map.empty" "next_chan s1 = next_chan s"
    using net_frame_conns [OF nf] net_frame_chan_id [OF nf] none by simp_all
  define sv where "sv = f \<lparr>srv_loop = l, ipPort = toIpPort addr, srv_name = name,
         srv_acceptor = a\<lparr>hasNewConnectionCb := True\<rparr>, srv_pool = mkThreadPool l name,
         srvConnectionCb = False, srvMessageCb = False, srvWriteCb = False, srvThreadInitCb = False,
         srv_started = 0, nextConnId = 1, connections = []\<rparr>"
  define s2 where "s2 = put_srv sv (s1\<lparr>next_chan := Suc ?p, srv := sv\<rparr>)"
  have "rbind (mkTcpServer os me (Some l) addr name reuse s)
      (\<lambda>s. server_start os me uc False place init_cb (put_srv (f (srv s)) s)) = server_start os me uc False place init_cb s2"
    using s1(1) same1(2) by (simp add: mkTcpServer_def CheckLoopNotNull_def s2_def sv_def put_srv_def)
  note built = this
  define s3 where "s3 = put_srv (sv\<lparr>srv_started := 1\<rparr>) s2"
  have svf: "srv_started sv = 0" "srvThreadInitCb sv = False" "srv_pool sv = (mkThreadPool l name)\<lparr>numThreads := int n\<rparr>"
    by (simp_all add: sv_def f setter_defs)
  have s3: "chans s3 = chans s1" "loops s3 = loops s1" "t_loopInthisThread s3 = t_loopInthisThread s1" "io_trace s3 = io_trace s1"
    "conns s3 = Map.empty" "next_chan s3 = Suc ?p" "srv s3 = sv\<lparr>srv_started := 1\<rparr>"
    by (simp_all add: s3_def s2_def put_srv_def same1)
  have rdy3: "loops_ready os [l] {(?p, l)} s3" by (rule loops_ready_same [OF s1(2)]) (simp_all add: s3)
  from loops_ready_loop [OF rdy, of l] obtain w wc where "chans s w = Some wc" "ch_loop wc = l" by auto
  then have nl: "fst (snd (place i)) \<noteq> l" if "i < n" for i using fresh_placesD(3) [OF fresh le0 that] by metis
  have nd: "ch_loop d = l" if "chans s3 q = Some d" for q d using loops_ready_chanD(3) [OF rdy3 that] by simp
  have fresh3: "fresh_places place 0 n s3"
    unfolding fresh_places_def case_prod_beta
  proof (intro conjI ballI impI allI)
    fix j assume "j \<in> {0..<n}"
    then have j: "j < n" by simp
    note fj = fresh_placesD [OF fresh le0 j]
    show "t_loopInthisThread s3 (fst (place j)) = None" using fj(1) by (simp add: s3 s1)
    show "chans s3 (snd (snd (place j))) = None" using fj(2) below(2) [OF j] by (simp add: s3 s1)
    show "ch_loop d \<noteq> fst (snd (place j))" if "chans s3 q = Some d" for q d using nl [OF j] nd [OF that] by simp
    fix k assume k: "k \<in> {0..<n}" "j \<noteq> k"
    then show "fst (place j) \<noteq> fst (place k)" "fst (snd (place j)) \<noteq> fst (snd (place k))"
      "snd (snd (place j)) \<noteq> snd (snd (place k))" using fj(4-6) [of k] by simp_all
  qed
  let ?pool = "(mkThreadPool l name)\<lparr>numThreads := int n, pool_started := True\<rparr>"
  from loops_ready_pool [OF rdy3 os(1,2) fresh3 order_refl, where cb = False and pool = ?pool and num = "numCreated s3"]
  obtain ths num s4 where s4: "foldr_res (start_one os False place False) [0..<n] (?pool, numCreated s3, s3) =
      Inr (?pool\<lparr>pool_threads := ths, pool_loops := pool_loops ?pool @ ?L\<rparr>, num, s4)"
    "loops_ready os ([l] @ ?L) {(?p, l)} s4"
    "\<forall>q. q \<notin> (\<lambda>i. snd (snd (place i))) ` {..<n} \<longrightarrow> chans s4 q = chans s3 q"
    "\<forall>j. j \<notin> (\<lambda>i. fst (snd (place i))) ` {..<n} \<longrightarrow> thread_of s4 j = thread_of s3 j"
    by (elim exE conjE) (rule that)
  let ?pool4 = "?pool\<lparr>pool_threads := ths, pool_loops := ?L\<rparr>"
  have start: "pool_start os False place None (srv_pool (srv s3), numCreated s3, s3) = Inr (?pool4, num, s4)"
    using s4(1) n by (simp add: pool_start_def s3(7) svf(3)) (simp add: mkThreadPool_def)
  note nf4 = pool_start_net [OF _ start]
  have same4: "conns s4 = Map.empty" "next_chan s4 = Suc ?p" "srv s4 = sv\<lparr>srv_started := 1\<rparr>"
    using net_frame_conns [OF nf4] net_frame_chan_id [OF nf4] net_frame_srv [OF nf4 refl] by (simp_all add: s3)
  define s5 where "s5 = put_srv ((srv s4)\<lparr>srv_pool := ?pool4\<rparr>) (s4\<lparr>numCreated := num\<rparr>)"
  have s5: "chans s5 = chans s4" "loops s5 = loops s4" "io_trace s5 = io_trace s4" "t_loopInthisThread s5 = t_loopInthisThread s4"
    "conns s5 = Map.empty" "next_chan s5 = Suc ?p" "srv s5 = sv\<lparr>srv_started := 1, srv_pool := ?pool4\<rparr>"
    by (simp_all add: s5_def put_srv_def same4)
  have svf5: "srv_loop sv = l" "acc_chan (srv_acceptor sv) = ?p" "hasNewConnectionCb (srv_acceptor sv)" "srvConnectionCb sv"
    "srvMessageCb sv" "\<not> srvWriteCb sv" "nextConnId sv = 1" "connections sv = []" "ipPort sv = toIpPort addr"
    "\<not> listenning (srv_acceptor sv)"
    by (simp_all add: sv_def f setter_defs s1(3,8))
  have loops5: "all_loops s5 = l # ?L" by (simp add: server_loops_def s5(7) svf5)
  have out: "?p \<notin> (\<lambda>i. snd (snd (place i))) ` {..<n}" using below(2) by fastforce
  have c5: "chans s5 (acc_chan (srv_acceptor (srv s5))) = Some c" using s4(3) out by (simp add: s5(1,7) svf5 s3 s1(4))
  have cl: "ch_loop c = l" using loops_ready_chanD(3) [OF s1(2), of ?p c] s1(4) by simp
  have "running_inv os no_batch {} {} {} {} s5"
  proof (rule running_start [OF _ _ _ _ _ _ _ _ _ _ c5 _ s1(7)])
    show "loops_ready os (all_loops s5) {(acc_chan (srv_acceptor (srv s5)), base s5)} s5"
      using loops_ready_same [OF s4(2) s5(1-4)] by (simp add: loops5) (simp add: s5(7) svf5)
    show "pool_ok (srv_pool (srv s5))" using n by (simp add: s5(7) pool_ok_def mkThreadPool_def)
    show "q < next_chan s5" if q: "chans s5 q = Some d" for q d
    proof (cases "q \<in> (\<lambda>i. snd (snd (place i))) ` {..<n}")
      case True
      then show ?thesis using below(2) by (auto simp: s5(6) less_Suc_eq)
    next
      case False
      then have "chans s1 q = Some d" using q s4(3) by (simp add: s5(1) s3)
      then show ?thesis using below(1) [of q] by (auto simp: s1(4) s5(6) less_Suc_eq split: if_splits)
    qed
  qed (auto simp: s5(5,7) svf5 names_ok_def INT_MAX_def cl)
  from running_listen [OF this s5(5) os(3) c5 s1(7), where me = me] obtain s6 where
    s6: "server_listen os me s5 = Inr s6" "running_inv os no_batch {} {} {} {} s6" "all_loops s6 = all_loops s5"
      "\<forall>k. sig_of s6 k = sig_of s5 k" "nextConnId (srv s6) = nextConnId (srv s5)" "listenning (srv_acceptor (srv s6))"
      "\<forall>k. queued_in s6 k = queued_in s5 k" by blast
  have "thread_of s5 l = thread_of s4 l" "thread_of s3 l = thread_of s l" by (simp_all add: thread_of_def s5 s3 s1)
  moreover have "l \<notin> (\<lambda>i. fst (snd (place i))) ` {..<n}" using nl by auto
  then have "thread_of s4 l = thread_of s3 l" using s4(4) by blast
  ultimately have th: "thread_of s5 l = me" using me by simp
  from loops_ready_loop [OF s4(2), of l] obtain lp where lp: "loops s5 l = Some lp" by (auto simp: s5(2))
  then have "runInLoop os me (server_run os me uc) l AcceptorListen s5 = Inr s6"
    using th s6(1) by (simp add: runInLoop_def isInLoopThread_def thread_of_def server_run_def)
  moreover have "srv s2 = sv" by (simp add: s2_def)
  ultimately have "server_start os me uc False place init_cb s2 = Inr s6"
    using start [unfolded s3(7)] svf(1,2) same4(3) svf5(1)
    by (simp add: server_start_def s3_def [symmetric] s5_def [unfolded same4(3), symmetric] Let_def s3(7))
  moreover have "thread_of s6 l = thread_of s5 l" using s6(4) by (blast intro: sig_of_SomeD(1))
  then have "thread_of s6 l = me" using th by simp
  moreover have "queued_in s6 j = []" if "j \<in> set (all_loops s6)" for j
  proof -
    have "j \<in> set ([l] @ ?L)" using that by (simp add: s6(3) loops5)
    from loops_ready_loop [OF s4(2) this] obtain kp where "loops s4 j = Some kp" "pendingFunctors kp = []" by auto
    then have "queued_in s5 j = []" by (simp add: queued_in_def s5(2))
    then show ?thesis using s6(7) by metis
  qed
  ultimately show ?thesis using built s6(2,3,5,6) loops5 by (simp add: s5(7) svf5)
qed

end
