(* ===== verification/ServerSteps.thy ===== *)
theory ServerSteps
  imports ServerStart
begin

section \<open>Threads that interleave\<close>

text \<open>
  The loops of a server run in threads of their own. Here a step is one call of a thread: entering
  \<open>EventLoop::loop\<close>, a poll unless the loop has been told to quit, the handling of one active channel,
  taking the queue, one functor, the end of a batch, dropping one reference of a closure that was
  run. The threads take steps in any order, so that the batches of several loops are under way at
  the same time. A connection is freed when the last reference goes, those of the batches of other
  threads included.
\<close>

subsection \<open>Where a thread is\<close>

text \<open>\<open>Running fs all\<close>: \<open>fs\<close> is what is left of the batch \<open>all\<close>; all its closures live to the end.\<close>

datatype phase = Entering | Polling | Left | Handling "chan_id list" int | Running "Functor list" "Functor list" | Dropping "conn_id list"

fun phase_refs :: "phase \<Rightarrow> conn_id set" where
  "phase_refs (Running fs all) = set (owners all)"
| "phase_refs (Dropping ks) = set ks"
| "phase_refs _ = {}"

definition held_refs :: "(loop_id \<Rightarrow> phase) \<Rightarrow> loop_id list \<Rightarrow> conn_id set" where
  "held_refs ph ls = (\<Union>l \<in> set ls. phase_refs (ph l))"

text \<open>One step of the thread of the loop \<open>l\<close>: the body of \<open>EventLoop::loop\<close> with \<open>doPendingFunctors\<close>.\<close>

definition thread_step :: "os \<Rightarrow> user_code \<Rightarrow> inet_address \<Rightarrow> loop_id \<Rightarrow> (loop_id \<Rightarrow> phase) \<times> 'a server_net_scheme \<Rightarrow>
    ((loop_id \<Rightarrow> phase) \<times> 'a server_net_scheme) res" where
  "thread_step os uc d l st = (case st of (ph, s) \<Rightarrow> let me = thread_of s l in
     case ph l of
       Entering \<Rightarrow> rbind (loop_enter l s) (\<lambda>s. Inr (ph(l := Polling), s))
     | Left \<Rightarrow> Inr (ph, s)
     | Polling \<Rightarrow> rbind (get_loop s l) (\<lambda>lp.
         if quit_flag lp then rbind (loop_leave l s) (\<lambda>s. Inr (ph(l := Left), s))
         else rbind (poll_phase os me l s) (\<lambda>(active, now, s). Inr (ph(l := Handling active now), s)))
     | Handling [] now \<Rightarrow> rbind (set_calling True l s) (\<lambda>s. rbind (swap_pending l s) (\<lambda>(fs, s).
         Inr (ph(l := Running fs fs), s)))
     | Handling (p # ps) now \<Rightarrow> rbind (handleEvent (\<lambda>c s. conns s c \<noteq> None) (server_cb os me uc d) p now s)
         (\<lambda>s. Inr (ph(l := Handling ps now), s))
     | Running [] all \<Rightarrow> rbind (set_calling False l s) (\<lambda>s. Inr (ph(l := Dropping (owners all)), s))
     | Running (f # fs) all \<Rightarrow> rbind (server_run os me uc f s) (\<lambda>s. Inr (ph(l := Running fs all), s))
     | Dropping [] \<Rightarrow> Inr (ph(l := Polling), s)
     | Dropping (k # ks) \<Rightarrow> let ph = ph(l := Dropping ks) in
         rbind (release os me (held_refs ph (server_loops (srv s))) k s) (\<lambda>s. Inr (ph, s)))"

text \<open>A schedule: the loops whose threads take the steps.\<close>

fun thread_steps :: "os \<Rightarrow> user_code \<Rightarrow> inet_address \<Rightarrow> loop_id list \<Rightarrow> (loop_id \<Rightarrow> phase) \<times> 'a server_net_scheme \<Rightarrow>
    ((loop_id \<Rightarrow> phase) \<times> 'a server_net_scheme) res" where
  "thread_steps os uc d [] st = Inr st"
| "thread_steps os uc d (l # ls) st = rbind (thread_step os uc d l st) (thread_steps os uc d ls)"

subsection \<open>The invariant\<close>

definition batch_of :: "(loop_id \<Rightarrow> phase) \<Rightarrow> loop_id \<Rightarrow> Functor list" where
  "batch_of ph l = (case ph l of Running fs all \<Rightarrow> fs | _ \<Rightarrow> [])"

fun phase_ok :: "'a reactor_scheme \<Rightarrow> loop_id \<Rightarrow> phase \<Rightarrow> bool" where
  "phase_ok s l (Handling ps now) = (\<forall>p \<in> set ps. \<exists>c. chans s p = Some c \<and> ch_loop c = l \<and> ch_index c \<noteq> kNew)"
| "phase_ok s l (Running fs all) = (set fs \<subseteq> set all)"
| "phase_ok s l _ = True"

definition steps_inv :: "os \<Rightarrow> (loop_id \<Rightarrow> phase) \<times> 'a server_net_scheme \<Rightarrow> bool" where
  "steps_inv os st \<longleftrightarrow> (case st of (ph, s) \<Rightarrow>
     running_inv os (batch_of ph) {} {} {} (held_refs ph (all_loops s)) s \<and> (\<forall>l \<in> set (all_loops s). phase_ok s l (ph l)))"

lemma batch_of_upd: "batch_of (ph(l := x)) = (batch_of ph)(l := (case x of Running fs all \<Rightarrow> fs | _ \<Rightarrow> []))"
  by (simp add: batch_of_def fun_eq_iff)

lemma held_refs_upd:
  assumes "l \<in> set ls" shows "held_refs (ph(l := x)) ls = phase_refs x \<union> held_refs (ph(l := Polling)) ls"
  using assms by (auto simp: held_refs_def split: if_splits)

lemma held_refs_self: "l \<in> set ls \<Longrightarrow> held_refs ph ls = phase_refs (ph l) \<union> held_refs (ph(l := Polling)) ls"
  using held_refs_upd [of l ls ph "ph l"] by simp

lemma held_refs_mono: "l \<in> set ls \<Longrightarrow> phase_refs (ph l) \<subseteq> phase_refs x \<Longrightarrow> held_refs ph ls \<subseteq> held_refs (ph(l := x)) ls"
  unfolding held_refs_def by (rule UN_mono) auto

lemma held_refs_same: "l \<in> set ls \<Longrightarrow> phase_refs x = phase_refs (ph l) \<Longrightarrow> held_refs (ph(l := x)) ls = held_refs ph ls"
  by (auto simp: held_refs_def split: if_splits)

text \<open>The other threads are where they were, on channels that are still there.\<close>

lemma phases_kept:
  assumes ok: "\<forall>k \<in> set (all_loops s). phase_ok s k (ph k)" and L: "all_loops s' = all_loops s"
    and keep: "\<And>p c. chans s p = Some c \<Longrightarrow> ch_index c \<noteq> kNew \<Longrightarrow> ch_loop c \<noteq> l \<Longrightarrow>
      \<exists>c'. chans s' p = Some c' \<and> ch_loop c' = ch_loop c \<and> ch_index c' \<noteq> kNew"
    and l: "phase_ok s' l x"
  shows "\<forall>k \<in> set (all_loops s'). phase_ok s' k ((ph(l := x)) k)"
proof
  fix k assume "k \<in> set (all_loops s')"
  then have k: "phase_ok s k (ph k)" using ok L by simp
  show "phase_ok s' k ((ph(l := x)) k)"
  proof (cases "k = l")
    case True
    with l show ?thesis by simp
  next
    case False
    show ?thesis
    proof (cases "ph k")
      case (Handling ps now)
      have "\<exists>c. chans s' p = Some c \<and> ch_loop c = k \<and> ch_index c \<noteq> kNew" if "p \<in> set ps" for p
        using k Handling that keep [of p] False by fastforce
      with Handling False show ?thesis by simp
    qed (use k False in simp_all)
  qed
qed

lemma steps_invI:
  assumes "running_inv os (batch_of ph') {} {} {} (held_refs ph' (all_loops s')) s'" "\<forall>k \<in> set (all_loops s'). phase_ok s' k (ph' k)"
  shows "steps_inv os (ph', s')"
  using assms by (simp add: steps_inv_def)

text \<open>What a step keeps besides.\<close>

definition step_kept :: "int \<Rightarrow> 'a server_net_scheme \<Rightarrow> 'a server_net_scheme \<Rightarrow> bool" where
  "step_kept n s s' \<longleftrightarrow> all_loops s' = all_loops s \<and> (\<forall>k. sig_of s' k = sig_of s k) \<and> nextConnId (srv s') \<le> nextConnId (srv s) + n \<and>
     srv_acceptor (srv s') = srv_acceptor (srv s)"

lemma same_shape_kept: "same_shape l s s' \<Longrightarrow> step_kept 0 s s'"
  by (simp add: same_shape_def step_kept_def)

lemma same_shape_chans:
  "same_shape l s s' \<Longrightarrow> chans s p = Some c \<Longrightarrow> ch_index c \<noteq> kNew \<Longrightarrow> ch_loop c \<noteq> l \<Longrightarrow>
    \<exists>c'. chans s' p = Some c' \<and> ch_loop c' = ch_loop c \<and> ch_index c' \<noteq> kNew"
  by (simp add: same_shape_def)

subsection \<open>Every step is safe\<close>

text \<open>A step that only writes into the loop.\<close>

lemma step_put:
  assumes inv: "steps_inv os (ph, s)" and l: "l \<in> set (all_loops s)" and lp: "loops s l = Some lp"
    and u: "loop_update lp lp'" "pendingFunctors lp' = pendingFunctors lp"
    and x: "phase_refs x = phase_refs (ph l)" "batch_of (ph(l := x)) = batch_of ph" "phase_ok (put_loop l lp' s) l x"
  shows "steps_inv os (ph(l := x), put_loop l lp' s) \<and> step_kept 0 s (put_loop l lp' s)"
proof -
  have i: "running_inv os (batch_of ph) {} {} {} (held_refs ph (all_loops s)) s" "\<forall>l \<in> set (all_loops s). phase_ok s l (ph l)"
    using inv by (simp_all add: steps_inv_def)
  have s': "running_inv os (batch_of ph) {} {} {} (held_refs ph (all_loops s)) (put_loop l lp' s)" "stays s (put_loop l lp' s)"
    by (rule running_loop_update [OF i(1) lp u(1), where B' = "batch_of ph"]; simp add: u)+
  note sh = stays_shape [OF s'(2), of l]
  have L: "all_loops (put_loop l lp' s) = all_loops s" using sh by (simp add: same_shape_def)
  have "held_refs (ph(l := x)) (all_loops s) = held_refs ph (all_loops s)" by (rule held_refs_same [where ph = ph, OF l x(1)])
  then have "running_inv os (batch_of (ph(l := x))) {} {} {} (held_refs (ph(l := x)) (all_loops (put_loop l lp' s))) (put_loop l lp' s)"
    using s'(1) L x(2) by simp
  moreover have "\<forall>k \<in> set (all_loops (put_loop l lp' s)). phase_ok (put_loop l lp' s) k ((ph(l := x)) k)"
    by (rule phases_kept [OF i(2) L same_shape_chans [OF sh]]) (simp_all add: x(3))
  ultimately show ?thesis using same_shape_kept [OF sh] by (intro conjI steps_invI)
qed

lemma step_enter:
  assumes inv: "steps_inv os (ph, s)" and l: "l \<in> set (all_loops s)" and ph: "ph l = Entering"
  shows "\<exists>ph' s'. thread_step os uc d l (ph, s) = Inr (ph', s') \<and> steps_inv os (ph', s') \<and> step_kept 0 s s'"
proof -
  have "running_inv os (batch_of ph) {} {} {} (held_refs ph (all_loops s)) s" using inv by (simp add: steps_inv_def)
  from running_loop [OF this l] obtain lp where lp: "loops s l = Some lp" by metis
  have "steps_inv os (ph(l := Polling), put_loop l (lp\<lparr>looping := True, quit_flag := False\<rparr>) s) \<and>
      step_kept 0 s (put_loop l (lp\<lparr>looping := True, quit_flag := False\<rparr>) s)"
    by (rule step_put [OF inv l lp]) (simp_all add: ph loop_update_def loop_sig_def batch_of_def fun_eq_iff)
  then show ?thesis using lp ph by (auto simp: thread_step_def loop_enter_def upd_loop_def)
qed

lemma step_poll:
  assumes inv: "steps_inv os (ph, s)" and l: "l \<in> set (all_loops s)" and doc: "epoll_wait_documented os" and ph: "ph l = Polling"
  shows "\<exists>ph' s'. thread_step os uc d l (ph, s) = Inr (ph', s') \<and> steps_inv os (ph', s') \<and> step_kept 0 s s'"
proof -
  have i: "running_inv os (batch_of ph) {} {} {} (held_refs ph (all_loops s)) s" "\<forall>k \<in> set (all_loops s). phase_ok s k (ph k)"
    using inv by (simp_all add: steps_inv_def)
  from running_loop [OF i(1) l] obtain lp where lp: "loops s l = Some lp" by metis
  show ?thesis
  proof (cases "quit_flag lp")
    case True
    have "steps_inv os (ph(l := Left), put_loop l (lp\<lparr>looping := False\<rparr>) s) \<and> step_kept 0 s (put_loop l (lp\<lparr>looping := False\<rparr>) s)"
      by (rule step_put [OF inv l lp]) (simp_all add: ph loop_update_def loop_sig_def batch_of_def fun_eq_iff)
    then show ?thesis using lp ph True by (auto simp: thread_step_def loop_leave_def upd_loop_def get_loop_def)
  next
    case False
  from poll_runs [OF i(1) l doc, where me = "thread_of s l"] obtain active now s' where
    s': "poll_phase os (thread_of s l) l s = Inr (active, now, s')"
      "running_inv os (batch_of ph) {} {} {} (held_refs ph (all_loops s)) s'" "stays s s'"
      "\<forall>p \<in> set active. \<exists>c. chans s' p = Some c \<and> ch_loop c = l \<and> ch_index c \<noteq> kNew" by blast
  note sh = stays_shape [OF s'(3), of l]
  have L: "all_loops s' = all_loops s" using sh by (simp add: same_shape_def)
  let ?ph = "ph(l := Handling active now)"
  have "batch_of ?ph = batch_of ph" using ph by (simp add: batch_of_def fun_eq_iff)
  moreover have "held_refs ?ph (all_loops s) = held_refs ph (all_loops s)" by (rule held_refs_same [OF l]) (simp add: ph)
  ultimately have "running_inv os (batch_of ?ph) {} {} {} (held_refs ?ph (all_loops s')) s'" using s'(2) L by simp
  moreover have "\<forall>k \<in> set (all_loops s'). phase_ok s' k (?ph k)"
    by (rule phases_kept [OF i(2) L same_shape_chans [OF sh]]) (simp_all add: s'(4))
  ultimately show ?thesis using s'(1) ph lp False same_shape_kept [OF sh] by (auto simp: thread_step_def get_loop_def intro: steps_invI)
  qed
qed

lemma step_event:
  assumes inv: "steps_inv os (ph, s)" and l: "l \<in> set (all_loops s)" and uc: "local_user uc"
    and os: "short_messages os" "new_fds_documented os" and id: "nextConnId (srv s) + is_acceptor s p \<le> INT_MAX" and ph: "ph l = Handling (p # ps) now"
  shows "\<exists>ph' s'. thread_step os uc d l (ph, s) = Inr (ph', s') \<and> steps_inv os (ph', s') \<and> step_kept (is_acceptor s p) s s'"
proof -
  have i: "running_inv os (batch_of ph) {} {} {} (held_refs ph (all_loops s)) s" "\<forall>k \<in> set (all_loops s). phase_ok s k (ph k)"
    using inv by (simp_all add: steps_inv_def)
  from i(2) l ph have act: "\<forall>q \<in> set (p # ps). \<exists>c. chans s q = Some c \<and> ch_loop c = l \<and> ch_index c \<noteq> kNew" by fastforce
  then obtain c where c: "chans s p = Some c" "ch_loop c = l" "ch_index c \<noteq> kNew" by auto
  from running_event [OF i(1) c(1,3) _ uc os id, where me = "thread_of s l" and d = d and t = now] c(2) obtain s' where
    s': "handleEvent (\<lambda>c s. conns s c \<noteq> None) (server_cb os (thread_of s l) uc d) p now s = Inr s'"
      "running_inv os (batch_of ph) {} {} {} (held_refs ph (all_loops s)) s'" "grows (is_acceptor s p) s s'" by blast
  have L: "all_loops s' = all_loops s" using s'(3) by (simp add: grows_def)
  have keep: "\<exists>c'. chans s' q = Some c' \<and> ch_loop c' = ch_loop e \<and> ch_index c' \<noteq> kNew" if "chans s q = Some e" "ch_index e \<noteq> kNew" for q e
    using grows_chan [OF s'(3) that(1)] that(2) by metis
  let ?ph = "ph(l := Handling ps now)"
  have "batch_of ?ph = batch_of ph" using ph by (simp add: batch_of_def fun_eq_iff)
  moreover have "held_refs ?ph (all_loops s) = held_refs ph (all_loops s)" by (rule held_refs_same [OF l]) (simp add: ph)
  ultimately have "running_inv os (batch_of ?ph) {} {} {} (held_refs ?ph (all_loops s')) s'" using s'(2) L by simp
  moreover have "phase_ok s' l (Handling ps now)" using act keep by fastforce
  then have "\<forall>k \<in> set (all_loops s'). phase_ok s' k (?ph k)"
    by (intro phases_kept [OF i(2) L, where l = l]) (use keep in blast)+
  moreover have "step_kept (is_acceptor s p) s s'" using s'(3) by (simp only: grows_def step_kept_def simp_thms)
  ultimately show ?thesis using s'(1) ph by (auto simp: thread_step_def intro: steps_invI)
qed

lemma step_take:
  assumes inv: "steps_inv os (ph, s)" and l: "l \<in> set (all_loops s)" and ph: "ph l = Handling [] now"
  shows "\<exists>ph' s'. thread_step os uc d l (ph, s) = Inr (ph', s') \<and> steps_inv os (ph', s') \<and> step_kept 0 s s'"
proof -
  have i: "running_inv os (batch_of ph) {} {} {} (held_refs ph (all_loops s)) s" "\<forall>k \<in> set (all_loops s). phase_ok s k (ph k)"
    using inv by (simp_all add: steps_inv_def)
  from running_loop [OF i(1) l] obtain lp where lp: "loops s l = Some lp" by metis
  let ?fs = "pendingFunctors lp"
  define s' where "s' = put_loop l (lp\<lparr>callingPendingFunctors := True, pendingFunctors := []\<rparr>) s"
  have run: "rbind (set_calling True l s) (swap_pending l) = Inr (?fs, s')"
    using lp by (simp add: set_calling_def swap_pending_def s'_def put_loop_def)
  let ?ph = "ph(l := Running ?fs ?fs)"
  have b: "batch_of ph l = []" using ph by (simp add: batch_of_def)
  have s': "running_inv os ((batch_of ph)(l := ?fs)) {} {} {} (held_refs ph (all_loops s)) s'" "stays s s'"
    unfolding s'_def
    by (rule running_loop_update [OF i(1) lp, where B' = "(batch_of ph)(l := ?fs)"]; simp add: loop_update_def loop_sig_def b)+
  note sh = stays_shape [OF s'(2), of l]
  have L: "all_loops s' = all_loops s" using sh by (simp add: same_shape_def)
  have "held_refs ph (all_loops s) \<subseteq> held_refs ?ph (all_loops s')"
    unfolding L by (rule held_refs_mono [OF l]) (simp add: ph)
  then have "running_inv os (batch_of ?ph) {} {} {} (held_refs ?ph (all_loops s')) s'"
    using running_mono [OF s'(1) order_refl] by (simp add: batch_of_upd)
  moreover have "\<forall>k \<in> set (all_loops s'). phase_ok s' k (?ph k)"
    by (rule phases_kept [OF i(2) L same_shape_chans [OF sh]]) simp_all
  moreover have "thread_step os uc d l (ph, s) = Inr (?ph, s')"
    using run ph by (cases "set_calling True l s") (auto simp: thread_step_def)
  ultimately show ?thesis using same_shape_kept [OF sh] by (auto intro: steps_invI)
qed

lemma step_functor:
  assumes inv: "steps_inv os (ph, s)" and l: "l \<in> set (all_loops s)" and uc: "local_user uc" and ph: "ph l = Running (f # fs) all"
  shows "\<exists>ph' s'. thread_step os uc d l (ph, s) = Inr (ph', s') \<and> steps_inv os (ph', s') \<and> step_kept 0 s s'"
proof -
  have i: "running_inv os (batch_of ph) {} {} {} (held_refs ph (all_loops s)) s" "\<forall>k \<in> set (all_loops s). phase_ok s k (ph k)"
    using inv by (simp_all add: steps_inv_def)
  have b: "batch_of ph = (batch_of ph)(l := f # fs)" using ph by (simp add: batch_of_def fun_eq_iff)
  have sub: "set (f # fs) \<subseteq> set all" using i(2) l ph by fastforce
  have D: "k \<in> held_refs ph (all_loops s)" if "f = ConnectDestroyed k" for k
  proof -
    have "k \<in> set (owners all)" using that sub by (force simp: set_owners)
    then show ?thesis using held_refs_self [OF l, of ph] ph by simp
  qed
  have "running_inv os ((batch_of ph)(l := f # fs)) {} {} {} (held_refs ph (all_loops s)) s" using i(1) by (subst (asm) b)
  from functor_runs [where os = os and me = "thread_of s l", OF this l refl uc D] obtain s' where
    s': "server_run os (thread_of s l) uc f s = Inr s'"
      "running_inv os ((batch_of ph)(l := fs)) {} {} {} (held_refs ph (all_loops s)) s'" "same_shape l s s'" by blast
  have L: "all_loops s' = all_loops s" using s'(3) by (simp add: same_shape_def)
  let ?ph = "ph(l := Running fs all)"
  have "held_refs ?ph (all_loops s) = held_refs ph (all_loops s)" by (rule held_refs_same [OF l]) (simp add: ph)
  then have "running_inv os (batch_of ?ph) {} {} {} (held_refs ?ph (all_loops s')) s'" using s'(2) L by (simp add: batch_of_upd)
  moreover have "\<forall>k \<in> set (all_loops s'). phase_ok s' k (?ph k)"
    by (rule phases_kept [OF i(2) L same_shape_chans [OF s'(3)]]) (use sub in simp_all)
  ultimately show ?thesis using s'(1) ph same_shape_kept [OF s'(3)] by (auto simp: thread_step_def intro: steps_invI)
qed

lemma step_batch_end:
  assumes inv: "steps_inv os (ph, s)" and l: "l \<in> set (all_loops s)" and ph: "ph l = Running [] all"
  shows "\<exists>ph' s'. thread_step os uc d l (ph, s) = Inr (ph', s') \<and> steps_inv os (ph', s') \<and> step_kept 0 s s'"
proof -
  have "running_inv os (batch_of ph) {} {} {} (held_refs ph (all_loops s)) s" using inv by (simp add: steps_inv_def)
  from running_loop [OF this l] obtain lp where lp: "loops s l = Some lp" by metis
  have "steps_inv os (ph(l := Dropping (owners all)), put_loop l (lp\<lparr>callingPendingFunctors := False\<rparr>) s) \<and>
      step_kept 0 s (put_loop l (lp\<lparr>callingPendingFunctors := False\<rparr>) s)"
    by (rule step_put [OF inv l lp]) (simp_all add: ph loop_update_def loop_sig_def batch_of_def fun_eq_iff)
  then show ?thesis using lp ph by (auto simp: thread_step_def set_calling_def)
qed

lemma step_drop:
  assumes inv: "steps_inv os (ph, s)" and l: "l \<in> set (all_loops s)" and ph: "ph l = Dropping ks"
  shows "\<exists>ph' s'. thread_step os uc d l (ph, s) = Inr (ph', s') \<and> steps_inv os (ph', s') \<and> step_kept 0 s s'"
proof -
  have i: "running_inv os (batch_of ph) {} {} {} (held_refs ph (all_loops s)) s" "\<forall>k \<in> set (all_loops s). phase_ok s k (ph k)"
    using inv by (simp_all add: steps_inv_def)
  show ?thesis
  proof (cases ks)
    case Nil
    let ?ph = "ph(l := Polling)"
    have "batch_of ?ph = batch_of ph" using ph by (simp add: batch_of_def fun_eq_iff)
    moreover have "held_refs ?ph (all_loops s) = held_refs ph (all_loops s)" by (rule held_refs_same [OF l]) (simp add: ph Nil)
    ultimately have "steps_inv os (?ph, s)" using i by (intro steps_invI) simp_all
    then show ?thesis using ph Nil by (simp add: thread_step_def step_kept_def)
  next
    case (Cons k ks')
    let ?ph = "ph(l := Dropping ks')"
    let ?P = "held_refs ?ph (all_loops s)"
    have b: "batch_of ?ph = batch_of ph" using ph by (simp add: batch_of_def fun_eq_iff)
    have cover: "\<forall>j \<in> set (all_loops s). set (owners (batch_of ph j)) \<subseteq> ?P"
    proof
      fix j assume j: "j \<in> set (all_loops s)"
      show "set (owners (batch_of ph j)) \<subseteq> ?P"
      proof (cases "ph j")
        case (Running fs all)
        then have "set fs \<subseteq> set all" "j \<noteq> l" using i(2) j ph by fastforce+
        then have "set (owners fs) \<subseteq> phase_refs (?ph j)" using Running by (auto simp: set_owners)
        then show ?thesis using j Running by (auto simp: held_refs_def batch_of_def)
      qed (simp_all add: batch_of_def owners_def)
    qed
    have "held_refs ph (all_loops s) = insert k ?P"
      using held_refs_self [OF l, of ph] held_refs_upd [OF l, of ph "Dropping ks'"] ph Cons by auto
    then have D: "held_refs ph (all_loops s) - ({k} - ?P) = ?P" by auto
    from release_runs [OF i(1) cover, where k = k and me = "thread_of s l", unfolded D] obtain s' where
      s': "release os (thread_of s l) ?P k s = Inr s'" "running_inv os (batch_of ph) {} {} {} ?P s'" "same_shape l s s'" by blast
    have L: "all_loops s' = all_loops s" using s'(3) by (simp add: same_shape_def)
    have "\<forall>k \<in> set (all_loops s'). phase_ok s' k (?ph k)"
      by (rule phases_kept [OF i(2) L same_shape_chans [OF s'(3)]]) simp_all
    then have "steps_inv os (?ph, s')" using s'(2) by (intro steps_invI) (simp_all add: b L)
    then show ?thesis using s'(1) ph Cons same_shape_kept [OF s'(3)] by (auto simp: thread_step_def)
  qed
qed

definition accepting :: "(loop_id \<Rightarrow> phase) \<Rightarrow> loop_id \<Rightarrow> 'a server_net_scheme \<Rightarrow> int" where
  "accepting ph l s = (case ph l of Handling (p # ps) now \<Rightarrow> is_acceptor s p | _ \<Rightarrow> 0)"

lemma accepting_bounds: "0 \<le> accepting ph l s" "accepting ph l s \<le> 1"
  by (simp_all add: accepting_def split: phase.split list.split)

lemma step_runs:
  assumes "steps_inv os (ph, s)" "l \<in> set (all_loops s)" "local_user uc" "nextConnId (srv s) + accepting ph l s \<le> INT_MAX"
    "epoll_wait_documented os" "short_messages os" "new_fds_documented os"
  shows "\<exists>ph' s'. thread_step os uc d l (ph, s) = Inr (ph', s') \<and> steps_inv os (ph', s') \<and> step_kept (accepting ph l s) s s'"
proof (cases "ph l")
  case Entering
  then have "accepting ph l s = 0" by (simp add: accepting_def)
  with assms Entering show ?thesis by (simp add: step_enter)
next
  case Left
  with assms show ?thesis by (simp add: thread_step_def step_kept_def accepting_def)
next
  case Polling
  then have "accepting ph l s = 0" by (simp add: accepting_def)
  with assms Polling show ?thesis by (simp add: step_poll)
next
  case (Handling ps now)
  show ?thesis
  proof (cases ps)
    case Nil
    then have "accepting ph l s = 0" by (simp add: accepting_def Handling)
    with assms Handling Nil show ?thesis by (simp add: step_take)
  next
    case (Cons p qs)
    then have a: "accepting ph l s = is_acceptor s p" by (simp add: accepting_def Handling)
    from assms(4) show ?thesis unfolding a
      by (rule step_event [OF assms(1-3,6,7)]) (simp add: Handling Cons)
  qed
next
  case (Running fs all)
  then have "accepting ph l s = 0" by (simp add: accepting_def)
  with assms Running show ?thesis by (cases fs) (simp_all add: step_batch_end step_functor)
next
  case (Dropping ks)
  then have "accepting ph l s = 0" by (simp add: accepting_def)
  with assms Dropping show ?thesis by (simp add: step_drop)
qed

lemma steps_run:
  assumes "steps_inv os (ph, s)" "set ls \<subseteq> set (all_loops s)" "local_user uc" "nextConnId (srv s) + int (length ls) \<le> INT_MAX"
    "epoll_wait_documented os" "short_messages os" "new_fds_documented os"
  shows "\<exists>ph' s'. thread_steps os uc d ls (ph, s) = Inr (ph', s') \<and> steps_inv os (ph', s') \<and> all_loops s' = all_loops s \<and>
    (\<forall>k. sig_of s' k = sig_of s k) \<and> nextConnId (srv s') \<le> nextConnId (srv s) + int (length ls) \<and>
    srv_acceptor (srv s') = srv_acceptor (srv s)"
  using assms(1,2,4)
proof (induction ls arbitrary: ph s)
  case Nil
  then show ?case by simp
next
  case (Cons l ls)
  have "l \<in> set (all_loops s)" "nextConnId (srv s) + accepting ph l s \<le> INT_MAX"
    using Cons.prems accepting_bounds(2) [of ph l s] by simp_all
  from step_runs [OF Cons.prems(1) this(1) assms(3) this(2) assms(5-7), of d] obtain ph1 s1 where
    s1: "thread_step os uc d l (ph, s) = Inr (ph1, s1)" "steps_inv os (ph1, s1)" "step_kept (accepting ph l s) s s1" by blast
  have "set ls \<subseteq> set (all_loops s1)" "nextConnId (srv s1) + int (length ls) \<le> INT_MAX"
    using Cons.prems(2,3) s1(3) accepting_bounds(2) [of ph l s] by (simp_all add: step_kept_def)
  from Cons.IH [OF s1(2) this] s1(1,3) accepting_bounds(2) [of ph l s] show ?case by (fastforce simp: step_kept_def)
qed

subsection \<open>A turn is a sequence of steps\<close>

text \<open>
  As long as no other thread is inside its batch, the steps of one thread from poll to poll are the
  turn \<open>server_turn\<close> of theory TcpServer.
\<close>

definition own_steps :: "os \<Rightarrow> user_code \<Rightarrow> inet_address \<Rightarrow> loop_id \<Rightarrow> (loop_id \<Rightarrow> phase) \<times> 'a server_net_scheme \<Rightarrow>
    (loop_id \<Rightarrow> phase) \<times> 'a server_net_scheme \<Rightarrow> bool" where
  "own_steps os uc d l st st' \<longleftrightarrow> (\<exists>m. thread_steps os uc d (replicate m l) st = Inr st')"

lemma thread_steps_append: "thread_steps os uc d (ks @ ls) st = rbind (thread_steps os uc d ks st) (thread_steps os uc d ls)"
proof (induction ks arbitrary: st)
  case (Cons k ks)
  then show ?case by (cases "thread_step os uc d k st") simp_all
qed simp

lemma own_steps_refl: "own_steps os uc d l st st"
  by (auto simp: own_steps_def intro: exI [of _ 0])

lemma own_steps_trans:
  assumes "own_steps os uc d l st st1" "own_steps os uc d l st1 st2" shows "own_steps os uc d l st st2"
proof -
  from assms obtain m n where "thread_steps os uc d (replicate m l) st = Inr st1" "thread_steps os uc d (replicate n l) st1 = Inr st2"
    by (auto simp: own_steps_def)
  then have "thread_steps os uc d (replicate (m + n) l) st = Inr st2" by (simp add: replicate_add thread_steps_append)
  then show ?thesis unfolding own_steps_def by blast
qed

lemma own_step: "thread_step os uc d l st = Inr st1 \<Longrightarrow> own_steps os uc d l st st1"
  by (auto simp: own_steps_def intro: exI [of _ 1])

lemma events_own_steps:
  assumes "running_inv os B {} {} {} D s" "distinct ps"
    "\<forall>p \<in> set ps. \<exists>c. chans s p = Some c \<and> ch_loop c = l \<and> ch_index c \<noteq> kNew"
    "thread_of s l = me" "local_user uc" "short_messages os" "new_fds_documented os"
    "nextConnId (srv s) + (if acc_chan (srv_acceptor (srv s)) \<in> set ps then 1 else 0) \<le> INT_MAX"
  shows "\<exists>s'. foldr_res (\<lambda>p. handleEvent (\<lambda>c s. conns s c \<noteq> None) (server_cb os me uc d) p t) ps s = Inr s' \<and>
    own_steps os uc d l (ph(l := Handling ps t), s) (ph(l := Handling [] t), s') \<and>
    running_inv os B {} {} {} D s' \<and> grows (if acc_chan (srv_acceptor (srv s)) \<in> set ps then 1 else 0) s s'"
  using assms
proof (induction ps arbitrary: s)
  case Nil
  then show ?case using stays_grows [OF stays_refl, of 0 s] own_steps_refl by simp
next
  case (Cons p ps)
  from Cons.prems(3) obtain c where c: "chans s p = Some c" "ch_loop c = l" "ch_index c \<noteq> kNew" by auto
  let ?n = "if acc_chan (srv_acceptor (srv s)) \<in> set ps then 1 else 0 :: int"
  have id: "nextConnId (srv s) + is_acceptor s p + ?n \<le> INT_MAX" using Cons.prems(2,8) by (auto split: if_splits)
  then have "nextConnId (srv s) + is_acceptor s p \<le> INT_MAX" by (auto split: if_splits)
  from running_event [OF Cons.prems(1) c(1,3) _ Cons.prems(5-7) this, of me "\<lambda>c s. conns s c \<noteq> None" d t] c(2) Cons.prems(4) obtain s1 where
    s1: "handleEvent (\<lambda>c s. conns s c \<noteq> None) (server_cb os me uc d) p t s = Inr s1" "running_inv os B {} {} {} D s1"
      "grows (is_acceptor s p) s s1" by auto
  have "thread_step os uc d l (ph(l := Handling (p # ps) t), s) = Inr (ph(l := Handling ps t), s1)"
    using s1(1) Cons.prems(4) by (simp add: thread_step_def)
  note step = own_step [OF this]
  have same: "srv_acceptor (srv s1) = srv_acceptor (srv s)" using s1(3) by (simp add: grows_def)
  have act: "\<forall>q \<in> set ps. \<exists>e. chans s1 q = Some e \<and> ch_loop e = l \<and> ch_index e \<noteq> kNew"
  proof
    fix q assume "q \<in> set ps"
    with Cons.prems(3) obtain e where e: "chans s q = Some e" "ch_loop e = l" "ch_index e \<noteq> kNew" by auto
    from grows_chan [OF s1(3) e(1)] e(2,3) show "\<exists>e. chans s1 q = Some e \<and> ch_loop e = l \<and> ch_index e \<noteq> kNew" by metis
  qed
  have d1: "distinct ps" using Cons.prems(2) by simp
  have n1: "nextConnId (srv s1) + (if acc_chan (srv_acceptor (srv s1)) \<in> set ps then 1 else 0) \<le> INT_MAX"
    using s1(3) id by (simp add: grows_def)
  have t1: "thread_of s1 l = me" using grows_thread [OF s1(3)] Cons.prems(4) by simp
  from Cons.IH [OF s1(2) d1 act t1 Cons.prems(5-7) n1] obtain s2 where s2: "foldr_res (\<lambda>p. handleEvent (\<lambda>c s. conns s c \<noteq> None) (server_cb os me uc d) p t) ps s1 = Inr s2"
    "own_steps os uc d l (ph(l := Handling ps t), s1) (ph(l := Handling [] t), s2)"
    "running_inv os B {} {} {} D s2" "grows ?n s1 s2"
    unfolding same by blast
  have "is_acceptor s p + ?n = (if acc_chan (srv_acceptor (srv s)) \<in> set (p # ps) then 1 else 0)"
    using Cons.prems(2) by auto
  with grows_trans [OF s1(3) s2(4)] s1(1) s2(1,3) own_steps_trans [OF step s2(2)] show ?case
    by (intro exI [of _ s2]) (simp only: foldr_res.simps rbind_Inr simp_thms)
qed

lemma functors_own_steps:
  assumes "running_inv os (B(l := fs)) {} {} {} D s" "l \<in> set (all_loops s)" "thread_of s l = me" "local_user uc"
    "\<And>k. ConnectDestroyed k \<in> set fs \<Longrightarrow> k \<in> D"
  shows "\<exists>s'. foldr_res (server_run os me uc) fs s = Inr s' \<and>
    own_steps os uc d l (ph(l := Running fs all), s) (ph(l := Running [] all), s') \<and>
    running_inv os (B(l := [])) {} {} {} D s' \<and> same_shape l s s'"
  using assms(1-3,5)
proof (induction fs arbitrary: s)
  case Nil
  then show ?case by (simp add: own_steps_refl)
next
  case (Cons f fs)
  have D: "k \<in> D" if "f = ConnectDestroyed k" for k using Cons.prems(4) that by simp
  from functor_runs [OF Cons.prems(1-3) assms(4) D] obtain s1 where s1: "server_run os me uc f s = Inr s1"
    "running_inv os (B(l := fs)) {} {} {} D s1" "same_shape l s s1" by blast
  have "thread_step os uc d l (ph(l := Running (f # fs) all), s) = Inr (ph(l := Running fs all), s1)"
    using s1(1) Cons.prems(3) by (simp add: thread_step_def)
  note step = own_step [OF this]
  have l1: "l \<in> set (all_loops s1)" "thread_of s1 l = me"
    using Cons.prems(2,3) same_shape_loops(3) [OF s1(3)] same_shape_thread [OF s1(3)] by simp_all
  have "k \<in> D" if "ConnectDestroyed k \<in> set fs" for k using Cons.prems(4) that by simp
  from Cons.IH [OF s1(2) l1 this] obtain s2 where "foldr_res (server_run os me uc) fs s1 = Inr s2"
    "own_steps os uc d l (ph(l := Running fs all), s1) (ph(l := Running [] all), s2)"
    "running_inv os (B(l := [])) {} {} {} D s2" "same_shape l s1 s2" by blast
  with s1(1) same_shape_trans [OF s1(3)] own_steps_trans [OF step] show ?case
    by (intro exI [of _ s2]) (simp only: foldr_res.simps rbind_Inr simp_thms)
qed

lemma release_same:
  assumes "release os me P k s = Inr s'" shows "srv s' = srv s" "loops s' = loops s"
  using assms by (auto simp: release_def closeTcpConnection_def Let_def rbind_eq_Inr split: if_splits)

lemma drops_own_steps:
  assumes "drop_list os me ks s = Inr s'" "l \<in> set (all_loops s)" "thread_of s l = me"
    "\<forall>k \<in> set (all_loops s). k \<noteq> l \<longrightarrow> phase_refs (ph k) = {}"
  shows "own_steps os uc d l (ph(l := Dropping ks), s) (ph(l := Polling), s')"
  using assms
proof (induction ks arbitrary: s)
  case Nil
  have "thread_step os uc d l (ph(l := Dropping []), s) = Inr ((ph(l := Dropping []))(l := Polling), s)"
    by (simp add: thread_step_def)
  with Nil show ?case by (simp only: fun_upd_upd drop_list.simps sum.inject) (rule own_step)
next
  case (Cons k ks)
  from Cons.prems(1) obtain s1 where s1: "release os me (set ks) k s = Inr s1" "drop_list os me ks s1 = Inr s'"
    by (auto simp: rbind_eq_Inr)
  note same = release_same [OF s1(1)]
  have "held_refs (ph(l := Dropping ks)) (all_loops s) = set ks"
    using Cons.prems(2,4) by (auto simp: held_refs_def split: if_splits)
  then have "thread_step os uc d l (ph(l := Dropping (k # ks)), s) = Inr (ph(l := Dropping ks), s1)"
    using s1(1) Cons.prems(3) by (simp add: thread_step_def)
  note step = own_step [OF this]
  have "thread_of s1 l = me" "l \<in> set (all_loops s1)" "\<forall>k \<in> set (all_loops s1). k \<noteq> l \<longrightarrow> phase_refs (ph k) = {}"
    using Cons.prems(2-4) same by (simp_all add: thread_of_def)
  from own_steps_trans [OF step Cons.IH [OF s1(2) this(2,1,3)]] show ?case .
qed

definition told_to_quit :: "'a reactor_scheme \<Rightarrow> loop_id \<Rightarrow> bool" where
  "told_to_quit s l = (case loops s l of None \<Rightarrow> False | Some lp \<Rightarrow> quit_flag lp)"

lemma turn_own_steps:
  assumes inv: "steps_inv os (ph, s)" and l: "l \<in> set (all_loops s)" and ph: "ph l = Polling" and q: "\<not> told_to_quit s l"
    and alone: "\<forall>k \<in> set (all_loops s). phase_refs (ph k) = {}" and uc: "local_user uc" and id: "nextConnId (srv s) < INT_MAX"
    and os: "epoll_wait_documented os" "short_messages os" "new_fds_documented os"
  shows "\<exists>s'. server_turn os (thread_of s l) uc d l s = Inr s' \<and> own_steps os uc d l (ph, s) (ph, s')"
proof -
  define me where "me = thread_of s l"
  define B where "B = batch_of ph"
  have "held_refs ph (all_loops s) = {}" using alone by (simp add: held_refs_def)
  then have i: "running_inv os B {} {} {} {} s" using inv by (simp add: steps_inv_def B_def)
  have Bl: "B l = []" using ph by (simp add: B_def batch_of_def)
  from running_loop [OF i l] obtain lp where lp: "loops s l = Some lp" by metis
  from poll_runs [OF i l os(1), of me] obtain active now s1 where
    s1: "poll_phase os me l s = Inr (active, now, s1)" "running_inv os B {} {} {} {} s1" "stays s s1" "distinct active"
      "\<forall>p \<in> set active. \<exists>c. chans s1 p = Some c \<and> ch_loop c = l \<and> ch_index c \<noteq> kNew" by blast
  have "thread_step os uc d l (ph, s) = Inr (ph(l := Handling active now), s1)"
    using s1(1) lp ph q by (simp add: thread_step_def me_def get_loop_def told_to_quit_def)
  note poll = own_step [OF this]
  let ?n = "if acc_chan (srv_acceptor (srv s1)) \<in> set active then 1 else 0 :: int"
  have "thread_of s1 l = me" using stays_thread [OF s1(3)] by (simp add: me_def)
  moreover have "nextConnId (srv s1) + ?n \<le> INT_MAX" using id s1(3) by (simp add: stays_def)
  ultimately obtain s2 where s2: "foldr_res (\<lambda>p. handleEvent (\<lambda>c s. conns s c \<noteq> None) (server_cb os me uc d) p now) active s1 = Inr s2"
    "own_steps os uc d l (ph(l := Handling active now), s1) (ph(l := Handling [] now), s2)"
    "running_inv os B {} {} {} {} s2" "grows ?n s1 s2"
    using events_own_steps [OF s1(2,4,5) _ uc os(2,3), where ph = ph and t = now and d = d] by blast
  have "grows (0 + ?n) s s2" by (rule grows_trans [OF stays_grows [OF s1(3)] s2(4)]) simp
  note g = this
  have l2: "l \<in> set (all_loops s2)" "thread_of s2 l = me" using g l grows_thread [OF g] by (simp_all add: grows_def me_def)
  from running_loop [OF s2(3) l2(1)] obtain lp2 where lp2: "loops s2 l = Some lp2" by metis
  let ?lp1 = "lp2\<lparr>callingPendingFunctors := True\<rparr>" and ?fs = "pendingFunctors lp2"
  let ?lp2 = "lp2\<lparr>callingPendingFunctors := True, pendingFunctors := []\<rparr>"
  define s3 where "s3 = put_loop l ?lp2 s2"
  have start: "set_calling True l s2 = Inr (put_loop l ?lp1 s2)" "swap_pending l (put_loop l ?lp1 s2) = Inr (?fs, s3)"
    using lp2 by (simp_all add: set_calling_def swap_pending_def put_loop_def s3_def)
  have "thread_step os uc d l (ph(l := Handling [] now), s2) = Inr (ph(l := Running ?fs ?fs), s3)"
    using start by (simp add: thread_step_def)
  note take = own_step [OF this]
  let ?D = "set (owners ?fs)"
  have i3: "running_inv os (B(l := ?fs)) {} {} {} {} s3" "stays s2 s3"
    unfolding s3_def by (rule running_loop_update [OF s2(3) lp2, where B' = "B(l := ?fs)"]; simp add: loop_update_def loop_sig_def Bl)+
  have l3: "l \<in> set (all_loops s3)" "thread_of s3 l = me"
    using l2 same_shape_loops(3) [OF stays_shape [OF i3(2)]] stays_thread [OF i3(2)] by simp_all
  have "k \<in> ?D" if "ConnectDestroyed k \<in> set ?fs" for k using that by (force simp: set_owners)
  from functors_own_steps [OF running_mono [OF i3(1) order_refl empty_subsetI] l3 uc this, where ph = ph and all = ?fs and d = d]
  obtain s4 where s4: "foldr_res (server_run os me uc) ?fs s3 = Inr s4"
    "own_steps os uc d l (ph(l := Running ?fs ?fs), s3) (ph(l := Running [] ?fs), s4)"
    "running_inv os (B(l := [])) {} {} {} ?D s4" "same_shape l s3 s4" by blast
  have l4: "l \<in> set (all_loops s4)" "thread_of s4 l = me"
    using l3 same_shape_loops(3) [OF s4(4)] same_shape_thread [OF s4(4)] by simp_all
  from running_loop [OF s4(3) l4(1)] obtain lp4 where lp4: "loops s4 l = Some lp4" by metis
  define s5 where "s5 = put_loop l (lp4\<lparr>callingPendingFunctors := False\<rparr>) s4"
  have i5: "running_inv os (B(l := [])) {} {} {} ?D s5" "stays s4 s5"
    unfolding s5_def by (rule running_loop_update [OF s4(3) lp4, where B' = "B(l := [])"]; simp add: loop_update_def loop_sig_def)+
  have run5: "set_calling False l s4 = Inr s5" using lp4 by (simp add: set_calling_def s5_def)
  then have "thread_step os uc d l (ph(l := Running [] ?fs), s4) = Inr (ph(l := Dropping (owners ?fs)), s5)"
    by (simp add: thread_step_def)
  note finish = own_step [OF this]
  have "all_loops s4 = all_loops s"
    using g same_shape_loops(3) [OF stays_shape [OF i3(2)]] same_shape_loops(3) [OF s4(4)] by (simp add: grows_def)
  then have L5: "all_loops s5 = all_loops s" using same_shape_loops(3) [OF stays_shape [OF i5(2)]] by simp
  have l5: "l \<in> set (all_loops s5)" "thread_of s5 l = me" using l L5 l4 stays_thread [OF i5(2)] by simp_all
  have "owners ((B(l := [])) k) = []" if k: "k \<in> set (all_loops s)" for k
  proof (cases "ph k")
    case (Running fs all)
    then have "set fs \<subseteq> set all" "owners all = []" using inv k alone by (fastforce simp: steps_inv_def)+
    from this(1) have "set (owners fs) \<subseteq> set (owners all)" unfolding set_owners by blast
    then show ?thesis using \<open>owners all = []\<close> Running by (simp add: B_def batch_of_def) (simp add: owners_def)
  qed (simp_all add: B_def batch_of_def owners_def)
  with L5 have "\<forall>k \<in> set (all_loops s5). owners ((B(l := [])) k) = []" by simp
  from drop_refs_runs [OF i5(1) this, of me l] obtain s6 where s6: "drop_refs os me ?fs s5 = Inr s6" by blast
  have "\<forall>k \<in> set (all_loops s5). k \<noteq> l \<longrightarrow> phase_refs (ph k) = {}" using alone L5 by simp
  from drops_own_steps [OF s6 [unfolded drop_refs_def] l5 this] have drop: "own_steps os uc d l (ph(l := Dropping (owners ?fs)), s5) (ph(l := Polling), s6)" .
  have "server_turn os me uc d l s = Inr s6"
    using s1(1) s2(1) start s4(1) run5 s6 by (simp add: server_turn_def loop_turn_def doPendingFunctors_def)
  moreover have "own_steps os uc d l (ph, s) (ph(l := Polling), s6)"
    by (rule own_steps_trans [OF poll own_steps_trans [OF s2(2) own_steps_trans [OF take own_steps_trans [OF s4(2)
          own_steps_trans [OF finish drop]]]]])
  then have "own_steps os uc d l (ph, s) (ph, s6)" using ph by (metis fun_upd_triv)
  ultimately show ?thesis unfolding me_def by blast
qed

end
