(* ===== verification/ServerMain.thy ===== *)
theory ServerMain
  imports ServerSteps
begin

section \<open>A whole server\<close>

text \<open>
  From the first statement of \<open>main\<close> on: a program makes an \<open>EventLoop\<close> and a \<open>TcpServer\<close> on it, sets the
  callbacks and the number of threads and starts the server; then its threads run. The lemmas here
  say in which states the program can be; the root theory states what follows.
\<close>

subsection \<open>The program and the process\<close>

definition server_setup :: "os \<Rightarrow> tid \<Rightarrow> user_code \<Rightarrow> nat \<Rightarrow> inet_address \<Rightarrow> string \<Rightarrow> bool \<Rightarrow> loop_id \<Rightarrow> chan_id \<Rightarrow>
    (nat \<Rightarrow> tid \<times> loop_id \<times> chan_id) \<Rightarrow> 'a server_net_scheme \<Rightarrow> 'a server_net_scheme res" where
  "server_setup os me uc n addr name reuse l p place s =
     rbind (mkEventLoop os me False l p s) (\<lambda>s.
     rbind (mkTcpServer os me (Some l) addr name reuse s) (\<lambda>s.
     server_start os me uc False place (\<lambda>_. Inr)
       (put_srv (setThreadNum (int n) (setMessageCallback True (setConnectionCallback True (srv s)))) s)))"

lemma echo_setup_eq:
  "echo_setup os me False inet_addr l p place s =
    server_setup os me echo_user 3 (mkInetAddress inet_addr 1997 ''127.0.0.1'') ''EchoServer-01'' False l p place s"
  by (simp add: echo_setup_def server_setup_def mkEchoServer_def rbind_assoc echo_start_def [abs_def])

text \<open>Where the threads, loops and wakeup channels of a server with \<open>n\<close> workers are going to be.\<close>

definition places_differ :: "tid \<Rightarrow> loop_id \<Rightarrow> chan_id \<Rightarrow> (nat \<Rightarrow> tid \<times> loop_id \<times> chan_id) \<Rightarrow> nat \<Rightarrow> bool" where
  "places_differ me l p place n \<longleftrightarrow> distinct (me # map (\<lambda>i. fst (place i)) [0..<n]) \<and>
     distinct (l # map (\<lambda>i. fst (snd (place i))) [0..<n]) \<and> distinct (p # map (\<lambda>i. snd (snd (place i))) [0..<n])"

lemma distinct_places:
  "distinct (x # map f [0..<n]) \<longleftrightarrow> (\<forall>i < n. f i \<noteq> x) \<and> (\<forall>i < n. \<forall>j < n. i \<noteq> j \<longrightarrow> f i \<noteq> f j)"
proof -
  have "inj_on f {0..<n} \<longleftrightarrow> (\<forall>i < n. \<forall>j < n. i \<noteq> j \<longrightarrow> f i \<noteq> f j)" unfolding inj_on_def by (meson atLeastLessThan_iff le0)
  moreover have "x \<in> f ` {0..<n} \<longleftrightarrow> (\<exists>i < n. f i = x)" by auto
  ultimately show ?thesis by (simp add: distinct_map)
qed

definition worker_loops :: "(nat \<Rightarrow> tid \<times> loop_id \<times> chan_id) \<Rightarrow> nat \<Rightarrow> loop_id list" where
  "worker_loops place n = map (\<lambda>i. fst (snd (place i))) [0..<n]"

text \<open>Before \<open>main\<close>: no channel, no connection, no loop of any thread; new addresses are not those of the wakeup channels.\<close>

definition fresh_process :: "chan_id \<Rightarrow> (nat \<Rightarrow> tid \<times> loop_id \<times> chan_id) \<Rightarrow> nat \<Rightarrow> 'a server_net_scheme \<Rightarrow> bool" where
  "fresh_process p place n s \<longleftrightarrow> chans s = Map.empty \<and> conns s = Map.empty \<and> t_loopInthisThread s = Map.empty \<and>
     p < next_chan s \<and> (\<forall>i < n. snd (snd (place i)) < next_chan s)"

text \<open>The manual pages, for a kernel with enough memory, ports and descriptors.\<close>

definition kernel_documented :: "os \<Rightarrow> bool" where
  "kernel_documented os \<longleftrightarrow> loop_fds_given os \<and> new_fds_documented os \<and> sockets_given os \<and> epoll_wait_documented os"

subsection \<open>Coming up\<close>

lemma server_setup_runs:
  assumes pl: "places_differ me l p place n" and s: "fresh_process p place n s" and os: "kernel_documented os" and n: "0 < n"
  shows "\<exists>s'. server_setup os me uc n addr name reuse l p place s = Inr s' \<and>
    running_inv os no_batch {} {} {} {} s' \<and> all_loops s' = l # worker_loops place n \<and> nextConnId (srv s') = 1 \<and>
    listenning (srv_acceptor (srv s')) \<and> thread_of s' l = me \<and> (\<forall>j \<in> set (all_loops s'). queued_in s' j = [])"
proof -
  note os = os [unfolded kernel_documented_def]
  have new: "new_loop_ok os me l p s" using s os by (simp add: new_loop_ok_def fresh_process_def loop_fds_given_def)
  have none: "loops_ready os [] {} s" using s by (simp add: loops_ready_none fresh_process_def)
  from loops_ready_add [OF none new] os obtain s1 where
    s1: "mkEventLoop os me False l p s = Inr s1" "loops_ready os [l] {} s1" "\<forall>q. q \<noteq> p \<longrightarrow> chans s1 q = chans s q"
      "t_loopInthisThread s1 = (t_loopInthisThread s)(me := Some l)" "\<forall>k. thread_of s1 k = (if k = l then me else thread_of s k)"
    by auto
  have ch: "q = p" if "chans s1 q \<noteq> None" for q using that s1(3) s by (auto simp: fresh_process_def)
  have nf: "net_frame s s1"
    using s1(1) by (rule mkEventLoop_net)
  have same: "conns s1 = Map.empty" "next_chan s1 = next_chan s"
    using net_frame_conns [OF nf] net_frame_chan_id [OF nf] s by (simp_all add: fresh_process_def)
  have "fresh_places place 0 n s1"
    unfolding fresh_places_def case_prod_beta
  proof (intro conjI ballI impI allI)
    note d = pl [unfolded places_differ_def distinct_places]
    fix j assume "j \<in> {0..<n}"
    then have j: "j < n" by simp
    show "t_loopInthisThread s1 (fst (place j)) = None" using d j s1(4) s by (simp add: fresh_process_def)
    have "snd (snd (place j)) \<noteq> p" using d j by blast
    then show "chans s1 (snd (snd (place j))) = None" using ch by blast
    show "ch_loop c \<noteq> fst (snd (place j))" if "chans s1 q = Some c" for q c
      using loops_ready_chanD(3) [OF s1(2) that] d j by auto
    fix k assume "k \<in> {0..<n}" "j \<noteq> k"
    then show "fst (place j) \<noteq> fst (place k)" "fst (snd (place j)) \<noteq> fst (snd (place k))"
      "snd (snd (place j)) \<noteq> snd (snd (place k))" using d j by auto
  qed
  moreover have "q < next_chan s1" if "chans s1 q \<noteq> None" for q using ch [OF that] s same(2) by (simp add: fresh_process_def)
  moreover have "snd (snd (place i)) < next_chan s1" if "i < n" for i using s same(2) that by (simp add: fresh_process_def)
  moreover have "thread_of s1 l = me" using s1(5) by simp
  ultimately obtain s' where "rbind (mkTcpServer os me (Some l) addr name reuse s1)
      (\<lambda>s. server_start os me uc False place (\<lambda>_. Inr)
        (put_srv (setThreadNum (int n) (setMessageCallback True (setConnectionCallback True (srv s)))) s)) = Inr s'"
    "running_inv os no_batch {} {} {} {} s'" "all_loops s' = l # worker_loops place n" "nextConnId (srv s') = 1"
    "listenning (srv_acceptor (srv s'))" "thread_of s' l = me" "\<forall>j \<in> set (all_loops s'). queued_in s' j = []"
    using server_comes_up [OF s1(2) _ same(1) _ _ _ n, where place = place and me = me and addr = addr and name = name and reuse = reuse and uc = uc and
        init_cb = "\<lambda>_. Inr", OF _ _ _ _ _ _ _ refl] os unfolding worker_loops_def by blast
  with s1(1) show ?thesis by (auto simp: server_setup_def)
qed

subsection \<open>Running\<close>

lemma all_entering:
  assumes "running_inv os no_batch {} {} {} {} s" shows "steps_inv os (\<lambda>_. Entering, s)"
proof -
  have "batch_of (\<lambda>_. Entering) = no_batch" "held_refs (\<lambda>_. Entering) (all_loops s) = {}"
    by (simp_all add: batch_of_def held_refs_def fun_eq_iff)
  with assms show ?thesis by (simp add: steps_inv_def)
qed

lemma server_runs:
  assumes pl: "places_differ me l p place n" and s: "fresh_process p place n s" and os: "kernel_documented os" and n: "0 < n"
    and uc: "local_user uc" and short: "short_messages os"
    and ls: "set ls \<subseteq> set (l # worker_loops place n)" "int (length ls) < INT_MAX"
  shows "\<exists>s1 ph s2. server_setup os me uc n addr name reuse l p place s = Inr s1 \<and>
    thread_steps os uc d ls (\<lambda>_. Entering, s1) = Inr (ph, s2) \<and> steps_inv os (ph, s2) \<and> all_loops s2 = l # worker_loops place n \<and>
    nextConnId (srv s2) \<le> 1 + int (length ls) \<and> listenning (srv_acceptor (srv s2)) \<and> thread_of s2 l = me"
proof -
  from server_setup_runs [OF pl s os n, of uc addr name reuse] obtain s1 where
    s1: "server_setup os me uc n addr name reuse l p place s = Inr s1" "running_inv os no_batch {} {} {} {} s1"
      "all_loops s1 = l # worker_loops place n" "nextConnId (srv s1) = 1" "listenning (srv_acceptor (srv s1))" "thread_of s1 l = me" by blast
  have id: "nextConnId (srv s1) + int (length ls) \<le> INT_MAX" using s1(4) ls(2) by simp
  have "set ls \<subseteq> set (all_loops s1)" using ls(1) s1(3) by simp
  from steps_run [OF all_entering [OF s1(2)] this uc id _ short, of d] os obtain ph s2 where
    s2: "thread_steps os uc d ls (\<lambda>_. Entering, s1) = Inr (ph, s2)" "steps_inv os (ph, s2)" "all_loops s2 = all_loops s1"
      "\<forall>k. sig_of s2 k = sig_of s1 k" "nextConnId (srv s2) \<le> nextConnId (srv s1) + int (length ls)"
      "srv_acceptor (srv s2) = srv_acceptor (srv s1)"
    unfolding kernel_documented_def by blast
  have "thread_of s2 l = me" using s2(4) s1(6) sig_of_SomeD(1) by metis
  with s1 s2 show ?thesis by auto
qed

subsection \<open>Who holds a connection\<close>

definition quiet :: "(loop_id \<Rightarrow> phase) \<Rightarrow> 'a server_net_scheme \<Rightarrow> bool" where
  "quiet ph s \<longleftrightarrow> (\<forall>l \<in> set (all_loops s). ph l = Polling \<and> queued_in s l = [])"

text \<open>What a thread holds: the closures of its queue and those of the batch it is running.\<close>

definition thread_holds :: "(loop_id \<Rightarrow> phase) \<Rightarrow> 'a server_net_scheme \<Rightarrow> loop_id \<Rightarrow> conn_id set" where
  "thread_holds ph s l = phase_refs (ph l) \<union> set (owners (queued_in s l))"

lemma waiting_holds:
  assumes inv: "steps_inv os (ph, s)" and l: "l \<in> set (all_loops s)" and f: "f \<in> set (waiting (batch_of ph) s l)" "functor_owner f = Some k"
  shows "k \<in> thread_holds ph s l"
proof (cases "f \<in> set (queued_in s l)")
  case True
  with f(2) show ?thesis by (force simp: thread_holds_def set_owners)
next
  case False
  with f(1) have "f \<in> set (batch_of ph l)" by (simp add: waiting_def)
  then obtain fs all where r: "ph l = Running fs all" "f \<in> set fs" by (cases "ph l") (simp_all add: batch_of_def)
  then have "f \<in> set all" using inv l by (fastforce simp: steps_inv_def)
  with f(2) r(1) show ?thesis by (force simp: thread_holds_def set_owners)
qed

lemma steps_holders:
  assumes inv: "steps_inv os (ph, s)" and k: "conns s k = Some cn"
  shows "k \<in> members s \<or> (\<exists>l \<in> set (all_loops s). k \<in> thread_holds ph s l)" "conn_state cn = kDisconnected \<or> k \<in> members s"
    "conn_loop cn \<in> set (workers s)"
proof -
  have i: "running_inv os (batch_of ph) {} {} {} (held_refs ph (all_loops s)) s" using inv by (simp add: steps_inv_def)
  note wf = running_invD [OF i]
  from wf(4) k show w: "conn_loop cn \<in> set (workers s)" unfolding conns_wf_def by blast
  have L: "base s \<in> set (all_loops s)" "conn_loop cn \<in> set (all_loops s)" using w by (simp_all add: server_loops_def)
  from wf(6) k have life: "conn_state cn = kDisconnected \<or> k \<in> members s"
    "held (batch_of ph) s k cn \<or> k \<in> held_refs ph (all_loops s)" unfolding life_wf_def by blast+
  from life(1) show "conn_state cn = kDisconnected \<or> k \<in> members s" .
  from life(2) show "k \<in> members s \<or> (\<exists>l \<in> set (all_loops s). k \<in> thread_holds ph s l)"
    unfolding held_def
  proof (elim disjE)
    assume "RemoveConnectionInLoop k \<in> set (waiting (batch_of ph) s (base s))"
    from waiting_holds [OF inv L(1) this] L(1) show ?thesis by auto
  next
    assume "ConnectDestroyed k \<in> set (waiting (batch_of ph) s (conn_loop cn))"
    from waiting_holds [OF inv L(2) this] L(2) show ?thesis by auto
  next
    assume "k \<in> held_refs ph (all_loops s)"
    then show ?thesis by (auto simp: held_refs_def thread_holds_def)
  qed simp
qed

lemma steps_members: "steps_inv os (ph, s) \<Longrightarrow> members s \<subseteq> dom (conns s)"
  by (auto simp: steps_inv_def running_inv_def server_inv_def)

text \<open>An established connection is registered for reading with the epoll of its loop.\<close>

definition registered_for_reading :: "'a net_scheme \<Rightarrow> tcpconn \<Rightarrow> bool" where
  "registered_for_reading s cn \<longleftrightarrow> (case registered (conn_loop cn) s (conn_channel cn) of None \<Rightarrow> False
     | Some m \<Rightarrow> m AND kReadEvent = kReadEvent)"

lemma steps_registered:
  assumes inv: "steps_inv os (ph, s)" and k: "conns s k = Some cn" and up: "is_up cn"
  shows "registered_for_reading s cn"
proof -
  have i: "running_inv os (batch_of ph) {} {} {} (held_refs ph (all_loops s)) s" using inv by (simp add: steps_inv_def)
  note wf = running_invD [OF i]
  from wf(6) k up have "watched s cn" unfolding life_wf_def by blast
  then obtain c where c: "chans s (conn_channel cn) = Some c" "ch_index c = kAdded" "ch_events c AND kReadEvent = kReadEvent"
    unfolding watched_def by blast
  from conns_wfD [OF wf(4) k] c(1) have l: "ch_loop c = conn_loop cn" "conn_loop cn \<in> set (workers s)" by auto
  have "reg_inv os (conn_loop cn) s" using wf(2) worker_loop [OF l(2)] unfolding loops_wf_def by blast
  moreover have "chan_entry (conn_loop cn) s (conn_channel cn) = Some (ch_events c, True)"
    using c l(1) by (simp add: chan_entry_def chan_of_def)
  ultimately show ?thesis using registered_of_entry c(3) by (fastforce simp: registered_for_reading_def kernel_mask_def)
qed

text \<open>So is the listening socket, with the epoll of the base loop.\<close>

definition accepts_connections :: "'a server_net_scheme \<Rightarrow> bool" where
  "accepts_connections s \<longleftrightarrow> (case registered (base s) s (acc_chan (srv_acceptor (srv s))) of None \<Rightarrow> False
     | Some m \<Rightarrow> m AND kReadEvent = kReadEvent)"

lemma steps_listening:
  assumes inv: "steps_inv os (ph, s)" and on: "listenning (srv_acceptor (srv s))"
  shows "accepts_connections s"
proof -
  have i: "running_inv os (batch_of ph) {} {} {} (held_refs ph (all_loops s)) s" using inv by (simp add: steps_inv_def)
  note wf = running_invD [OF i]
  let ?p = "acc_chan (srv_acceptor (srv s))"
  from wf(8) on obtain c where c: "chans s ?p = Some c" "ch_loop c = base s" "ch_index c = kAdded"
    "ch_events c AND kReadEvent = kReadEvent" unfolding acceptor_wf_def by blast
  have "reg_inv os (base s) s" using wf(2) base_loop unfolding loops_wf_def by blast
  moreover have "chan_entry (base s) s ?p = Some (ch_events c, True)" using c by (simp add: chan_entry_def chan_of_def)
  ultimately show ?thesis using registered_of_entry c(4) by (fastforce simp: accepts_connections_def kernel_mask_def)
qed

text \<open>A new connection waits for \<open>connectEstablished\<close> in its loop.\<close>

lemma steps_connecting:
  assumes inv: "steps_inv os (ph, s)" and k: "conns s k = Some cn" and st: "conn_state cn = kConnecting"
  shows "k \<in> thread_holds ph s (conn_loop cn)"
proof -
  have i: "running_inv os (batch_of ph) {} {} {} (held_refs ph (all_loops s)) s" using inv by (simp add: steps_inv_def)
  have "ConnectEstablished k \<in> set (waiting (batch_of ph) s (conn_loop cn))"
    using running_invD(6) [OF i] k st unfolding life_wf_def by blast
  from waiting_holds [OF inv worker_loop [OF steps_holders(3) [OF inv k]] this] show ?thesis by simp
qed

lemma steps_at_rest:
  assumes inv: "steps_inv os (ph, s)" and none: "\<And>l. l \<in> set (all_loops s) \<Longrightarrow> thread_holds ph s l = {}"
  shows "dom (conns s) = members s" "conns s k = Some cn \<Longrightarrow> is_up cn"
proof -
  have i: "running_inv os (batch_of ph) {} {} {} (held_refs ph (all_loops s)) s" using inv by (simp add: steps_inv_def)
  have "members s \<subseteq> dom (conns s)" by (rule steps_members [OF inv])
  moreover have in_map: "k \<in> members s" if "conns s k = Some cn" for k cn using steps_holders(1) [OF inv that] none by blast
  ultimately show "dom (conns s) = members s" by blast
  show "is_up cn" if k: "conns s k = Some cn"
  proof (cases "conn_state cn")
    case kConnecting
    from steps_connecting [OF inv k this] none [OF worker_loop [OF steps_holders(3) [OF inv k]]] show ?thesis by simp
  next
    case kDisconnected
    then have "RemoveConnectionInLoop k \<in> set (waiting (batch_of ph) s (base s))"
      using running_invD(6) [OF i] k in_map [OF k] unfolding life_wf_def by blast
    from waiting_holds [OF inv base_loop this] none [OF base_loop] show ?thesis by simp
  qed (simp_all add: is_up_def)
qed

lemma quiet_holds: "quiet ph s \<Longrightarrow> l \<in> set (all_loops s) \<Longrightarrow> thread_holds ph s l = {}"
  by (auto simp: quiet_def thread_holds_def owners_def)

lemmas steps_quiet = steps_at_rest [OF _ quiet_holds]

subsection \<open>A kernel for examples\<close>

text \<open>
  It gives out the next number for a new descriptor and reports one of the registered descriptors at
  a time as readable, by the position that \<open>pick\<close> says; a read of a socket delivers three bytes or the
  end of the stream.
\<close>

definition next_fd :: "trace \<Rightarrow> int" where
  "next_fd tr = fold (\<lambda>(_, _, r). max (ret r)) tr 0 + 1"

definition ctl_fds :: "trace \<Rightarrow> int list" where
  "ctl_fds tr = List.map_filter (\<lambda>(_, k, _). case k of EpollCtl ep op fd ev p \<Rightarrow> Some fd | _ \<Rightarrow> None) tr"

definition seen_by :: "int \<Rightarrow> trace \<Rightarrow> (32 word \<times> chan_id) list" where
  "seen_by ep tr = List.map_filter (interest_of ep tr) (remdups (ctl_fds tr))"

definition picking_os :: "(int \<Rightarrow> trace \<Rightarrow> nat option) \<Rightarrow> os" where
  "picking_os pick tr call = (case call of
     EpollWait ep n t \<Rightarrow> (case pick ep tr of None \<Rightarrow> ret_val 0
       | Some i \<Rightarrow> if n = 0 \<or> length (seen_by ep tr) \<le> i then ret_val 0 else (case seen_by ep tr ! i of (m, p) \<Rightarrow>
           \<lparr>ret = 1, err = 0, rdata = [], revs = [(p, m AND EPOLLIN)]\<rparr>))
   | Readv fd lens \<Rightarrow> if even (length tr) then \<lparr>ret = 3, err = 0, rdata = [104, 105, 10], revs = []\<rparr> else ret_val 0
   | _ \<Rightarrow> if gives_fd call then ret_val (next_fd tr) else plain_os tr call)"

text \<open>All of them in turn; or the one registered last, once, and nothing after that.\<close>

definition polls :: "int \<Rightarrow> trace \<Rightarrow> nat" where
  "polls ep tr = length (filter (\<lambda>(_, k, _). case k of EpollWait e n t \<Rightarrow> e = ep | _ \<Rightarrow> False) tr)"

definition busy_os :: os where
  "busy_os = picking_os (\<lambda>ep tr. Some (polls ep tr mod length (seen_by ep tr)))"

definition one_event_os :: os where
  "one_event_os = picking_os (\<lambda>ep tr. if \<exists>(_, k, _) \<in> set tr. \<exists>e n t. k = EpollWait e n t then None
     else Some (length (seen_by ep tr) - 1))"

lemma next_fd_above: "fd \<in> open_fds tr \<Longrightarrow> fd < next_fd tr"
proof (induction tr rule: rev_induct)
  case (snoc x tr)
  obtain t k r where x: "x = (t, k, r)" by (cases x)
  have "next_fd (tr @ [x]) = max (ret r) (next_fd tr - 1) + 1" by (simp add: next_fd_def x)
  with snoc show ?case by (auto simp: x split: if_splits syscall.splits)
qed (simp add: open_fds_def)

lemma seen_interest: "(m, p) \<in> set (seen_by ep tr) \<Longrightarrow> \<exists>fd. interest_of ep tr fd = Some (m, p)"
  by (auto simp: seen_by_def List.map_filter_def)

lemma fold_max_ge: "(m :: int) \<le> fold (\<lambda>(_, _, r). max (ret r)) tr m"
proof (induction tr arbitrary: m)
  case (Cons x tr)
  obtain t k r where x: "x = (t, k, r)" by (cases x)
  have "max (ret r) m \<le> fold (\<lambda>(_, _, r). max (ret r)) tr (max (ret r) m)" by (rule Cons.IH)
  then show ?case by (simp add: x)
qed simp

lemma picking_os_documented: "kernel_documented (picking_os pick)" "short_messages (picking_os pick)"
proof -
  have "0 < next_fd tr" for tr using fold_max_ge [of 0 tr] by (simp add: next_fd_def)
  then have pos: "0 \<le> next_fd tr" for tr by (simp add: less_imp_le)
  have "loop_fds_given (picking_os pick)"
    by (simp add: loop_fds_given_def epoll_ctl_documented_def picking_os_def plain_os_def ret_val_def pos)
  moreover have "new_fds_documented (picking_os pick)"
  proof -
    have "ret (picking_os pick tr k) = next_fd tr" if "gives_fd k" for tr k
      using that by (cases k) (simp_all add: picking_os_def ret_val_def)
    then show ?thesis unfolding new_fds_documented_def using next_fd_above by (metis less_irrefl)
  qed
  moreover have "sockets_given (picking_os pick)" by (simp add: sockets_given_def picking_os_def plain_os_def ret_val_def pos)
  moreover have "epoll_wait_documented (picking_os pick)"
    unfolding epoll_wait_documented_def Let_def
  proof (intro allI)
    fix tr ep n t
    let ?r = "picking_os pick tr (EpollWait ep n t)"
    show "ret ?r \<le> int n \<and> (0 < ret ?r \<longrightarrow> int (length (revs ?r)) = ret ?r) \<and> distinct (map fst (revs ?r)) \<and>
      (\<forall>(p, ev) \<in> set (revs ?r). \<exists>fd m. interest_of ep tr fd = Some (m, p) \<and> ev AND NOT (m OR EPOLLERR OR EPOLLHUP) = 0)"
    proof (cases "pick ep tr = None \<or> n = 0 \<or> length (seen_by ep tr) \<le> the (pick ep tr)")
      case True
      then show ?thesis by (auto simp: picking_os_def ret_val_def split: option.split)
    next
      case False
      then obtain i where i: "pick ep tr = Some i" "i < length (seen_by ep tr)" "n \<noteq> 0" by auto
      obtain m p where mp: "seen_by ep tr ! i = (m, p)" by (cases "seen_by ep tr ! i")
      have "(m, p) \<in> set (seen_by ep tr)" using i(2) mp by (metis nth_mem)
      from seen_interest [OF this] obtain fd where fd: "interest_of ep tr fd = Some (m, p)" by blast
      have r: "?r = \<lparr>ret = 1, err = 0, rdata = [], revs = [(p, m AND EPOLLIN)]\<rparr>"
        using i mp by (simp add: picking_os_def)
      have "(m AND EPOLLIN) AND NOT (m OR EPOLLERR OR EPOLLHUP) = 0"
        by (rule bit_word_eqI) (simp add: bit_simps)
      with fd False show ?thesis by (auto simp: r)
    qed
  qed
  ultimately show "kernel_documented (picking_os pick)" by (simp add: kernel_documented_def)
  show "short_messages (picking_os pick)" by (simp add: short_messages_def picking_os_def ret_val_def)
qed

lemma busy_os_documented: "kernel_documented busy_os" "short_messages busy_os"
  unfolding busy_os_def by (rule picking_os_documented)+

lemma one_event_os_documented: "kernel_documented one_event_os" "short_messages one_event_os"
  unfolding one_event_os_def by (rule picking_os_documented)+

definition empty_process :: server_net where
  "empty_process = \<lparr>io_trace = [], chans = (\<lambda>_. None), loops = (\<lambda>_. None), t_loopInthisThread = (\<lambda>_. None),
     conns = (\<lambda>_. None), strings = (\<lambda>_. None), next_string = 0, srv = example_srv [], numCreated = 0,
     next_conn = 0, next_chan = 10\<rparr>"

definition example_places :: "nat \<Rightarrow> tid \<times> loop_id \<times> chan_id" where
  "example_places i = (int i + 2, i + 1, i + 1)"

lemma example_places_differ: "places_differ 1 0 0 example_places n"
  unfolding places_differ_def distinct_places by (simp add: example_places_def)

lemma example_process: "n < 9 \<Longrightarrow> fresh_process 0 example_places n empty_process"
  by (simp add: fresh_process_def empty_process_def example_places_def)

lemma example_loops: "worker_loops example_places n = [1..<Suc n]"
  by (rule nth_equalityI) (simp_all add: worker_loops_def example_places_def del: upt_Suc)

text \<open>The threads take \<open>m\<close> steps each, in turn.\<close>

definition in_turn :: "nat \<Rightarrow> nat \<Rightarrow> loop_id list" where
  "in_turn n m = concat (replicate m [0..<Suc n])"

lemma in_turn_loops: "set (in_turn n m) \<subseteq> set (0 # worker_loops example_places n)"
  by (auto simp: in_turn_def example_loops simp del: upt_Suc)

lemma in_turn_length:
  assumes "m * Suc n < 1000000" shows "int (length (in_turn n m)) < INT_MAX"
proof -
  have "length (in_turn n m) = m * Suc n" by (simp add: in_turn_def length_concat sum_list_replicate del: upt_Suc)
  with assms have "length (in_turn n m) < 1000000" by simp
  then show ?thesis by (simp add: INT_MAX_def)
qed

text \<open>User code that greets every client and throws away what they say.\<close>

definition greeting_user :: user_code where
  "greeting_user = \<lparr>onConnection = (\<lambda>c up. if up then [UcSend c [104, 105, 10]] else []),
     onMessage = (\<lambda>c d t. [UcRetrieveAll c]), onWriteComplete = (\<lambda>c. []), onHighWaterMark = (\<lambda>c n. [])\<rparr>"

lemma greeting_user_local: "local_user greeting_user"
  by (simp add: local_user_def greeting_user_def)

end
