(* ===== verification/ServerEnd.thy ===== *)
theory ServerEnd
  imports ServerMain
begin

section \<open>The end of a server\<close>

text \<open>
  \<open>~TcpServer\<close> while connections are alive: each of them is handed to its worker, which is to destroy
  it, and leaves the map; then the acceptor goes. The lemmas follow the loop over the map with the
  part of the invariant that it keeps, \<open>loops_wf\<close>; the root theory states what follows for a server
  that has been running.
\<close>

subsection \<open>One connection\<close>

lemma chans_update_more: "reactor.more (s\<lparr>chans := f\<rparr>) = reactor.more s"
  by (cases s) simp

lemma run_elsewhere:
  assumes wf: "loops_wf os s" and l: "l \<in> set (all_loops s)" "thread_of s l \<noteq> me"
  shows "\<exists>s'. runInLoop os me run l f s = Inr s' \<and> loops_wf os s' \<and> conns s' = conns s \<and> chans s' = chans s \<and> srv s' = srv s \<and>
    (\<forall>j. sig_of s' j = sig_of s j) \<and> (\<forall>j. queued_in s' j = queued_in s j @ (if j = l then [f] else []))"
proof -
  obtain lp where lp: "loops s l = Some lp" using wf l(1) unfolding loops_wf_def by blast
  then have "runInLoop os me run l f s = queueInLoop os me l f s"
    using l(2) by (simp add: runInLoop_def isInLoopThread_def thread_of_def)
  with push_one [OF wf l(1), of me f] show ?thesis using net_frame_conns net_frame_srv [OF _ refl] by metis
qed

lemma loops_wf_put_srv:
  assumes wf: "loops_wf os s" and same: "srv_pool sv = srv_pool (srv s)" "srv_loop sv = base s"
  shows "loops_wf os (put_srv sv s)" "all_loops (put_srv sv s) = all_loops s"
proof -
  let ?s = "put_srv sv s"
  show L: "all_loops ?s = all_loops s" using same by (simp add: server_loops_def)
  have "reg_inv os l ?s" if "l \<in> set (all_loops s)" for l
    by (rule reg_inv_alike [where s = s]) (use wf that in \<open>simp_all add: loops_wf_def rel_option_reflI\<close>)
  then show "loops_wf os ?s" by (intro loops_wf_cong [OF wf L]) (auto simp: sig_of_def)
qed

text \<open>The body of the loop in the destructor.\<close>

definition destroy_one :: "os \<Rightarrow> tid \<Rightarrow> user_code \<Rightarrow> string \<times> conn_id \<Rightarrow> 'a server_net_scheme \<Rightarrow> 'a server_net_scheme res" where
  "destroy_one os me uc = (\<lambda>(n, c) s.
     rbind (get_conn s c) (\<lambda>cn.
     rbind (runInLoop os me (server_run os me uc) (conn_loop cn) (ConnectDestroyed c)
       (put_srv ((srv s)\<lparr>connections := erase_conn n (connections (srv s))\<rparr>) s)) (\<lambda>s.
     release os me {} c s)))"

lemma closeTcpServer_eq:
  "closeTcpServer os me uc s = rbind (foldr_res (destroy_one os me uc) (connections (srv s)) s)
    (\<lambda>s. closeAcceptor os me (srv_acceptor (srv s)) s)"
  by (simp add: closeTcpServer_def destroy_one_def case_prod_beta')

definition to_destroy :: "(conn_id \<Rightarrow> tcpconn option) \<Rightarrow> loop_id \<Rightarrow> (string \<times> conn_id) list \<Rightarrow> Functor list" where
  "to_destroy cs l ms = map (\<lambda>(n, c). ConnectDestroyed c) (filter (\<lambda>(n, c). map_option conn_loop (cs c) = Some l) ms)"

lemma to_destroy_member:
  assumes "conns s k = Some cn" "k \<in> members s"
  shows "ConnectDestroyed k \<in> set (to_destroy (conns s) (conn_loop cn) (connections (srv s)))"
  using assms by (force simp: to_destroy_def)

lemma destroy_one_ok:
  assumes wf: "loops_wf os s" and k: "conns s k = Some cn" "conn_loop cn \<in> set (workers s)" and me: "thread_of s (base s) = me"
  shows "\<exists>s'. destroy_one os me uc (n, k) s = Inr s' \<and> loops_wf os s' \<and> conns s' = conns s \<and> chans s' = chans s \<and>
    srv s' = (srv s)\<lparr>connections := erase_conn n (connections (srv s))\<rparr> \<and> (\<forall>j. sig_of s' j = sig_of s j) \<and>
    (\<forall>j. queued_in s' j = queued_in s j @ to_destroy (conns s) j [(n, k)])"
proof -
  let ?l = "conn_loop cn" and ?sv = "(srv s)\<lparr>connections := erase_conn n (connections (srv s))\<rparr>"
  let ?s = "put_srv ?sv s"
  have l: "?l \<in> set (all_loops s)" by (rule worker_loop [OF k(2)])
  have "distinct (all_loops s)" "inj_on (thread_of s) (set (all_loops s))" using wf by (simp_all add: loops_wf_def)
  moreover from this(1) have "?l \<noteq> base s" using k(2) by (auto simp: server_loops_def)
  ultimately have "thread_of s ?l \<noteq> me" using l base_loop me by (metis inj_onD)
  moreover note wf' = loops_wf_put_srv [OF wf, where sv = ?sv, simplified]
  moreover have "thread_of ?s ?l = thread_of s ?l" by (simp add: thread_of_def)
  ultimately obtain s' where s': "runInLoop os me (server_run os me uc) ?l (ConnectDestroyed k) ?s = Inr s'" "loops_wf os s'"
    "conns s' = conns s" "chans s' = chans s" "srv s' = ?sv" "\<forall>j. sig_of s' j = sig_of ?s j"
    "\<forall>j. queued_in s' j = queued_in ?s j @ (if j = ?l then [ConnectDestroyed k] else [])"
    using run_elsewhere [OF wf'(1), of ?l me "server_run os me uc" "ConnectDestroyed k"] l by auto
  have "ConnectDestroyed k \<in> set (queued_in s' ?l)" using s'(7) by simp
  moreover have "?l \<in> set (server_loops (srv s'))" using l by (simp add: s'(5) server_loops_def)
  ultimately have "owned k s'" unfolding owned_def by force
  then have "destroy_one os me uc (n, k) s = Inr s'" using k(1) s'(1) by (simp add: destroy_one_def get_conn_def release_def)
  moreover have "sig_of s' j = sig_of s j" for j using s'(6) by (simp add: sig_of_def)
  moreover have "queued_in s' j = queued_in s j @ to_destroy (conns s) j [(n, k)]" for j
    using s'(7) k(1) by (simp add: to_destroy_def queued_in_def)
  ultimately show ?thesis using s'(2-5) by blast
qed

subsection \<open>All of them\<close>

lemma to_destroy_Cons: "to_destroy cs l (x # ms) = to_destroy cs l [x] @ to_destroy cs l ms"
  by (simp add: to_destroy_def split: prod.splits)

lemma destroy_all_ok:
  assumes "loops_wf os s" "\<forall>(n, k) \<in> set ms. \<exists>cn. conns s k = Some cn \<and> conn_loop cn \<in> set (workers s)" "thread_of s (base s) = me"
  shows "\<exists>s'. foldr_res (destroy_one os me uc) ms s = Inr s' \<and> loops_wf os s' \<and> conns s' = conns s \<and> chans s' = chans s \<and>
    srv s' = (srv s)\<lparr>connections := filter (\<lambda>x. fst x \<notin> fst ` set ms) (connections (srv s))\<rparr> \<and>
    (\<forall>j. queued_in s' j = queued_in s j @ to_destroy (conns s) j ms)"
  using assms
proof (induction ms arbitrary: s)
  case Nil
  then show ?case by (simp add: to_destroy_def)
next
  case (Cons x ms)
  obtain n k where x: "x = (n, k)" by (cases x)
  from Cons.prems(2) obtain cn where k: "conns s k = Some cn" "conn_loop cn \<in> set (workers s)" by (auto simp: x)
  from destroy_one_ok [OF Cons.prems(1) k Cons.prems(3), of uc n] obtain s1 where
    s1: "destroy_one os me uc x s = Inr s1" "loops_wf os s1" "conns s1 = conns s" "chans s1 = chans s"
      "srv s1 = (srv s)\<lparr>connections := erase_conn n (connections (srv s))\<rparr>" "\<forall>j. sig_of s1 j = sig_of s j"
      "\<forall>j. queued_in s1 j = queued_in s j @ to_destroy (conns s) j [x]" unfolding x by blast
  have "thread_of s1 (base s) = me" using s1(6) Cons.prems(3) sig_of_SomeD(1) by metis
  moreover have "\<forall>(n, k) \<in> set ms. \<exists>cn. conns s1 k = Some cn \<and> conn_loop cn \<in> set (workers s1)"
    using Cons.prems(2) by (simp add: s1(3,5))
  ultimately obtain s' where s': "foldr_res (destroy_one os me uc) ms s1 = Inr s'" "loops_wf os s'" "conns s' = conns s1"
    "chans s' = chans s1" "srv s' = (srv s1)\<lparr>connections := filter (\<lambda>x. fst x \<notin> fst ` set ms) (connections (srv s1))\<rparr>"
    "\<forall>j. queued_in s' j = queued_in s1 j @ to_destroy (conns s1) j ms"
    using Cons.IH [OF s1(2)] by (auto simp: s1(5))
  have "srv s' = (srv s)\<lparr>connections := filter (\<lambda>y. fst y \<notin> fst ` set (x # ms)) (connections (srv s))\<rparr>"
    by (simp add: s'(5) s1(5) erase_conn_def x case_prod_beta' conj_commute)
  moreover have "queued_in s' j = queued_in s j @ to_destroy (conns s) j (x # ms)" for j
    using s'(6) s1(7) by (simp add: s1(3) to_destroy_Cons [of _ _ x ms])
  ultimately show ?case using s'(1-4) s1(1,3,4) by simp
qed

text \<open>The listening channel is taken out of the epoll and freed, and its descriptor closed.\<close>

lemma close_acceptor_ok:
  assumes wf: "loops_wf os s" and c: "chans s (acc_chan a) = Some c" "ch_loop c \<in> set (all_loops s)"
  shows "\<exists>s'. closeAcceptor os me a s = Inr s' \<and> net_frame s s' \<and> chans s' = (chans s)(acc_chan a := None) \<and>
    (\<forall>j. queued_in s' j = queued_in s j) \<and> acc_fd a \<notin> open_fds (io_trace s')"
proof -
  let ?p = "acc_chan a"
  from set_events_one [OF wf c(2,1) refl, where me = me and chg = DisableAll] obtain d s1 where
    s1: "set_events os me DisableAll ?p s = Inr s1" "one_channel os (ch_loop c) ?p d s s1" "chan_static d = chan_static c"
    by (auto simp: chan_static_def callbacks_of_def)
  note one = one_channelD [OF s1(2)]
  have L: "all_loops s1 = all_loops s" by (simp add: one(3))
  have "loops_wf os s1" by (rule loops_wf_cong [OF wf L]) (use one(7,10) c(1) s1(3) in \<open>auto simp: one(6)\<close>)
  moreover have d: "chans s1 ?p = Some d" "ch_loop d = ch_loop c" using s1(3) by (simp_all add: one(6) chan_static_def)
  ultimately obtain s2 where s2: "channel_remove os me ?p s1 = Inr s2" "one_channel os (ch_loop c) ?p (d\<lparr>ch_index := kNew\<rparr>) s1 s2"
    using channel_remove_one [of os s1 "ch_loop c" ?p d me] c(2) unfolding L by blast
  note two = one_channelD [OF s2(2)]
  define s3 where "s3 = s2\<lparr>chans := (chans s2)(?p := None)\<rparr>"
  let ?s = "closeSocket os me (acc_fd a) s3"
  have s3: "chans s3 = (chans s)(?p := None)" "loops s3 = loops s2" by (simp_all add: s3_def one(6) two(6))
  have "closeAcceptor os me a s = Inr ?s" using s1(1) s2(1) by (simp add: closeAcceptor_def s3_def)
  moreover have "net_frame s2 s3" unfolding s3_def by (rule net_frame_more) (rule chans_update_more)
  with one(1) two(1) have "net_frame s ?s" unfolding closeSocket_def by (blast intro: net_frame_trans do_call_net)
  moreover have "chans ?s = (chans s)(?p := None)" by (simp add: closeSocket_def s3(1))
  moreover have "queued_in ?s j = queued_in s2 j" for j by (simp add: queued_in_def closeSocket_def s3(2))
  then have "queued_in ?s j = queued_in s j" for j by (simp add: one(8) two(8))
  moreover have "acc_fd a \<notin> open_fds (io_trace ?s)" by (simp add: closeSocket_def)
  ultimately show ?thesis by blast
qed

subsection \<open>The destructor\<close>

lemma server_destroyed:
  assumes inv: "steps_inv os (ph, s)" and me: "thread_of s (base s) = me"
  shows "\<exists>s'. closeTcpServer os me uc s = Inr s' \<and> connections (srv s') = [] \<and> conns s' = conns s \<and>
    chans s' = (chans s)(acc_chan (srv_acceptor (srv s)) := None) \<and>
    acc_fd (srv_acceptor (srv s)) \<notin> open_fds (io_trace s') \<and>
    (\<forall>j. queued_in s' j = queued_in s j @ to_destroy (conns s) j (connections (srv s)))"
proof -
  have i: "running_inv os (batch_of ph) {} {} {} (held_refs ph (all_loops s)) s" using inv by (simp add: steps_inv_def)
  note wf = running_invD [OF i]
  have "\<forall>(n, k) \<in> set (connections (srv s)). \<exists>cn. conns s k = Some cn \<and> conn_loop cn \<in> set (workers s)"
  proof (rule ballI, clarify)
    fix n k assume nk: "(n, k) \<in> set (connections (srv s))"
    then have "k \<in> members s" by force
    then obtain cn where "conns s k = Some cn" using steps_members [OF inv] by blast
    then show "\<exists>cn. conns s k = Some cn \<and> conn_loop cn \<in> set (workers s)" using steps_holders(3) [OF inv] by blast
  qed
  from destroy_all_ok [OF wf(2) this me, of uc] obtain s1 where
    s1: "foldr_res (destroy_one os me uc) (connections (srv s)) s = Inr s1" "loops_wf os s1" "conns s1 = conns s" "chans s1 = chans s"
      "srv s1 = (srv s)\<lparr>connections := filter (\<lambda>x. fst x \<notin> fst ` set (connections (srv s))) (connections (srv s))\<rparr>"
      "\<forall>j. queued_in s1 j = queued_in s j @ to_destroy (conns s) j (connections (srv s))" by blast
  have "filter (\<lambda>x. fst x \<notin> fst ` set (connections (srv s))) (connections (srv s)) = []" by (simp add: filter_empty_conv)
  then have sv: "srv s1 = (srv s)\<lparr>connections := []\<rparr>" by (simp add: s1(5))
  let ?a = "srv_acceptor (srv s)"
  from wf(8) obtain c where "chans s (acc_chan ?a) = Some c" "ch_loop c = base s" unfolding acceptor_wf_def by blast
  then have "chans s1 (acc_chan ?a) = Some c" "ch_loop c \<in> set (all_loops s1)" by (simp_all add: s1(4) sv server_loops_def)
  from close_acceptor_ok [OF s1(2) this, of me] obtain s' where
    s': "closeAcceptor os me ?a s1 = Inr s'" "net_frame s1 s'" "chans s' = (chans s1)(acc_chan ?a := None)"
      "\<forall>j. queued_in s' j = queued_in s1 j" "acc_fd ?a \<notin> open_fds (io_trace s')" by blast
  have "closeTcpServer os me uc s = Inr s'" using s1(1) s'(1) by (simp add: closeTcpServer_eq sv)
  moreover have "conns s' = conns s" "connections (srv s') = []"
    using net_frame_conns [OF s'(2)] net_frame_srv [OF s'(2) refl] by (simp_all add: s1(3) sv)
  ultimately show ?thesis using s'(3-5) s1(4,6) by auto
qed

end
