(* ===== verification/ServerSettles.thy ===== *)
theory ServerSettles
  imports ServerEnd
begin

section \<open>A server left alone comes to rest\<close>

text \<open>
  When the peers fall silent, what is in the queues and batches of the loops runs out: every functor
  queues less than it is worth, and a thread with work gets nearer to it with every step. This theory
  counts what is left (\<open>work_of\<close>) and shows that each step of a thread with work lowers the count,
  whatever the others do; the root theory states the consequence for whole servers.
\<close>

subsection \<open>What is queued\<close>

text \<open>What a functor is worth: one and what it may queue.\<close>

fun weight :: "Functor \<Rightarrow> nat" where
  "weight (RemoveConnectionInLoop k) = 2"
| "weight (ConnectEstablished k) = 2"
| "weight _ = 1"

definition worth :: "Functor list \<Rightarrow> nat" where
  "worth fs = sum_list (map weight fs)"

lemma worth_simps [simp]:
  "worth [] = 0" "worth (f # fs) = weight f + worth fs" "worth (fs @ gs) = worth fs + worth gs"
  by (simp_all add: worth_def)

lemma weight_bounds: "0 < weight f" "weight f \<le> 2"
  by (cases f; simp)+

lemma worth_length: "length fs \<le> worth fs"
proof (induction fs)
  case (Cons f fs)
  then show ?case using weight_bounds(1) [of f] by simp
qed simp

text \<open>\<open>new l\<close> has been put into the queue of \<open>l\<close>; the kernel has been called; nothing else has happened to the loops.\<close>

definition loop_view :: "'a reactor_scheme \<Rightarrow> loop_id \<Rightarrow> (Functor list \<times> bool \<times> tid) option" where
  "loop_view s l = map_option (\<lambda>lp. (pendingFunctors lp, quit_flag lp, threadId lp)) (loops s l)"

definition pushed :: "(loop_id \<Rightarrow> Functor list) \<Rightarrow> 'a reactor_scheme \<Rightarrow> 'a reactor_scheme \<Rightarrow> bool" where
  "pushed new s s' \<longleftrightarrow> (\<forall>l. case loop_view s l of None \<Rightarrow> loop_view s' l = None
     | Some (q, b, t) \<Rightarrow> loop_view s' l = Some (q @ new l, b, t)) \<and>
     prefix (io_trace s) (io_trace s')"

definition adds :: "loop_id list \<Rightarrow> nat \<Rightarrow> 'a reactor_scheme \<Rightarrow> 'a reactor_scheme \<Rightarrow> bool" where
  "adds Ls n s s' \<longleftrightarrow> (\<exists>new. pushed new s s' \<and> (\<Sum>l\<leftarrow>Ls. worth (new l)) \<le> n)"

lemma adds_none:
  assumes "\<And>l. loop_view s' l = loop_view s l" "prefix (io_trace s) (io_trace s')"
  shows "adds Ls 0 s s'"
proof -
  have "pushed (\<lambda>_. []) s s'" using assms by (simp add: pushed_def split: option.split)
  then show ?thesis unfolding adds_def by (intro exI [of _ "\<lambda>_. []"]) simp
qed

lemma adds_mono: "adds Ls m s s' \<Longrightarrow> m \<le> n \<Longrightarrow> adds Ls n s s'"
  by (auto simp: adds_def)

lemma adds_refl: "adds Ls n s s"
  by (rule adds_mono [OF adds_none]) simp_all

lemma adds_trans:
  assumes "adds Ls m s t" "adds Ls n t u" shows "adds Ls (m + n) s u"
proof -
  from assms obtain a b where ab: "pushed a s t" "(\<Sum>l\<leftarrow>Ls. worth (a l)) \<le> m" "pushed b t u" "(\<Sum>l\<leftarrow>Ls. worth (b l)) \<le> n"
    by (auto simp: adds_def)
  have "pushed (\<lambda>l. a l @ b l) s u"
    unfolding pushed_def
  proof (intro conjI allI)
    show "prefix (io_trace s) (io_trace u)" using ab(1,3) unfolding pushed_def by (blast intro: prefix_order.trans)
    fix l
    show "case loop_view s l of None \<Rightarrow> loop_view u l = None | Some (q, b', t) \<Rightarrow> loop_view u l = Some (q @ a l @ b l, b', t)"
      using spec [OF conjunct1 [OF ab(1) [unfolded pushed_def]], of l] spec [OF conjunct1 [OF ab(3) [unfolded pushed_def]], of l]
      by (auto split: option.splits)
  qed
  moreover have "(\<Sum>l\<leftarrow>Ls. worth (a l @ b l)) \<le> m + n" using ab(2,4) by (simp add: sum_list_addf)
  ultimately show ?thesis unfolding adds_def by (intro exI [of _ "\<lambda>l. a l @ b l"]) simp
qed

lemma adds_thread: "adds Ls n s s' \<Longrightarrow> thread_of s' l = thread_of s l"
proof -
  assume "adds Ls n s s'"
  then obtain new where "case loop_view s l of None \<Rightarrow> loop_view s' l = None
     | Some (q, b, t) \<Rightarrow> loop_view s' l = Some (q @ new l, b, t)" unfolding adds_def pushed_def by blast
  then show ?thesis by (cases "loops s l") (auto simp: loop_view_def thread_of_def)
qed

lemma sum_one: "distinct Ls \<Longrightarrow> (\<Sum>l\<leftarrow>Ls. worth (if l = k then fs else [])) \<le> worth fs"
  by (induction Ls) auto

lemma adds_loops: "loops s' = loops s \<Longrightarrow> prefix (io_trace s) (io_trace s') \<Longrightarrow> adds Ls 0 s s'"
  by (rule adds_none) (simp_all add: loop_view_def)

lemma adds_call: "adds Ls 0 s (snd (do_call os me k s))"
  by (rule adds_loops) (simp_all add: do_call_def Let_def)

lemma adds_put_loop:
  assumes "loops s l = Some lp" "pendingFunctors lp' = pendingFunctors lp" "quit_flag lp' = quit_flag lp" "threadId lp' = threadId lp"
  shows "adds Ls 0 s (put_loop l lp' s)"
  by (rule adds_none) (use assms in \<open>simp_all add: loop_view_def\<close>)

lemma adds_queue:
  assumes run: "queueInLoop os me l f s = Inr s'" and d: "distinct Ls" shows "adds Ls (weight f) s s'"
proof -
  from run obtain lp where lp: "loops s l = Some lp"
    by (auto simp: queueInLoop_def push_functor_def rbind_eq_Inr upd_loop_eq_Inr)
  let ?new = "\<lambda>j. if j = l then [f] else []"
  let ?lp = "lp\<lparr>pendingFunctors := pendingFunctors lp @ [f]\<rparr>"
  have s': "s' = (if must_wake me lp then snd (do_call os me (WriteFd (wakeFd lp) eventfd_one) (put_loop l ?lp s)) else put_loop l ?lp s)"
    using run queueInLoop_ok [OF lp, of os me f] by simp
  have "loops s' = (loops s)(l := Some ?lp)" "prefix (io_trace s) (io_trace s')" by (simp_all add: s')
  then have "pushed ?new s s'" using lp by (auto simp: pushed_def loop_view_def split: option.split)
  moreover have "(\<Sum>j\<leftarrow>Ls. worth (?new j)) \<le> weight f" using sum_one [OF d, of l "[f]"] by simp
  ultimately show ?thesis unfolding adds_def by blast
qed

lemma same_above_adds: "same_above s s' \<Longrightarrow> prefix (io_trace s) (io_trace s') \<Longrightarrow> adds Ls 0 s s'"
  by (rule adds_loops) (simp_all add: same_above_def)

lemma set_poller_view: "set_poller l pl s = Inr s' \<Longrightarrow> loop_view s' k = loop_view s k \<and> io_trace s' = io_trace s"
  by (auto simp: set_poller_def upd_loop_eq_Inr loop_view_def)

lemma adds_set_events:
  assumes "set_events os me chg p s = Inr s'" shows "adds Ls 0 s s'"
proof -
  from assms obtain c pl pl1 t where s1: "poller_updateChannel os me pl p (put_chan p (c\<lparr>ch_events := change_events chg (ch_events c)\<rparr>) s) = Inr (pl1, t)"
      "set_poller (ch_loop c) pl1 t = Inr s'"
    by (auto simp: set_events_def channel_update_def updateChannel_def rbind_eq_Inr upd_chan_eq_Inr)
  have "prefix (io_trace s) (io_trace s')" using set_events_trace [OF assms] by (auto simp: ctl_only_def)
  moreover have "loop_view s' k = loop_view s k" for k
    using poller_updateChannel_frame [OF s1(1)] set_poller_view [OF s1(2)] by (simp add: same_above_def loop_view_def)
  ultimately show ?thesis by (intro adds_none)
qed

lemma adds_channel_remove:
  assumes "channel_remove os me p s = Inr s'" shows "adds Ls 0 s s'"
proof -
  from assms obtain pl pl1 t l where t: "poller_removeChannel os me pl p s = Inr (pl1, t)" "set_poller l pl1 t = Inr s'"
    by (auto simp: channel_remove_def removeChannel_def rbind_eq_Inr)
  have "prefix (io_trace s) (io_trace s')" using channel_remove_trace [OF assms] by (auto simp: ctl_only_def)
  moreover have "loop_view s' k = loop_view s k" for k
    using poller_removeChannel_frame [OF t(1)] set_poller_view [OF t(2)] by (simp add: same_above_def loop_view_def)
  ultimately show ?thesis by (intro adds_none)
qed

subsection \<open>What a connection's callbacks queue\<close>

text \<open>
  A connection can still be shut down once, as long as it is connected. \<open>spends Ls me k n\<close>: with that
  counted, no more than \<open>n\<close> is queued, in the thread of the connection \<open>k\<close>.
\<close>

definition can_shutdown :: "conn_id \<Rightarrow> 'a net_scheme \<Rightarrow> nat" where
  "can_shutdown k s = (case conns s k of None \<Rightarrow> 0 | Some cn \<Rightarrow> if conn_state cn = kConnected then 1 else 0)"

definition conn_here :: "tid \<Rightarrow> conn_id \<Rightarrow> 'a net_scheme \<Rightarrow> bool" where
  "conn_here me k s \<longleftrightarrow> (\<forall>cn. conns s k = Some cn \<longrightarrow> conn_static cn \<and> thread_of s (conn_loop cn) = me)"

definition spends :: "loop_id list \<Rightarrow> tid \<Rightarrow> conn_id \<Rightarrow> nat \<Rightarrow> 'a net_scheme \<Rightarrow> 'a net_scheme \<Rightarrow> bool" where
  "spends Ls me k n s s' \<longleftrightarrow> (conn_here me k s \<longrightarrow> conn_here me k s' \<and>
     (\<exists>m. adds Ls m s s' \<and> m + can_shutdown k s' \<le> n + can_shutdown k s))"

lemma spends_trans:
  assumes "spends Ls me k m s t" "spends Ls me k n t u" shows "spends Ls me k (m + n) s u"
  unfolding spends_def
proof (intro impI)
  assume "conn_here me k s"
  with assms obtain a b where "conn_here me k u" "adds Ls a s t" "a + can_shutdown k t \<le> m + can_shutdown k s"
    "adds Ls b t u" "b + can_shutdown k u \<le> n + can_shutdown k t" unfolding spends_def by blast
  then show "conn_here me k u \<and> (\<exists>c. adds Ls c s u \<and> c + can_shutdown k u \<le> m + n + can_shutdown k s)"
    by (intro conjI exI [of _ "a + b"]) (simp_all add: adds_trans)
qed

lemma spends_0_trans: "spends Ls me k 0 s t \<Longrightarrow> spends Ls me k n t u \<Longrightarrow> spends Ls me k n s u"
  using spends_trans [of Ls me k 0 s t n u] by simp

lemma spends_mono: "spends Ls me k m s s' \<Longrightarrow> m \<le> n \<Longrightarrow> spends Ls me k n s s'"
  unfolding spends_def by (meson add_le_mono1 le_trans)

lemma spends_refl: "spends Ls me k 0 s s"
  unfolding spends_def by (auto intro!: exI [of _ 0] adds_refl)

text \<open>Nothing happens to the connection but in its buffers and its state, which does not become \<open>kConnected\<close>.\<close>

lemma spends_by:
  assumes ad: "adds Ls n s s'"
    and cn: "\<And>cn'. conns s' k = Some cn' \<Longrightarrow> \<exists>cn. conns s k = Some cn \<and> conn_loop cn' = conn_loop cn \<and>
      (conn_static cn \<longrightarrow> conn_static cn') \<and> (conn_state cn' = kConnected \<longrightarrow> conn_state cn = kConnected)"
  shows "spends Ls me k n s s'"
proof -
  have "can_shutdown k s' \<le> can_shutdown k s" using cn by (fastforce simp: can_shutdown_def split: option.splits)
  moreover have "conn_here me k s'" if "conn_here me k s"
    unfolding conn_here_def
  proof (intro allI impI)
    fix cn' assume "conns s' k = Some cn'"
    from cn [OF this] obtain cn where "conns s k = Some cn" "conn_loop cn' = conn_loop cn" "conn_static cn \<longrightarrow> conn_static cn'" by blast
    with that adds_thread [OF ad] show "conn_static cn' \<and> thread_of s' (conn_loop cn') = me" by (simp add: conn_here_def)
  qed
  ultimately show ?thesis using ad unfolding spends_def by (blast intro: add_le_mono order_refl)
qed

lemma spends_frame: "adds Ls n s s' \<Longrightarrow> conns s' = conns s \<Longrightarrow> spends Ls me k n s s'"
  by (rule spends_by) simp_all

lemma spends_net_frame: "adds Ls n s s' \<Longrightarrow> net_frame s s' \<Longrightarrow> spends Ls me k n s s'"
  by (rule spends_frame) (simp_all add: net_frame_conns)

lemma spends_set_events: "set_events os me chg p s = Inr s' \<Longrightarrow> spends Ls i k 0 s s'"
  by (rule spends_net_frame [OF adds_set_events set_events_net])

lemma spends_call: "spends Ls i k 0 s (snd (do_call os me call s))"
  by (rule spends_net_frame [OF adds_call do_call_net])

lemma spends_upd_conn:
  assumes "upd_conn k f s = Inr s'"
    and "\<And>cn. conn_loop (f cn) = conn_loop cn" "\<And>cn. conn_static (f cn) = conn_static cn"
    and "\<And>cn. conn_state (f cn) = kConnected \<Longrightarrow> conn_state cn = kConnected"
  shows "spends Ls me k 0 s s'"
proof -
  from assms(1) obtain cn where cn: "conns s k = Some cn" "s' = put_conn k (f cn) s" by (auto simp: upd_conn_def rbind_eq_Inr)
  have "adds Ls 0 s s'" by (rule adds_loops) (simp_all add: cn(2))
  then show ?thesis by (rule spends_by) (use cn assms(2-4) in auto)
qed

lemma spends_buffer:
  "upd_conn k (\<lambda>cn. cn\<lparr>inputBuffer := b cn\<rparr>) s = Inr s' \<Longrightarrow> spends Ls me k 0 s s'"
  "upd_conn k (\<lambda>cn. cn\<lparr>outputBuffer := b cn\<rparr>) s = Inr s' \<Longrightarrow> spends Ls me k 0 s s'"
  by (erule spends_upd_conn; simp add: conn_static_def)+

lemma direct_write_frame:
  assumes "direct_write os me k msg s = Inr (n, rem, e, s')" "conns s k = Some cn" "\<not> hasWriteCompleteCb cn"
  shows "adds Ls 0 s s' \<and> conns s' = conns s"
  using assms by (auto simp: direct_write_def rbind_eq_Inr Let_def split_beta split: if_splits intro: adds_refl adds_call)

lemma spends_sendInLoop:
  assumes run: "sendInLoop os me k msg s = Inr s'" shows "spends Ls i k 0 s s'"
proof -
  have "adds Ls 0 s s' \<and> conns s' = conns s" if here: "conn_here i k s"
  proof -
    from run obtain cn where cn: "conns s k = Some cn" by (auto simp: sendInLoop_def rbind_eq_Inr)
    with here have st: "\<not> hasWriteCompleteCb cn" "\<not> hasHighWaterCb cn" by (auto simp: conn_here_def conn_static_def)
    show ?thesis
    proof (cases "conn_state cn = kDisconnected")
      case True
      with run cn show ?thesis by (simp add: sendInLoop_def adds_refl)
    next
      case False
      with run cn obtain n rem e t where t: "direct_write os me k msg s = Inr (n, rem, e, t)"
        "s' = t \<or> buffer_rest os me k (drop n msg) rem t = Inr s'"
        by (auto simp: sendInLoop_def rbind_eq_Inr split: if_splits)
      note d = direct_write_frame [OF t(1) cn st(1), of Ls]
      then have "s' = t" using t(2) cn st(2) by (auto simp: buffer_rest_def)
      with d show ?thesis by simp
    qed
  qed
  then show ?thesis using spends_frame unfolding spends_def by blast
qed

lemma spends_send:
  assumes run: "send os me k a s = Inr s'" shows "spends Ls me k 0 s s'"
proof -
  have "spends Ls me k 0 s s'" if here: "conn_here me k s"
  proof -
    from run obtain cn where cn: "conns s k = Some cn" by (auto simp: send_def rbind_eq_Inr)
    show ?thesis
    proof (cases "conn_state cn = kConnected")
      case False
      with run cn show ?thesis by (simp add: send_def spends_refl)
    next
      case True
      with run cn obtain lp buf where lp: "loops s (conn_loop cn) = Some lp"
        "(if isInLoopThread me lp then sendInLoop os me k buf s else queueInLoop os me (conn_loop cn) (SendInLoop k a (length buf)) s) = Inr s'"
        by (auto simp: send_def rbind_eq_Inr)
      have "thread_of s (conn_loop cn) = me" using here cn by (simp add: conn_here_def)
      with lp have "sendInLoop os me k buf s = Inr s'" by (simp add: isInLoopThread_def thread_of_def)
      then show ?thesis by (rule spends_sendInLoop)
    qed
  qed
  then show ?thesis unfolding spends_def by blast
qed

lemma spends_shutdown:
  assumes run: "shutdown os me k s = Inr s'" and d: "distinct Ls" shows "spends Ls i k 0 s s'"
proof -
  from run obtain cn where cn: "conns s k = Some cn" by (auto simp: shutdown_def rbind_eq_Inr)
  show ?thesis
  proof (cases "conn_state cn = kConnected")
    case False
    with run cn show ?thesis by (simp add: shutdown_def spends_refl)
  next
    case True
    let ?cn = "cn\<lparr>conn_state := kDisconnecting\<rparr>"
    from run cn True have q: "queueInLoop os me (conn_loop cn) (ShutdownInLoop k) (put_conn k ?cn s) = Inr s'"
      by (simp add: shutdown_def setState_def upd_conn_def)
    have s': "conns s' k = Some ?cn" using net_frame_conns [OF queueInLoop_net [OF q]] by simp
    have "adds Ls 0 s (put_conn k ?cn s)" by (rule adds_loops) simp_all
    from adds_trans [OF this adds_queue [OF q d]] have ad: "adds Ls 1 s s'" by simp
    have "conn_here i k s'" if "conn_here i k s"
      using that cn s' adds_thread [OF ad] by (simp add: conn_here_def conn_static_def)
    then show ?thesis using ad cn s' True unfolding spends_def by (auto simp: can_shutdown_def intro!: exI [of _ 1])
  qed
qed

lemma spends_run_call:
  assumes run: "run_call os me call s = Inr s'" and k: "call_conn call = k" and d: "distinct Ls" shows "spends Ls me k 0 s s'"
proof (cases call)
  case (UcSend j msg)
  let ?s = "s\<lparr>strings := (strings s)(next_string s := Some msg), next_string := Suc (next_string s)\<rparr>"
  have "adds Ls 0 s ?s" by (rule adds_loops) simp_all
  then have "spends Ls me k 0 s ?s" by (rule spends_frame) simp
  moreover have "spends Ls me k 0 ?s s'" by (rule spends_send) (use run k UcSend in auto)
  ultimately show ?thesis by (rule spends_0_trans)
next
  case (UcShutdown j)
  with run k spends_shutdown [OF _ d] show ?thesis by simp
next
  case (UcRetrieve j n)
  with run k show ?thesis by (auto intro: spends_buffer)
next
  case (UcRetrieveAll j)
  with run k show ?thesis by (auto simp: rbind_eq_Inr intro: spends_buffer)
qed

lemma spends_run_calls:
  assumes run: "run_calls os me calls s = Inr s'" and k: "\<forall>call \<in> set calls. call_conn call = k" and d: "distinct Ls"
  shows "spends Ls me k 0 s s'"
proof -
  from run obtain t where t: "foldr_res (run_call os me) calls s = Inr t"
    "s' = t\<lparr>strings := (\<lambda>a. if next_string s \<le> a then None else strings t a)\<rparr>" by (auto simp: run_calls_def rbind_eq_Inr)
  have "spends Ls me k 0 s t"
    by (rule foldr_res_inv [OF t(1)]) (use k d in \<open>auto intro: spends_refl spends_0_trans spends_run_call\<close>)
  moreover have "adds Ls 0 t s'" by (rule adds_loops) (simp_all add: t(2))
  then have "spends Ls me k 0 t s'" by (rule spends_frame) (simp add: t(2))
  ultimately show ?thesis by (rule spends_0_trans)
qed

subsection \<open>What an event and a functor queue\<close>

lemma spends_connectionCb:
  assumes run: "call_connectionCb os me uc k s = Inr s'" and uc: "local_user uc" and d: "distinct Ls"
  shows "spends Ls me k 0 s s'"
proof -
  from run obtain cn where cn: "run_calls os me (onConnection uc k (connected cn)) s = Inr s'"
    by (auto simp: call_connectionCb_def rbind_eq_Inr split: if_splits)
  show ?thesis by (rule spends_run_calls [OF cn _ d]) (use uc in \<open>simp add: local_user_def\<close>)
qed

lemma spends_messageCb:
  assumes run: "call_messageCb os me uc k t s = Inr s'" and uc: "local_user uc" and d: "distinct Ls"
  shows "spends Ls me k 0 s s'"
proof -
  from run obtain cn where "conns s k = Some cn" by (auto simp: call_messageCb_def rbind_eq_Inr)
  with run have cn: "run_calls os me (onMessage uc k (contents (inputBuffer cn)) t) s = Inr s'"
    by (simp add: call_messageCb_def split: if_splits)
  show ?thesis by (rule spends_run_calls [OF cn _ d]) (use uc in \<open>simp add: local_user_def\<close>)
qed

lemma setState_spends:
  assumes "setState st k s = Inr s'" "st \<noteq> kConnected" shows "spends Ls me k 0 s s'" "can_shutdown k s' = 0"
proof -
  show "spends Ls me k 0 s s'"
    by (rule spends_upd_conn [OF assms(1) [unfolded setState_def]]) (use assms(2) in \<open>simp_all add: conn_static_def\<close>)
  show "can_shutdown k s' = 0" using assms by (auto simp: setState_def upd_conn_def rbind_eq_Inr can_shutdown_def)
qed

lemma adds_runInLoop:
  assumes run: "runInLoop os me run l f s = Inr s'" and d: "distinct Ls" and l: "thread_of s l \<noteq> me"
  shows "queueInLoop os me l f s = Inr s'" "adds Ls (weight f) s s'"
proof -
  show q: "queueInLoop os me l f s = Inr s'" using run l by (auto simp: runInLoop_def isInLoopThread_def thread_of_def rbind_eq_Inr)
  show "adds Ls (weight f) s s'" by (rule adds_queue [OF q d])
qed

lemma spends_removeConnection:
  assumes run: "removeConnection os me (server_run os me uc) k s = Inr s'" and d: "distinct Ls"
  shows "spends Ls i k 2 s s'"
proof -
  from run obtain lp where "loops s (base s) = Some lp" by (auto simp: removeConnection_def runInLoop_def rbind_eq_Inr)
  with run have r: "(if isInLoopThread me lp then removeConnectionInLoop os me k s
      else queueInLoop os me (base s) (RemoveConnectionInLoop k) s) = Inr s'"
    by (simp add: removeConnection_def runInLoop_def server_run_def split: if_splits)
  show ?thesis
  proof (cases "isInLoopThread me lp")
    case False
    with r have q: "queueInLoop os me (base s) (RemoveConnectionInLoop k) s = Inr s'" by simp
    from adds_queue [OF q d] have "adds Ls 2 s s'" by simp
    then show ?thesis by (rule spends_net_frame) (rule queueInLoop_net [OF q])
  next
    case True
    with r obtain cn :: tcpconn and sv where q: "queueInLoop os me (conn_loop cn) (ConnectDestroyed k) (put_srv sv s) = Inr s'"
      by (auto simp: removeConnectionInLoop_def rbind_eq_Inr)
    have "adds Ls 0 s (put_srv sv s)" by (rule adds_loops) simp_all
    from adds_trans [OF this adds_queue [OF q d]] have "adds Ls 2 s s'" by (simp add: adds_mono)
    then show ?thesis by (rule spends_frame) (simp add: net_frame_conns [OF queueInLoop_net [OF q]])
  qed
qed

lemma spends_handleClose:
  assumes run: "handleClose os me uc (removeConnection os me (server_run os me uc)) k s = Inr s'"
    and uc: "local_user uc" and d: "distinct Ls"
  shows "spends Ls me k 2 s s'"
proof -
  from run obtain s1 s2 s3 and cn :: tcpconn where s: "setState kDisconnected k s = Inr s1"
    "set_events os me DisableAll (conn_channel cn) s1 = Inr s2" "call_connectionCb os me uc k s2 = Inr s3"
    "removeConnection os me (server_run os me uc) k s3 = Inr s'"
    by (auto simp: handleClose_def call_closeCb_def rbind_eq_Inr split: if_splits)
  have "spends Ls me k 0 s s1" by (rule setState_spends [OF s(1)]) simp
  from spends_0_trans [OF this spends_0_trans [OF spends_set_events [OF s(2)] spends_0_trans [OF spends_connectionCb [OF s(3) uc d]
      spends_removeConnection [OF s(4) d]]]] show ?thesis .
qed

lemma spends_handleError: "handleError os me k s = Inr s' \<Longrightarrow> spends Ls i k 0 s s'"
  by (auto simp: handleError_def rbind_eq_Inr intro: spends_call)

lemma spends_handleRead:
  assumes run: "handleRead os me uc (removeConnection os me (server_run os me uc)) k t s = Inr s'"
    and uc: "local_user uc" and d: "distinct Ls"
  shows "spends Ls me k 2 s s'"
proof -
  from run obtain cn :: tcpconn and n :: int and b s1 where s: "upd_conn k (\<lambda>cn. cn\<lparr>inputBuffer := b\<rparr>)
      (snd (do_call os me (Readv (conn_fd cn) (readv_lens (inputBuffer cn))) s)) = Inr s1"
    "(if 0 < n then call_messageCb os me uc k t s1 else if n = 0
      then handleClose os me uc (removeConnection os me (server_run os me uc)) k s1 else handleError os me k s1) = Inr s'"
    unfolding handleRead_def rbind_eq_Inr Let_def split_beta by blast
  have "spends Ls me k 2 s1 s'"
    using s(2) spends_messageCb [OF _ uc d, of os me k t s1 s'] spends_handleClose [OF _ uc d, of os me k s1 s']
      spends_handleError [of os me k s1 s' Ls me] by (auto split: if_splits intro: spends_mono)
  from spends_0_trans [OF spends_call spends_0_trans [OF spends_buffer(1) [OF s(1)] this]] show ?thesis .
qed

lemma spends_shutdownInLoop: "shutdownInLoop os me k s = Inr s' \<Longrightarrow> spends Ls i k 0 s s'"
  by (auto simp: shutdownInLoop_def rbind_eq_Inr split: if_splits intro: spends_call spends_refl)

lemma spends_handleWrite:
  assumes run: "handleWrite os me k s = Inr s'" shows "spends Ls i k 0 s s'"
proof -
  have "spends Ls i k 0 s s'" if here: "conn_here i k s"
  proof -
    from run obtain cn where cn: "conns s k = Some cn" by (auto simp: handleWrite_def rbind_eq_Inr)
    with here have nw: "\<not> hasWriteCompleteCb cn" by (simp add: conn_here_def conn_static_def)
    from run cn obtain ch where ch: "conn_chan s cn = Inr ch" by (auto simp: handleWrite_def rbind_eq_Inr)
    show ?thesis
    proof (cases "isWriting ch")
      case False
      with run cn ch show ?thesis by (simp add: handleWrite_def spends_refl)
    next
      case True
      with run cn ch obtain msg n e where w: "writeFd_data (outputBuffer cn) = Inr msg"
        "writeFd (write_answer (fst (do_call os me (WriteFd (conn_fd cn) msg) s))) (outputBuffer cn) = Inr (n, e)"
        by (auto simp: handleWrite_def rbind_eq_Inr split_beta)
      let ?s1 = "snd (do_call os me (WriteFd (conn_fd cn) msg) s)"
      have s1: "spends Ls i k 0 s ?s1" by (rule spends_call)
      show ?thesis
      proof (cases "0 < n")
        case False
        with run cn ch True w s1 show ?thesis by (simp add: handleWrite_def split_beta Let_def)
      next
        case pos: True
        let ?b = "retrieve (of_int n) (outputBuffer cn)"
        from run cn ch True w pos obtain s2 where s2: "upd_conn k (\<lambda>cn. cn\<lparr>outputBuffer := ?b\<rparr>) ?s1 = Inr s2"
          "(if readableBytes ?b = 0 then rbind (set_events os me DisableWriting (conn_channel cn) s2) (\<lambda>s.
             rbind (get_conn s k) (\<lambda>cn. if conn_state cn = kDisconnecting then shutdownInLoop os me k s else Inr s))
            else Inr s2) = Inr s'"
          using nw by (auto simp: handleWrite_def split_beta Let_def rbind_eq_Inr cong del: if_weak_cong)
        have "spends Ls i k 0 s2 s'"
          using s2(2) by (auto simp: rbind_eq_Inr split: if_splits
              intro: spends_refl spends_set_events spends_0_trans [OF spends_set_events spends_shutdownInLoop])
        from spends_0_trans [OF s1 spends_0_trans [OF spends_buffer(2) [OF s2(1)] this]] show ?thesis .
      qed
    qed
  qed
  then show ?thesis unfolding spends_def by blast
qed

lemma spends_adds: "spends Ls me k n s s' \<Longrightarrow> conn_here me k s \<Longrightarrow> adds Ls (n + can_shutdown k s) s s'"
  unfolding spends_def by (blast intro: adds_mono add_leD1)

lemma can_shutdown_le: "can_shutdown k s \<le> 1"
  by (simp add: can_shutdown_def split: option.split)

lemma adds_connectEstablished:
  assumes run: "connectEstablished os me uc k s = Inr s'" and here: "conn_here me k s" and uc: "local_user uc" and d: "distinct Ls"
  shows "adds Ls 1 s s'"
proof -
  from run obtain cn where cn: "conns s k = Some cn" by (auto simp: connectEstablished_def setState_def upd_conn_def rbind_eq_Inr)
  let ?s1 = "put_conn k (cn\<lparr>conn_state := kConnected\<rparr>) s"
  from run cn obtain s2 s3 where s: "upd_chan (conn_channel cn) (tie k) ?s1 = Inr s2"
    "set_events os me EnableReading (conn_channel cn) s2 = Inr s3" "call_connectionCb os me uc k s3 = Inr s'"
    by (auto simp: connectEstablished_def setState_def upd_conn_def rbind_eq_Inr)
  have a1: "adds Ls 0 s ?s1" by (rule adds_loops) simp_all
  have h1: "conn_here me k ?s1" using here cn adds_thread [OF a1] by (simp add: conn_here_def conn_static_def)
  have "conns s2 = conns ?s1" "adds Ls 0 ?s1 s2" using s(1) by (auto simp: upd_chan_eq_Inr intro!: adds_loops)
  then have "spends Ls me k 0 ?s1 s2" by (intro spends_frame) simp_all
  from spends_0_trans [OF this spends_0_trans [OF spends_set_events [OF s(2)] spends_connectionCb [OF s(3) uc d]]]
  have "adds Ls (0 + can_shutdown k ?s1) ?s1 s'" using h1 by (rule spends_adds)
  from adds_trans [OF a1 this] show ?thesis by (simp add: can_shutdown_def)
qed

lemma adds_connectDestroyed:
  assumes run: "connectDestroyed os me uc k s = Inr s'" and here: "conn_here me k s" and uc: "local_user uc" and d: "distinct Ls"
  shows "adds Ls 0 s s'"
proof -
  from run obtain cn where cn: "conns s k = Some cn" by (auto simp: connectDestroyed_def rbind_eq_Inr)
  show ?thesis
  proof (cases "conn_state cn = kConnected")
    case False
    with run cn have "channel_remove os me (conn_channel cn) s = Inr s'" by (simp add: connectDestroyed_def)
    then show ?thesis by (rule adds_channel_remove)
  next
    case True
    let ?s1 = "put_conn k (cn\<lparr>conn_state := kDisconnected\<rparr>) s"
    from run cn True obtain s2 s3 where s: "set_events os me DisableAll (conn_channel cn) ?s1 = Inr s2"
      "call_connectionCb os me uc k s2 = Inr s3" "channel_remove os me (conn_channel cn) s3 = Inr s'"
      by (auto simp: connectDestroyed_def setState_def upd_conn_def rbind_eq_Inr)
    have a1: "adds Ls 0 s ?s1" by (rule adds_loops) simp_all
    have h1: "conn_here me k ?s1" using here cn adds_thread [OF a1] by (simp add: conn_here_def conn_static_def)
    from spends_0_trans [OF spends_set_events [OF s(1)] spends_connectionCb [OF s(2) uc d]] h1
    have "adds Ls (0 + can_shutdown k ?s1) ?s1 s3" by (rule spends_adds)
    then have "adds Ls 0 ?s1 s3" by (simp add: can_shutdown_def)
    from adds_trans [OF a1 adds_trans [OF this adds_channel_remove [OF s(3)]]] show ?thesis by simp
  qed
qed

lemma other_thread:
  assumes inv: "running_inv os B X E C D s" and l: "l \<in> set (workers s)" shows "thread_of s l \<noteq> thread_of s (base s)"
proof -
  have "base s \<noteq> l" using base_not_worker [OF inv] l by blast
  then show ?thesis using running_invD(2) [OF inv] base_loop worker_loop [OF l] unfolding loops_wf_def inj_on_def by metis
qed

lemma running_conn_here:
  assumes inv: "running_inv os B X E C D s" and k: "conns s k = Some cn" and me: "thread_of s (conn_loop cn) = me"
  shows "conn_here me k s"
  using running_invD(4) [OF inv] k me by (simp add: conn_here_def conns_wf_def)

lemma adds_newConnection:
  assumes inv: "running_inv os B {} {} {} D s" and me: "thread_of s (base s) = me" and d: "distinct Ls"
    and run: "newConnection os me run fd peer s = Inr s'"
  shows "adds Ls 2 s s'"
proof -
  note wf = running_invD [OF inv]
  from pool.pick_next [OF wf(7)] pool.pos_bound [OF wf(7)] obtain l pool where
    nxt: "getNextLoop (srv_pool (srv s)) = Inr (l, pool)" and l: "l \<in> set (workers s)" by auto
  have id: "nextConnId (srv s) \<noteq> INT_MAX" using run by (auto simp: newConnection_def nxt)
  from newConnection_made [OF nxt id, of os me run fd peer] obtain s3 where
    s3: "newConnection os me run fd peer s = runInLoop os me run l (ConnectEstablished (next_conn s)) s3" "loops s3 = loops s"
      "\<exists>tr. io_trace s3 = io_trace s @ tr" by metis
  have a: "adds Ls 0 s s3" by (rule adds_loops [OF s3(2)]) (use s3(3) in \<open>auto simp: prefix_def\<close>)
  have "thread_of s3 l \<noteq> me" using other_thread [OF inv l] me by (simp add: adds_thread [OF a])
  then have "adds Ls (weight (ConnectEstablished (next_conn s))) s3 s'" by (rule adds_runInLoop(2) [OF run [unfolded s3(1)] d])
  from adds_trans [OF a this] show ?thesis by (simp add: numeral_2_eq_2)
qed

lemma adds_accept:
  assumes inv: "running_inv os B {} {} {} D s" and me: "thread_of s (base s) = me" and d: "distinct Ls"
    and run: "server_accept os me uc d t s = Inr s'"
  shows "adds Ls 2 s s'"
proof -
  let ?a = "srv_acceptor (srv s)"
  let ?call = "Accept (acc_fd ?a)"
  define s1 where "s1 = snd (do_call os me ?call s)"
  have i1: "running_inv os B {} {} {} D s1" using running_call [OF inv, of ?call me] by (simp add: s1_def)
  have cb: "hasNewConnectionCb ?a" using inv by (simp add: running_inv_def)
  have a: "adds Ls 0 s s1" unfolding s1_def by (rule adds_call)
  have "srv s1 = srv s" by (simp add: s1_def)
  then have t1: "thread_of s1 (base s1) = me" using me by (simp add: adds_thread [OF a])
  have call: "do_call os me ?call s = (os (io_trace s) ?call, s1)" by (simp add: s1_def prod_eq_iff)
  show ?thesis
  proof (cases "0 \<le> ret (os (io_trace s) ?call)")
    case False
    with run have "s' = s1" by (simp add: server_accept_def acceptor_handleRead_def socket_accept_def call)
    with adds_mono [OF a, of 2] show ?thesis by simp
  next
    case True
    with run cb obtain fd peer where "newConnection os me (server_run os me uc) fd peer s1 = Inr s'"
      by (auto simp: server_accept_def acceptor_handleRead_def socket_accept_def call)
    from adds_trans [OF a adds_newConnection [OF i1 t1 d this]] show ?thesis by (simp add: numeral_2_eq_2)
  qed
qed

text \<open>A functor queues less than it is worth.\<close>

lemma functor_adds:
  assumes inv: "running_inv os (B(l := f # fs)) {} {} {} D s" and l: "l \<in> set (all_loops s)" and me: "thread_of s l = me"
    and uc: "local_user uc" and d: "distinct Ls" and run: "server_run os me uc f s = Inr s'"
  shows "adds Ls (weight f - 1) s s'"
proof (cases "l = base s")
  case True
  with running_invD(5) [OF inv] obtain k where f: "f = RemoveConnectionInLoop k"
    unfolding queues_wf_def base_functor_def by (auto simp: waiting_def)
  from run f obtain cn :: tcpconn and sv where q: "queueInLoop os me (conn_loop cn) (ConnectDestroyed k) (put_srv sv s) = Inr s'"
    by (auto simp: server_run_def removeConnectionInLoop_def rbind_eq_Inr)
  have "adds Ls 0 s (put_srv sv s)" by (rule adds_loops) simp_all
  from adds_trans [OF this adds_queue [OF q d]] show ?thesis by (simp add: f)
next
  case False
  with l have w: "l \<in> set (workers s)" by (simp add: server_loops_def)
  from worker_head(1) [OF inv w] obtain k cn where k: "conns s k = Some cn" "conn_loop cn = l"
    and f: "f = ConnectEstablished k \<or> f = ConnectDestroyed k \<or> f = ShutdownInLoop k" unfolding worker_functor_def by blast
  have here: "conn_here me k s" by (rule running_conn_here [OF inv k(1)]) (simp add: k(2) me)
  from f show ?thesis
  proof (elim disjE)
    assume "f = ConnectEstablished k"
    with run adds_connectEstablished [OF _ here uc d] show ?thesis by (simp add: server_run_def)
  next
    assume "f = ConnectDestroyed k"
    with run adds_connectDestroyed [OF _ here uc d] show ?thesis by (simp add: server_run_def)
  next
    assume f: "f = ShutdownInLoop k"
    with run have "shutdownInLoop os me k s = Inr s'" by (simp add: server_run_def)
    then have "adds Ls 0 s s'" by (auto simp: shutdownInLoop_def rbind_eq_Inr split: if_splits intro: adds_call adds_refl)
    then show ?thesis by (simp add: f)
  qed
qed

text \<open>So does an event, by a bound for all four callbacks; a wakeup queues nothing.\<close>

lemma spends_cb:
  assumes run: "server_cb os me uc d cb t s = Inr s'" and uc: "local_user uc" and d: "distinct Ls"
    and cb: "cb \<in> {ConnHandleRead k, ConnHandleWrite k, ConnHandleClose k, ConnHandleError k}"
  shows "spends Ls me k (if cb \<in> {ConnHandleRead k, ConnHandleClose k} then 2 else 0) s s'"
  using cb run spends_handleRead [OF _ uc d] spends_handleClose [OF _ uc d] spends_handleWrite spends_handleError
  unfolding server_cb_def by auto

lemma conn_guard_spends:
  assumes inv: "running_inv os B {} {} {} D s" and c: "chans s p = Some c" "ch_index c \<noteq> kNew"
    and k: "callbacks_of c = conn_callbacks k" and me: "thread_of s (ch_loop c) = me" and uc: "local_user uc"
    and os: "short_messages os" "new_fds_documented os" and d: "distinct Ls"
    and run: "handleEventWithGuard (server_cb os me uc d') p t s = Inr s'"
  shows "spends Ls me k 4 s s'"
proof -
  let ?run = "server_cb os me uc d'"
  have sp: "spends Ls me k (if o1 \<in> {closeCallback e, readCallback e} then 2 else 0) u u'"
    if "callbacks_of e = conn_callbacks k" "o1 \<in> {closeCallback e, errorCallback e, readCallback e, writeCallback e}"
      "call_if ?run t b o1 u = Inr u'" for e o1 b u u'
  proof (cases b)
    case False
    with that(3) show ?thesis by (simp add: call_if_def spends_mono [OF spends_refl])
  next
    case True
    have "o1 \<in> Some ` {ConnHandleRead k, ConnHandleWrite k, ConnHandleClose k, ConnHandleError k}"
      using that(1,2) by (auto simp: callbacks_of_def conn_callbacks_def)
    then obtain cb where cb: "o1 = Some cb" "cb \<in> {ConnHandleRead k, ConnHandleWrite k, ConnHandleClose k, ConnHandleError k}" by blast
    with True that(3) have "?run cb t u = Inr u'" by (simp add: call_if_def)
    from spends_cb [OF this uc d cb(2)] show ?thesis using that(1) cb by (auto simp: callbacks_of_def conn_callbacks_def)
  qed
  have next_chan: "\<exists>e. running_inv os B {} {} {} D u' \<and> chans u' p = Some e \<and> callbacks_of e = conn_callbacks k \<and>
      ch_index e \<noteq> kNew \<and> thread_of u' (ch_loop e) = me"
    if "running_inv os B {} {} {} D u" "chans u p = Some e0" "ch_index e0 \<noteq> kNew" "callbacks_of e0 = conn_callbacks k"
      "thread_of u (ch_loop e0) = me" "o1 \<in> {closeCallback e0, errorCallback e0, readCallback e0, writeCallback e0}"
      "call_if ?run t b o1 u = Inr u'" for u e0 o1 b u'
  proof -
    have "o1 \<noteq> Some AcceptorHandleRead" using that(4,6) by (auto simp: callbacks_of_def conn_callbacks_def)
    from running_call_plain [OF that(1,2,3,5) uc os that(6) this, of d' t b] that(4,7) show ?thesis by auto
  qed
  from run c(1) obtain s1 where s1: "call_if ?run t (wants_close (ch_revents c)) (closeCallback c) s = Inr s1"
    by (auto simp: handleEventWithGuard_def rbind_eq_Inr)
  from next_chan [OF inv c k me _ s1] obtain c1 where c1: "running_inv os B {} {} {} D s1" "chans s1 p = Some c1"
    "callbacks_of c1 = conn_callbacks k" "ch_index c1 \<noteq> kNew" "thread_of s1 (ch_loop c1) = me" by auto
  from run c(1) s1 c1(2) obtain s2 where s2: "call_if ?run t (wants_error (ch_revents c1)) (errorCallback c1) s1 = Inr s2"
    by (auto simp: handleEventWithGuard_def rbind_eq_Inr)
  from next_chan [OF c1(1,2,4,3,5) _ s2] obtain c2 where c2: "running_inv os B {} {} {} D s2" "chans s2 p = Some c2"
    "callbacks_of c2 = conn_callbacks k" "ch_index c2 \<noteq> kNew" "thread_of s2 (ch_loop c2) = me" by auto
  from run c(1) s1 c1(2) s2 c2(2) obtain s3 where s3: "call_if ?run t (wants_read (ch_revents c2)) (readCallback c2) s2 = Inr s3"
    by (auto simp: handleEventWithGuard_def rbind_eq_Inr)
  from next_chan [OF c2(1,2,4,3,5) _ s3] obtain c3 where c3: "chans s3 p = Some c3" "callbacks_of c3 = conn_callbacks k" by auto
  from run c(1) s1 c1(2) s2 c2(2) s3 c3(1) have s4: "call_if ?run t (wants_write (ch_revents c3)) (writeCallback c3) s3 = Inr s'"
    by (simp add: handleEventWithGuard_def)
  have "spends Ls me k 2 s s1" using sp [OF k _ s1] by simp
  moreover have "spends Ls me k 0 s1 s2" using sp [OF c1(3) _ s2] c1(3) by (auto simp: callbacks_of_def conn_callbacks_def)
  moreover have "spends Ls me k 2 s2 s3" using sp [OF c2(3) _ s3] by simp
  moreover have "spends Ls me k 0 s3 s'" using sp [OF c3(2) _ s4] c3(2) by (auto simp: callbacks_of_def conn_callbacks_def)
  ultimately have "spends Ls me k (2 + (0 + (2 + 0))) s s'" by (intro spends_trans)
  then show ?thesis by simp
qed

lemma event_read_only:
  assumes "handleEventWithGuard run p t s = Inr s'" "chans s p = Some c" "closeCallback c = None" "errorCallback c = None"
    "readCallback c = Some cb" "wants_read (ch_revents c)"
  shows "\<exists>u e. run cb t s = Inr u \<and> chans u p = Some e \<and> call_if run t (wants_write (ch_revents e)) (writeCallback e) u = Inr s'"
proof -
  have "call_if run t b None s = Inr s" for b by (simp add: call_if_def)
  with assms(1-4) have "rbind (call_if run t (wants_read (ch_revents c)) (readCallback c) s) (\<lambda>s. rbind (get_chan s p) (\<lambda>c.
      call_if run t (wants_write (ch_revents c)) (writeCallback c) s)) = Inr s'" by (simp add: handleEventWithGuard_def)
  then show ?thesis using assms(5,6) by (simp add: call_if_def [of _ _ True] rbind_eq_Inr)
qed

lemma handle_event_cases:
  assumes "chans s p = Some c"
  shows "handleEvent alive run p t s = (if ch_tied c \<and> (case ch_tie c of None \<Rightarrow> True | Some k \<Rightarrow> \<not> alive k s)
    then Inr s else handleEventWithGuard run p t s)"
  using assms by (simp add: handleEvent_def split: option.split)

lemma event_adds:
  assumes inv: "running_inv os B {} {} {} D s" and c: "chans s p = Some c" "ch_index c \<noteq> kNew"
    and me: "thread_of s (ch_loop c) = me" and uc: "local_user uc"
    and os: "short_messages os" "new_fds_documented os" and d: "distinct Ls"
    and id: "nextConnId (srv s) + is_acceptor s p \<le> INT_MAX"
    and run: "handleEvent alive (server_cb os me uc d') p t s = Inr s'"
  shows "adds Ls (if is_wakeup c then 0 else 5) s s'"
proof -
  consider "s' = s" | "handleEventWithGuard (server_cb os me uc d') p t s = Inr s'"
    using run unfolding handle_event_cases [of s p c alive, OF c(1)] by (metis old.sum.inject(2))
  then show ?thesis
  proof cases
    case 1
    then show ?thesis by (simp add: adds_refl)
  next
    case guard: 2
    have "chan_kind s p c" using running_invD(3) [OF inv] c(1) unfolding chans_wf_def by blast
    then show ?thesis
      unfolding chan_kind_def
    proof (elim disjE conjE exE)
      assume w: "callbacks_of c = (Some (LoopHandleRead (ch_loop c)), None, None, None)"
      then have cbs: "closeCallback c = None" "errorCallback c = None" "writeCallback c = None" "readCallback c = Some (LoopHandleRead (ch_loop c))"
        by (simp_all add: callbacks_of_def)
      show ?thesis
      proof (cases "wants_read (ch_revents c)")
        case False
        with guard c(1) cbs have "s' = s" by (simp add: handleEventWithGuard_def call_if_def split: if_splits)
        then show ?thesis by (simp add: adds_refl)
      next
        case True
        note after = event_read_only [OF guard c(1) cbs(1,2,4) True]
        from after obtain u e where u: "loop_handleRead os me (ch_loop c) s = Inr u" "chans u p = Some e"
          "call_if (server_cb os me uc d') t (wants_write (ch_revents e)) (writeCallback e) u = Inr s'"
          by (auto simp: server_cb_def)
        from u(1) obtain call where "u = snd (do_call os me call s)" by (auto simp: loop_handleRead_def rbind_eq_Inr)
        then have "adds Ls 0 s u" "chans u = chans s" by (simp_all add: adds_call)
        with u(2,3) c(1) cbs(3) show ?thesis using adds_mono [of Ls 0 s s'] by (auto simp: call_if_def split: if_splits)
      qed
    next
      assume a: "callbacks_of c = (Some AcceptorHandleRead, None, None, None)" "ch_loop c = base s"
      then have cbs: "closeCallback c = None" "errorCallback c = None" "writeCallback c = None" "readCallback c = Some AcceptorHandleRead"
        by (simp_all add: callbacks_of_def)
      have nw: "\<not> is_wakeup c" using a(1) by (simp add: is_wakeup_def)
      show ?thesis
      proof (cases "wants_read (ch_revents c)")
        case False
        with guard c(1) cbs have "s' = s" by (simp add: handleEventWithGuard_def call_if_def split: if_splits)
        then show ?thesis by (simp add: adds_refl)
      next
        case True
        note after = event_read_only [OF guard c(1) cbs(1,2,4) True]
        from after obtain u e where u: "server_accept os me uc d' t s = Inr u" "chans u p = Some e"
          "call_if (server_cb os me uc d') t (wants_write (ch_revents e)) (writeCallback e) u = Inr s'"
          by (auto simp: server_cb_def)
        have t: "thread_of s (base s) = me" using me a(2) by simp
        have ad: "adds Ls 2 s u" by (rule adds_accept [OF inv t d u(1)])
        have "nextConnId (srv s) < INT_MAX" using id accept_callback(4) [OF inv c(1) cbs(4)] by simp
        from running_accept [OF inv t this os(2), of uc d' t] u(1) have "grows 1 s u" by auto
        from grows_chan [OF this c(1)] u(2) have "callbacks_of e = callbacks_of c" by (metis option.inject)
        then have "writeCallback e = None" using cbs(3) by (simp add: callbacks_of_def)
        with u(3) have "s' = u" by (simp add: call_if_def split: if_splits)
        with adds_mono [OF ad, of 5] nw show ?thesis by simp
      qed
    next
      fix k cn assume k: "callbacks_of c = conn_callbacks k" "conns s k = Some cn" "conn_channel cn = p"
      have nw: "\<not> is_wakeup c" using k(1) by (simp add: is_wakeup_def conn_callbacks_def)
      from conns_wfD [OF running_invD(4) [OF inv] k(2)] c(1) k(3) have "conn_loop cn = ch_loop c" by (metis option.inject)
      then have "conn_here me k s" using running_conn_here [OF inv k(2)] me by simp
      from spends_adds [OF conn_guard_spends [OF inv c k(1) me uc os d guard] this]
      have "adds Ls (4 + can_shutdown k s) s s'" .
      then show ?thesis using nw can_shutdown_le [of k s] by (simp add: adds_mono)
    qed
  qed
qed

subsection \<open>What is left to do\<close>

text \<open>
  The work of a thread: what waits in its queue, what it is in the middle of, and, if that is
  anything, the way to the next batch. \<open>W\<close> are the wakeup channels, whose events are no work.
\<close>

fun content :: "chan_id set \<Rightarrow> phase \<Rightarrow> nat" where
  "content W (Handling ps now) = 146 * length (filter (\<lambda>p. p \<notin> W) ps)"
| "content W (Running fs all) = 15 * worth fs + 2 * length (owners all)"
| "content W (Dropping ks) = length ks"
| "content W _ = 0"

fun way :: "phase \<Rightarrow> nat" where
  "way (Running fs all) = 7"
| "way (Dropping ks) = 6"
| "way Entering = 6"
| "way Polling = 5"
| "way (Handling ps now) = 3 + length ps"
| "way Left = 0"

definition loop_work :: "chan_id set \<Rightarrow> Functor list \<Rightarrow> phase \<Rightarrow> nat" where
  "loop_work W q x = (let n = 22 * worth q + content W x in if n = 0 then 0 else n + way x)"

definition work_of :: "chan_id set \<Rightarrow> (loop_id \<Rightarrow> phase) \<Rightarrow> 'a server_net_scheme \<Rightarrow> nat" where
  "work_of W ph s = (\<Sum>l\<leftarrow>all_loops s. loop_work W (queued_in s l) (ph l))"

lemma worth_0 [simp]: "worth fs = 0 \<longleftrightarrow> fs = []"
  using weight_bounds(1) by (cases fs) auto

lemma worth_pays: "fs \<noteq> [] \<Longrightarrow> n \<le> 7 \<Longrightarrow> n \<le> 7 * worth fs"
  using worth_0 [of fs] by linarith

lemma loop_work_0: "loop_work W q x = 0 \<longleftrightarrow> q = [] \<and> content W x = 0"
  by (auto simp: loop_work_def Let_def)

lemma loop_work_push:
  assumes "loop_work W q x = 0 \<longrightarrow> way x \<le> 7"
  shows "loop_work W (q @ fs) x \<le> loop_work W q x + 29 * worth fs" "loop_work W q x \<noteq> 0 \<Longrightarrow> loop_work W (q @ fs) x \<noteq> 0"
proof -
  have "1 \<le> worth fs" if "fs \<noteq> []" using that worth_0 [of fs] by linarith
  then show "loop_work W (q @ fs) x \<le> loop_work W q x + 29 * worth fs"
    using assms by (cases "fs = []") (auto simp: loop_work_def Let_def)
qed (simp add: loop_work_0)

lemma sum_step:
  assumes "distinct ls" "l \<in> set ls" "\<And>j. j \<in> set ls \<Longrightarrow> j \<noteq> l \<Longrightarrow> f' j \<le> f j + 29 * g j" "f' l + K \<le> f l + 29 * g l"
    "(\<Sum>j\<leftarrow>ls. g j) \<le> m"
  shows "(\<Sum>j\<leftarrow>ls. f' j) + K \<le> (\<Sum>j\<leftarrow>ls. f j) + (29 * m :: nat)"
proof -
  have rest: "(\<Sum>j\<in>set ls - {l}. f' j) \<le> (\<Sum>j\<in>set ls - {l}. f j + 29 * g j)" by (rule sum_mono) (use assms(3) in auto)
  have "(\<Sum>j\<leftarrow>ls. f' j) + K \<le> (\<Sum>j\<leftarrow>ls. f j + 29 * g j)"
    using rest assms(1,2,4) by (simp add: sum_list_distinct_conv_sum_set sum.remove [where x = l])
  also have "\<dots> = (\<Sum>j\<leftarrow>ls. f j) + 29 * (\<Sum>j\<leftarrow>ls. g j)" by (simp add: sum_list_addf sum_list_const_mult)
  finally show ?thesis using assms(5) by linarith
qed

text \<open>One thread has gone from \<open>ph l\<close> to \<open>x\<close>.\<close>

lemma pushed_queued:
  assumes "pushed new s s'" "loops s j = Some lp"
  shows "queued_in s' j = queued_in s j @ new j" "told_to_quit s' j = told_to_quit s j"
proof -
  from assms(1) have "case loop_view s j of None \<Rightarrow> loop_view s' j = None
     | Some (q, b, t) \<Rightarrow> loop_view s' j = Some (q @ new j, b, t)" unfolding pushed_def by blast
  then show "queued_in s' j = queued_in s j @ new j" "told_to_quit s' j = told_to_quit s j"
    using assms(2) by (auto simp: loop_view_def queued_in_def told_to_quit_def)
qed

definition light :: "chan_id set \<Rightarrow> (loop_id \<Rightarrow> phase) \<Rightarrow> 'a server_net_scheme \<Rightarrow> bool" where
  "light W ph s \<longleftrightarrow> (\<forall>l \<in> set (all_loops s). loops s l \<noteq> None \<and> (loop_work W (queued_in s l) (ph l) = 0 \<longrightarrow> way (ph l) \<le> 7))"

lemma work_queued:
  assumes L: "all_loops s' = all_loops s" "distinct (all_loops s)" "l \<in> set (all_loops s)" and light: "light W ph s"
    and q: "\<And>j. j \<in> set (all_loops s) \<Longrightarrow> j \<noteq> l \<Longrightarrow> queued_in s' j = queued_in s j @ new j"
    and m: "(\<Sum>j\<leftarrow>all_loops s. worth (new j)) \<le> m"
    and own: "loop_work W (queued_in s' l) x + K \<le> loop_work W (queued_in s l) (ph l) + 29 * worth (new l)"
  shows "work_of W (ph(l := x)) s' + K \<le> work_of W ph s + 29 * m"
    "\<And>j. j \<in> set (all_loops s) \<Longrightarrow> j \<noteq> l \<Longrightarrow> loop_work W (queued_in s j) (ph j) \<noteq> 0 \<Longrightarrow> loop_work W (queued_in s' j) (ph j) \<noteq> 0"
proof -
  have push: "loop_work W (queued_in s j @ new j) (ph j) \<le> loop_work W (queued_in s j) (ph j) + 29 * worth (new j)"
    "loop_work W (queued_in s j) (ph j) \<noteq> 0 \<Longrightarrow> loop_work W (queued_in s j @ new j) (ph j) \<noteq> 0" if "j \<in> set (all_loops s)" for j
    using loop_work_push [of W "queued_in s j" "ph j" "new j"] light that by (simp_all add: light_def)
  show "loop_work W (queued_in s' j) (ph j) \<noteq> 0" if "j \<in> set (all_loops s)" "j \<noteq> l" "loop_work W (queued_in s j) (ph j) \<noteq> 0" for j
    using push(2) [OF that(1,3)] q [OF that(1,2)] by simp
  have "(\<Sum>j\<leftarrow>all_loops s. loop_work W (queued_in s' j) ((ph(l := x)) j)) + K
      \<le> (\<Sum>j\<leftarrow>all_loops s. loop_work W (queued_in s j) (ph j)) + 29 * m"
    by (rule sum_step [OF L(2,3) _ _ m]) (use push(1) own q in simp_all)
  then show "work_of W (ph(l := x)) s' + K \<le> work_of W ph s + 29 * m" by (simp add: work_of_def L(1))
qed

subsection \<open>A step lowers the work\<close>

text \<open>Every thread has entered its loop or will do so, and nobody has told it to quit.\<close>

definition serving :: "(loop_id \<Rightarrow> phase) \<Rightarrow> 'a server_net_scheme \<Rightarrow> bool" where
  "serving ph s \<longleftrightarrow> (\<forall>l \<in> set (all_loops s). (ph l = Entering \<or> ph l \<noteq> Left \<and> \<not> told_to_quit s l) \<and>
     (case ph l of Handling ps now \<Rightarrow> distinct ps | _ \<Rightarrow> True))"

definition wakeups :: "'a server_net_scheme \<Rightarrow> chan_id set" where
  "wakeups s = {p. \<exists>l \<in> set (all_loops s). \<exists>lp. loops s l = Some lp \<and> wakeupChannel lp = p}"

text \<open>From here on the kernel reports wakeups only.\<close>

definition only_wakeups :: "os \<Rightarrow> 'a server_net_scheme \<Rightarrow> bool" where
  "only_wakeups os s \<longleftrightarrow> (\<forall>tr ep n t. prefix (io_trace s) tr \<longrightarrow> fst ` set (revs (os tr (EpollWait ep n t))) \<subseteq> wakeups s)"

text \<open>What a step of the thread of \<open>l\<close> does; \<open>n\<close> new connections may have been accepted in it.\<close>

definition settles :: "nat \<Rightarrow> loop_id \<Rightarrow> (loop_id \<Rightarrow> phase) \<Rightarrow> 'a server_net_scheme \<Rightarrow> (loop_id \<Rightarrow> phase) \<Rightarrow>
    'a server_net_scheme \<Rightarrow> bool" where
  "settles n l ph s ph' s' \<longleftrightarrow> serving ph' s' \<and> prefix (io_trace s) (io_trace s') \<and>
     work_of (wakeups s) ph' s' + n \<le> work_of (wakeups s) ph s \<and>
     (loop_work (wakeups s) (queued_in s l) (ph l) \<noteq> 0 \<longrightarrow> work_of (wakeups s) ph' s' < work_of (wakeups s) ph s) \<and>
     (\<forall>j \<in> set (all_loops s). j \<noteq> l \<longrightarrow> loop_work (wakeups s) (queued_in s j) (ph j) \<noteq> 0 \<longrightarrow>
        loop_work (wakeups s) (queued_in s' j) (ph' j) \<noteq> 0)"

lemma wakeup_channel:
  assumes wf: "loops_wf os s" and c: "chans s p = Some c" "ch_loop c = l" and p: "p \<in> wakeups s"
  shows "is_wakeup c" "\<exists>lp. loops s l = Some lp \<and> wakeupChannel lp = p"
proof -
  from p obtain k lp where k: "k \<in> set (all_loops s)" "loops s k = Some lp" "wakeupChannel lp = p" unfolding wakeups_def by blast
  with wf c obtain "ch_loop c = k" "callbacks_of c = (Some (LoopHandleRead k), None, None, None)"
    unfolding loops_wf_def by (metis option.inject)
  with c k show "is_wakeup c" "\<exists>lp. loops s l = Some lp \<and> wakeupChannel lp = p" by (auto simp: is_wakeup_def)
qed

lemma all_same_length:
  assumes "\<And>p q. p \<in> set ps \<Longrightarrow> q \<in> set ps \<Longrightarrow> p = q" "distinct ps" shows "length ps \<le> 1"
proof (cases ps)
  case (Cons p qs)
  then show ?thesis using assms(1) [of p "hd qs"] assms(2) by (cases qs) auto
qed simp

lemma steps_light:
  assumes inv: "steps_inv os (ph, s)" and sv: "serving ph s" shows "light (wakeups s) ph s"
  unfolding light_def
proof (intro ballI conjI impI)
  fix l assume l: "l \<in> set (all_loops s)"
  have i: "running_inv os (batch_of ph) {} {} {} (held_refs ph (all_loops s)) s" "phase_ok s l (ph l)"
    using inv l by (simp_all add: steps_inv_def)
  show "loops s l \<noteq> None" using running_loop [OF i(1) l] by blast
  assume none: "loop_work (wakeups s) (queued_in s l) (ph l) = 0"
  show "way (ph l) \<le> 7"
  proof (cases "ph l")
    case (Handling ps now)
    have "\<exists>lp. loops s l = Some lp \<and> wakeupChannel lp = p" if p: "p \<in> set ps" for p
    proof -
      have "p \<in> wakeups s" using none p by (auto simp: loop_work_0 Handling filter_empty_conv)
      moreover obtain c where "chans s p = Some c" "ch_loop c = l" using i(2) p unfolding Handling phase_ok.simps by blast
      ultimately show ?thesis using wakeup_channel(2) running_invD(2) [OF i(1)] by blast
    qed
    then have same: "p = q" if "p \<in> set ps" "q \<in> set ps" for p q using that by (metis option.inject)
    have "distinct ps" using sv l unfolding serving_def by (force simp: Handling)
    with same have "length ps \<le> 1" by (rule all_same_length)
    then show ?thesis by (simp add: Handling)
  qed simp_all
qed

lemma servingI:
  assumes "serving ph s" "all_loops s' = all_loops s" "\<And>j. j \<in> set (all_loops s) \<Longrightarrow> j \<noteq> l \<Longrightarrow> told_to_quit s' j = told_to_quit s j"
    and "x \<noteq> Left" "x \<noteq> Entering" "\<not> told_to_quit s' l" "case x of Handling ps now \<Rightarrow> distinct ps | _ \<Rightarrow> True"
  shows "serving (ph(l := x)) s'"
  using assms by (simp add: serving_def)

text \<open>A step that adds to the queues.\<close>

lemma settlesI:
  assumes inv: "steps_inv os (ph, s)" and sv: "serving ph s" and l: "l \<in> set (all_loops s)" and L: "all_loops s' = all_loops s"
    and ad: "adds (all_loops s) m s s'" and x: "x \<noteq> Left" "x \<noteq> Entering" "ph l \<noteq> Entering" "case x of Handling ps now \<Rightarrow> distinct ps | _ \<Rightarrow> True"
    and own: "\<And>fs. loop_work (wakeups s) (queued_in s l @ fs) x + K \<le> loop_work (wakeups s) (queued_in s l) (ph l) + 29 * worth fs"
    and K: "29 * m + n \<le> K" "loop_work (wakeups s) (queued_in s l) (ph l) \<noteq> 0 \<Longrightarrow> 29 * m < K"
  shows "settles n l ph s (ph(l := x)) s'"
proof -
  note light = steps_light [OF inv sv]
  from ad obtain new where new: "pushed new s s'" "(\<Sum>j\<leftarrow>all_loops s. worth (new j)) \<le> m" unfolding adds_def by blast
  have q: "queued_in s' j = queued_in s j @ new j" "told_to_quit s' j = told_to_quit s j" if "j \<in> set (all_loops s)" for j
    using pushed_queued [OF new(1)] light that by (auto simp: light_def)
  have d: "distinct (all_loops s)" using inv by (simp add: steps_inv_def running_inv_def loops_wf_def)
  have "loop_work (wakeups s) (queued_in s' l) x + K \<le> loop_work (wakeups s) (queued_in s l) (ph l) + 29 * worth (new l)"
    using own q(1) [OF l] by simp
  note w = work_queued [OF L d l light q(1) new(2) this]
  have "\<not> told_to_quit s' l" using sv l x(3) q(2) [OF l] unfolding serving_def by blast
  then have "serving (ph(l := x)) s'" by (intro servingI [OF sv L]) (use q(2) x in simp_all)
  moreover have "prefix (io_trace s) (io_trace s')" using new(1) by (simp add: pushed_def)
  ultimately show ?thesis using w K unfolding settles_def by fastforce
qed

lemma wakeup_not_acceptor:
  assumes inv: "running_inv os B X E C D s" and p: "p \<in> wakeups s" shows "is_acceptor s p = 0"
proof -
  from p obtain l lp where "l \<in> set (all_loops s)" "loops s l = Some lp" "wakeupChannel lp = p" unfolding wakeups_def by blast
  with running_invD(2) [OF inv] obtain c where "chans s p = Some c" "callbacks_of c = (Some (LoopHandleRead l), None, None, None)"
    unfolding loops_wf_def by (metis option.inject)
  with running_invD(8) [OF inv] show ?thesis by (auto simp: acceptor_wf_def)
qed

lemma settle_event:
  assumes inv: "steps_inv os (ph, s)" and sv: "serving ph s" and l: "l \<in> set (all_loops s)" and L: "all_loops s' = all_loops s"
    and uc: "local_user uc" and os: "short_messages os" "new_fds_documented os"
    and id: "nextConnId (srv s) + accepting ph l s \<le> INT_MAX" and ph: "ph l = Handling (p # ps) now"
    and run: "handleEvent alive (server_cb os (thread_of s l) uc d) p now s = Inr s'"
  shows "settles (nat (accepting ph l s)) l ph s (ph(l := Handling ps now)) s'"
proof -
  have i: "running_inv os (batch_of ph) {} {} {} (held_refs ph (all_loops s)) s" "phase_ok s l (ph l)"
    using inv l by (simp_all add: steps_inv_def)
  note wf = running_invD [OF i(1)]
  from i(2) obtain c where c: "chans s p = Some c" "ch_loop c = l" "ch_index c \<noteq> kNew" unfolding ph phase_ok.simps by auto
  have d: "distinct (all_loops s)" using wf(2) by (simp add: loops_wf_def)
  have acc: "accepting ph l s = is_acceptor s p" by (simp add: accepting_def ph)
  have ad: "adds (all_loops s) (if is_wakeup c then 0 else 5) s s'"
    by (rule event_adds [OF i(1) c(1,3) _ uc os d id [unfolded acc] run]) (simp add: c(2))
  have ds: "distinct ps" using sv l unfolding serving_def by (auto simp: ph)
  let ?W = "wakeups s" and ?q = "queued_in s l"
  show ?thesis
  proof (cases "p \<in> ?W")
    case True
    have w: "is_wakeup c" by (rule wakeup_channel(1) [OF wf(2) c(1,2) True])
    have "accepting ph l s = 0" using wakeup_not_acceptor [OF i(1) True] by (simp only: acc)
    moreover have few: "length ps \<le> 3" if "?q = []" "filter (\<lambda>p. p \<notin> ?W) ps = []"
      using steps_light [OF inv sv] l that True by (auto simp: light_def loop_work_0 ph)
    have "settles 0 l ph s (ph(l := Handling ps now)) s'"
      by (rule settlesI [OF inv sv l L ad, where K = "if loop_work ?W ?q (ph l) = 0 then 0 else 1"])
        (use True ds w few in \<open>auto simp: ph loop_work_def Let_def intro!: worth_pays\<close>)
    ultimately show ?thesis by simp
  next
    case False
    have "settles 1 l ph s (ph(l := Handling ps now)) s'"
      by (rule settlesI [OF inv sv l L adds_mono [OF ad, of 5], where K = 146])
        (use False ds in \<open>auto simp: ph loop_work_def Let_def\<close>)
    then show ?thesis using accepting_bounds [of ph l s] by (auto simp: settles_def)
  qed
qed

lemma settle_functor:
  assumes inv: "steps_inv os (ph, s)" and sv: "serving ph s" and l: "l \<in> set (all_loops s)" and L: "all_loops s' = all_loops s"
    and uc: "local_user uc" and ph: "ph l = Running (f # fs) all"
    and run: "server_run os (thread_of s l) uc f s = Inr s'"
  shows "settles 0 l ph s (ph(l := Running fs all)) s'"
proof -
  have i: "running_inv os (batch_of ph) {} {} {} (held_refs ph (all_loops s)) s" using inv by (simp add: steps_inv_def)
  have b: "batch_of ph = (batch_of ph)(l := f # fs)" using ph by (simp add: batch_of_def fun_eq_iff)
  have "running_inv os ((batch_of ph)(l := f # fs)) {} {} {} (held_refs ph (all_loops s)) s" using i by (subst (asm) b)
  moreover have "distinct (all_loops s)" using running_invD(2) [OF i] by (simp add: loops_wf_def)
  ultimately have ad: "adds (all_loops s) (weight f - 1) s s'" using functor_adds [OF _ l refl uc _ run] by blast
  show ?thesis
    by (rule settlesI [OF inv sv l L ad, where K = "15 * weight f"])
      (use weight_bounds [of f] in \<open>auto simp: ph loop_work_def Let_def\<close>)
qed

lemma settle_drop:
  assumes inv: "steps_inv os (ph, s)" and sv: "serving ph s" and l: "l \<in> set (all_loops s)" and L: "all_loops s' = all_loops s"
    and ph: "ph l = Dropping (k # ks)" and run: "release os me P k s = Inr s'"
  shows "settles 0 l ph s (ph(l := Dropping ks)) s'"
proof -
  have "loops s' = loops s" "prefix (io_trace s) (io_trace s')"
    using run by (auto simp: release_def closeTcpConnection_def rbind_eq_Inr Let_def split: if_splits)
  then have ad: "adds (all_loops s) 0 s s'" by (rule adds_loops)
  show ?thesis by (rule settlesI [OF inv sv l L ad, where K = 1]) (auto simp: ph loop_work_def Let_def)
qed

lemma settle_put:
  assumes inv: "steps_inv os (ph, s)" and sv: "serving ph s" and l: "l \<in> set (all_loops s)" and L: "all_loops s' = all_loops s"
    and ad: "adds (all_loops s) 0 s s'"
    and ph: "ph l = Running [] all \<and> x = Dropping (owners all) \<or> ph l = Dropping [] \<and> x = Polling"
  shows "settles 0 l ph s (ph(l := x)) s'"
  by (rule settlesI [OF inv sv l L ad, where K = "if loop_work (wakeups s) (queued_in s l) (ph l) = 0 then 0 else 1"])
    (use ph in \<open>auto simp: loop_work_def Let_def owners_def intro!: worth_pays\<close>)

lemma wakeups_same:
  assumes "all_loops s' = all_loops s" "\<And>l. sig_of s' l = sig_of s l" shows "wakeups s' = wakeups s"
proof -
  have "(\<exists>lp. loops s' l = Some lp \<and> wakeupChannel lp = p) \<longleftrightarrow> (\<exists>lp. loops s l = Some lp \<and> wakeupChannel lp = p)" for l p
    using assms(2) [of l] by (auto simp: sig_of_def loop_sig_def map_option_case split: option.splits)
  then show ?thesis by (simp add: wakeups_def assms(1))
qed

lemma fillActiveChannels_names: "fillActiveChannels evs s = Inr (active, s') \<Longrightarrow> active = map fst evs"
  by (induction evs arbitrary: s active) (auto simp: rbind_eq_Inr)

lemma poll_reports:
  assumes "poll_phase os me l s = Inr (active, now, s')"
  shows "\<exists>ep n. set active \<subseteq> fst ` set (revs (os (io_trace s) (EpollWait ep n kPollTimeMS)))"
proof -
  from assms obtain lp pl pl1 s2 where p: "loops s l = Some lp" "poller_poll os me pl kPollTimeMS (put_loop l (lp\<lparr>activeChannels := []\<rparr>) s) = Inr (pl1, active, now, s2)"
    by (auto simp: poll_phase_def rbind_eq_Inr upd_loop_eq_Inr)
  let ?r = "os (io_trace s) (EpollWait (epollfd pl) (evlist_size pl) kPollTimeMS)"
  from p(2) have "active = [] \<or> (\<exists>k. active = map fst (take k (revs ?r)))"
    by (auto simp: poller_poll_def split_beta Let_def rbind_eq_Inr split: if_splits dest!: fillActiveChannels_names)
  then have "set active \<subseteq> fst ` set (revs ?r)" using set_take_subset by fastforce
  then show ?thesis by blast
qed

lemma poll_adds:
  assumes "poll_phase os me l s = Inr (active, now, s')" shows "adds Ls 0 s s'"
proof -
  from assms obtain lp pl pl1 s2 lp2 where p: "loops s l = Some lp"
    "poller_poll os me pl kPollTimeMS (put_loop l (lp\<lparr>activeChannels := []\<rparr>) s) = Inr (pl1, active, now, s2)" "loops s2 l = Some lp2"
    "s' = put_loop l (lp2\<lparr>loop_poller := Some pl1, activeChannels := active, pollReturnTime := now\<rparr>) s2"
    by (auto simp: poll_phase_def rbind_eq_Inr upd_loop_eq_Inr)
  have "loops s2 = (loops s)(l := Some (lp\<lparr>activeChannels := []\<rparr>))" using poller_poll_frame [OF p(2)] by (simp add: same_above_def)
  then have "loop_view s' k = loop_view s k" for k using p(1,3,4) by (auto simp: loop_view_def)
  moreover have "prefix (io_trace s) (io_trace s')" using poll_phase_trace [OF assms] by auto
  ultimately show ?thesis by (rule adds_none)
qed

lemma settle_poll:
  assumes inv: "steps_inv os (ph, s)" and sv: "serving ph s" and l: "l \<in> set (all_loops s)" and ph: "ph l = Polling"
    and doc: "epoll_wait_documented os" and only: "only_wakeups os s"
    and run: "poll_phase os (thread_of s l) l s = Inr (active, now, s')"
  shows "settles 0 l ph s (ph(l := Handling active now)) s'"
proof -
  have i: "running_inv os (batch_of ph) {} {} {} (held_refs ph (all_loops s)) s" using inv by (simp add: steps_inv_def)
  from poll_runs [OF i l doc, where me = "thread_of s l"] run have
    s': "running_inv os (batch_of ph) {} {} {} (held_refs ph (all_loops s)) s'" "stays s s'" "distinct active"
      "\<forall>p \<in> set active. \<exists>c. chans s' p = Some c \<and> ch_loop c = l \<and> ch_index c \<noteq> kNew" by auto
  have L: "all_loops s' = all_loops s" using s'(2) by (simp add: stays_def)
  have W: "wakeups s' = wakeups s" by (rule wakeups_same [OF L]) (use s'(2) in \<open>simp add: stays_def\<close>)
  from poll_reports [OF run] only have act: "set active \<subseteq> wakeups s" unfolding only_wakeups_def by (meson prefix_order.refl subset_trans)
  have "\<exists>lp. loops s' l = Some lp \<and> wakeupChannel lp = p" if p: "p \<in> set active" for p
    using p act s'(4) wakeup_channel(2) [OF running_invD(2) [OF s'(1)]] unfolding W by blast
  then have same: "p = q" if "p \<in> set active" "q \<in> set active" for p q using that by (metis option.inject)
  then have "length active \<le> 1" using s'(3) by (rule all_same_length)
  moreover have "filter (\<lambda>p. p \<notin> wakeups s) active = []" using act by (auto simp: filter_empty_conv)
  ultimately show ?thesis
    by (intro settlesI [OF inv sv l L poll_adds [OF run], where K = "if loop_work (wakeups s) (queued_in s l) (ph l) = 0 then 0 else 1"])
      (use s'(3) in \<open>auto simp: ph loop_work_def Let_def intro!: worth_pays\<close>)
qed

text \<open>The two steps that write into the queue or into the flag.\<close>

lemma settle_own:
  assumes inv: "steps_inv os (ph, s)" and sv: "serving ph s" and l: "l \<in> set (all_loops s)" and lp: "loops s l = Some lp"
    and x: "x \<noteq> Left" "x \<noteq> Entering" "\<not> quit_flag lp'" "case x of Handling ps now \<Rightarrow> distinct ps | _ \<Rightarrow> True"
    and own: "loop_work (wakeups s) (pendingFunctors lp') x \<le> loop_work (wakeups s) (pendingFunctors lp) (ph l)"
      "loop_work (wakeups s) (pendingFunctors lp) (ph l) \<noteq> 0 \<Longrightarrow>
        loop_work (wakeups s) (pendingFunctors lp') x < loop_work (wakeups s) (pendingFunctors lp) (ph l)"
  shows "settles 0 l ph s (ph(l := x)) (put_loop l lp' s)"
proof -
  let ?s = "put_loop l lp' s" and ?W = "wakeups s"
  have d: "distinct (all_loops s)" using inv by (simp add: steps_inv_def running_inv_def loops_wf_def)
  have L: "all_loops ?s = all_loops s" by (simp add: server_loops_def)
  have q: "queued_in s l = pendingFunctors lp" "queued_in ?s l = pendingFunctors lp'" using lp by (simp_all add: queued_in_def)
  have oth: "queued_in ?s j = queued_in s j" "told_to_quit ?s j = told_to_quit s j" if "j \<noteq> l" for j
    using that by (simp_all add: queued_in_def told_to_quit_def)
  let ?K = "if loop_work ?W (queued_in s l) (ph l) = 0 then 0 else 1"
  have "loop_work ?W (queued_in ?s l) x + ?K \<le> loop_work ?W (queued_in s l) (ph l) + 29 * worth []" using own by (auto simp: q)
  note w = work_queued [OF L d l steps_light [OF inv sv], where new = "\<lambda>_. []" and m = 0, OF _ _ this]
  have "serving (ph(l := x)) ?s" by (rule servingI [OF sv L oth(2)]) (use x lp in \<open>simp_all add: told_to_quit_def\<close>)
  with w oth show ?thesis unfolding settles_def by (fastforce split: if_splits)
qed

lemma owners_worth: "length (owners fs) \<le> worth fs"
proof -
  have "length (owners fs) \<le> length fs" unfolding owners_def by (induction fs) (auto simp: List.map_filter_simps split: option.split)
  also note worth_length
  finally show ?thesis .
qed

lemma settle_take:
  assumes inv: "steps_inv os (ph, s)" and sv: "serving ph s" and l: "l \<in> set (all_loops s)" and lp: "loops s l = Some lp"
    and ph: "ph l = Handling [] now"
  shows "settles 0 l ph s (ph(l := Running (pendingFunctors lp) (pendingFunctors lp)))
    (put_loop l (lp\<lparr>callingPendingFunctors := True, pendingFunctors := []\<rparr>) s)"
proof (rule settle_own [OF inv sv l lp])
  let ?q = "pendingFunctors lp"
  have "\<not> told_to_quit s l" using sv l ph unfolding serving_def by auto
  then show "\<not> quit_flag (lp\<lparr>callingPendingFunctors := True, pendingFunctors := []\<rparr>)" using lp by (simp add: told_to_quit_def)
  have "?q \<noteq> [] \<Longrightarrow> 15 * worth ?q + 2 * length (owners ?q) + 7 < 22 * worth ?q + 3"
    using owners_worth [of ?q] worth_0 [of ?q] by linarith
  then show "loop_work (wakeups s) (pendingFunctors (lp\<lparr>callingPendingFunctors := True, pendingFunctors := []\<rparr>)) (Running ?q ?q)
      \<le> loop_work (wakeups s) ?q (ph l)"
    "loop_work (wakeups s) ?q (ph l) \<noteq> 0 \<Longrightarrow>
      loop_work (wakeups s) (pendingFunctors (lp\<lparr>callingPendingFunctors := True, pendingFunctors := []\<rparr>)) (Running ?q ?q)
      < loop_work (wakeups s) ?q (ph l)"
    by (auto simp: loop_work_def Let_def ph owners_def)
qed simp_all

lemma settle_enter:
  assumes inv: "steps_inv os (ph, s)" and sv: "serving ph s" and l: "l \<in> set (all_loops s)" and lp: "loops s l = Some lp"
    and ph: "ph l = Entering"
  shows "settles 0 l ph s (ph(l := Polling)) (put_loop l (lp\<lparr>looping := True, quit_flag := False\<rparr>) s)"
  by (rule settle_own [OF inv sv l lp]) (auto simp: ph loop_work_def Let_def)

subsection \<open>Rounds\<close>

lemma work_ge:
  assumes "l \<in> set (all_loops s)" shows "loop_work W (queued_in s l) (ph l) \<le> work_of W ph s"
  unfolding work_of_def by (rule member_le_sum_list) (use assms in auto)

lemma accepting_work:
  assumes inv: "steps_inv os (ph, s)" and l: "l \<in> set (all_loops s)" shows "accepting ph l s \<le> int (work_of (wakeups s) ph s)"
proof (cases "accepting ph l s = 0")
  case False
  then obtain p ps now where ph: "ph l = Handling (p # ps) now" and a: "is_acceptor s p \<noteq> 0"
    by (auto simp: accepting_def split: phase.splits list.splits)
  have "running_inv os (batch_of ph) {} {} {} (held_refs ph (all_loops s)) s" using inv by (simp add: steps_inv_def)
  with a have "p \<notin> wakeups s" using wakeup_not_acceptor by metis
  then have "1 \<le> loop_work (wakeups s) (queued_in s l) (ph l)" by (simp add: ph loop_work_def Let_def)
  with work_ge [OF l, of "wakeups s" ph] accepting_bounds(2) [of ph l s] show ?thesis by linarith
qed simp

lemma step_settles:
  assumes inv: "steps_inv os (ph, s)" and sv: "serving ph s" and l: "l \<in> set (all_loops s)" and uc: "local_user uc"
    and id: "nextConnId (srv s) + accepting ph l s \<le> INT_MAX"
    and os: "epoll_wait_documented os" "short_messages os" "new_fds_documented os" and only: "ph l = Polling \<Longrightarrow> only_wakeups os s"
    and run: "thread_step os uc d l (ph, s) = Inr (ph', s')" and L: "all_loops s' = all_loops s"
  shows "settles (nat (accepting ph l s)) l ph s ph' s'"
proof -
  have "running_inv os (batch_of ph) {} {} {} (held_refs ph (all_loops s)) s" using inv by (simp add: steps_inv_def)
  from running_loop [OF this l] obtain lp where lp: "loops s l = Some lp" by metis
  show ?thesis
  proof (cases "ph l")
    case Entering
    with run lp settle_enter [OF inv sv l lp Entering] show ?thesis by (simp add: thread_step_def loop_enter_def accepting_def)
  next
    case Left
    with sv l show ?thesis unfolding serving_def by auto
  next
    case Polling
    with sv l lp have "\<not> quit_flag lp" unfolding serving_def by (auto simp: told_to_quit_def)
    with run lp Polling obtain active now where p: "poll_phase os (thread_of s l) l s = Inr (active, now, s')" "ph' = ph(l := Handling active now)"
      by (auto simp: thread_step_def rbind_eq_Inr)
    from settle_poll [OF inv sv l Polling os(1) only [OF Polling] p(1)] show ?thesis by (simp add: p(2) Polling accepting_def)
  next
    case (Handling ps now)
    show ?thesis
    proof (cases ps)
      case Nil
      have ph: "ph l = Handling [] now" by (simp add: Handling Nil)
      from run lp ph have "ph' = ph(l := Running (pendingFunctors lp) (pendingFunctors lp))"
        "s' = put_loop l (lp\<lparr>callingPendingFunctors := True, pendingFunctors := []\<rparr>) s"
        by (auto simp: thread_step_def set_calling_def swap_pending_def put_loop_def)
      with settle_take [OF inv sv l lp ph] show ?thesis by (simp add: accepting_def ph)
    next
      case (Cons p qs)
      have ph: "ph l = Handling (p # qs) now" by (simp add: Handling Cons)
      from run ph have "handleEvent (\<lambda>c s. conns s c \<noteq> None) (server_cb os (thread_of s l) uc d) p now s = Inr s'" "ph' = ph(l := Handling qs now)"
        by (auto simp: thread_step_def rbind_eq_Inr)
      with settle_event [OF inv sv l L uc os(2,3) id ph] show ?thesis by simp
    qed
  next
    case (Running fs all)
    show ?thesis
    proof (cases fs)
      case Nil
      with run lp Running have "ph' = ph(l := Dropping (owners all))" "s' = put_loop l (lp\<lparr>callingPendingFunctors := False\<rparr>) s"
        by (auto simp: thread_step_def set_calling_def)
      moreover have "adds (all_loops s) 0 s (put_loop l (lp\<lparr>callingPendingFunctors := False\<rparr>) s)" by (rule adds_put_loop [OF lp]) simp_all
      ultimately show ?thesis using settle_put [OF inv sv l L] Running Nil by (simp add: accepting_def)
    next
      case (Cons f gs)
      have ph: "ph l = Running (f # gs) all" by (simp add: Running Cons)
      from run ph have "server_run os (thread_of s l) uc f s = Inr s'" "ph' = ph(l := Running gs all)"
        by (auto simp: thread_step_def rbind_eq_Inr)
      with settle_functor [OF inv sv l L uc ph] show ?thesis by (simp add: accepting_def ph)
    qed
  next
    case (Dropping ks)
    show ?thesis
    proof (cases ks)
      case Nil
      with run Dropping have "ph' = ph(l := Polling)" "s' = s" by (auto simp: thread_step_def)
      with settle_put [OF inv sv l L] Dropping Nil show ?thesis by (simp add: accepting_def adds_refl)
    next
      case (Cons k js)
      have ph: "ph l = Dropping (k # js)" by (simp add: Dropping Cons)
      from run ph obtain P where "release os (thread_of s l) P k s = Inr s'" "ph' = ph(l := Dropping js)"
        by (auto simp: thread_step_def rbind_eq_Inr Let_def)
      with settle_drop [OF inv sv l L ph] show ?thesis by (simp add: accepting_def ph)
    qed
  qed
qed

text \<open>The threads of a server that nobody tells to quit go on serving, whatever the kernel reports.\<close>

lemma step_serving:
  assumes inv: "steps_inv os (ph, s)" and sv: "serving ph s" and l: "l \<in> set (all_loops s)" and uc: "local_user uc"
    and id: "nextConnId (srv s) + accepting ph l s \<le> INT_MAX"
    and os: "epoll_wait_documented os" "short_messages os" "new_fds_documented os"
    and run: "thread_step os uc d l (ph, s) = Inr (ph', s')" and L: "all_loops s' = all_loops s"
  shows "serving ph' s'"
proof (cases "ph l = Polling")
  case False
  with step_settles [OF inv sv l uc id os _ run L] show ?thesis by (simp add: settles_def)
next
  case True
  have i: "running_inv os (batch_of ph) {} {} {} (held_refs ph (all_loops s)) s" using inv by (simp add: steps_inv_def)
  from running_loop [OF i l] obtain lp where lp: "loops s l = Some lp" by metis
  with sv l True have "\<not> quit_flag lp" unfolding serving_def by (auto simp: told_to_quit_def)
  with run lp True obtain active now where p: "poll_phase os (thread_of s l) l s = Inr (active, now, s')" "ph' = ph(l := Handling active now)"
    by (auto simp: thread_step_def rbind_eq_Inr)
  have "told_to_quit s' j = told_to_quit s j" if "j \<in> set (all_loops s)" for j
    using poll_adds [OF p(1)] pushed_queued(2) running_loop [OF i that] unfolding adds_def by metis
  moreover have "distinct active" using poll_runs [OF i l os(1), of "thread_of s l"] p(1) by auto
  ultimately show ?thesis unfolding p(2)
    by (intro servingI [OF sv L]) (use \<open>\<not> quit_flag lp\<close> lp l in \<open>simp_all add: told_to_quit_def\<close>)
qed

lemma steps_serving:
  assumes "steps_inv os (ph, s)" "serving ph s" "set ls \<subseteq> set (all_loops s)" "nextConnId (srv s) + int (length ls) \<le> INT_MAX"
    and run: "thread_steps os uc d ls (ph, s) = Inr (ph', s')" and uc: "local_user uc"
    and os: "epoll_wait_documented os" "short_messages os" "new_fds_documented os"
  shows "serving ph' s'"
  using assms(1-5)
proof (induction ls arbitrary: ph s)
  case Nil
  then show ?case by simp
next
  case (Cons l ls)
  have l: "l \<in> set (all_loops s)" and id: "nextConnId (srv s) + accepting ph l s \<le> INT_MAX"
    using Cons.prems accepting_bounds(2) [of ph l s] by simp_all
  from step_runs [OF Cons.prems(1) l uc id os, of d] obtain ph1 s1 where
    s1: "thread_step os uc d l (ph, s) = Inr (ph1, s1)" "steps_inv os (ph1, s1)" "step_kept (accepting ph l s) s s1" by blast
  have L: "all_loops s1 = all_loops s" using s1(3) by (simp add: step_kept_def)
  show ?case
  proof (rule Cons.IH [OF s1(2) step_serving [OF Cons.prems(1,2) l uc id os s1(1) L]])
    show "set ls \<subseteq> set (all_loops s1)" "nextConnId (srv s1) + int (length ls) \<le> INT_MAX"
      using Cons.prems(3,4) s1(3) accepting_bounds(2) [of ph l s] by (simp_all add: step_kept_def)
    show "thread_steps os uc d ls (ph1, s1) = Inr (ph', s')" using Cons.prems(5) s1(1) by simp
  qed
qed

text \<open>What holds while a server is left alone.\<close>

definition settling :: "os \<Rightarrow> (loop_id \<Rightarrow> phase) \<Rightarrow> 'a server_net_scheme \<Rightarrow> bool" where
  "settling os ph s \<longleftrightarrow> steps_inv os (ph, s) \<and> serving ph s \<and> only_wakeups os s \<and>
     nextConnId (srv s) + int (work_of (wakeups s) ph s) \<le> INT_MAX"

lemma only_wakeups_later:
  "only_wakeups os s \<Longrightarrow> prefix (io_trace s) (io_trace s') \<Longrightarrow> wakeups s' = wakeups s \<Longrightarrow> only_wakeups os s'"
  unfolding only_wakeups_def by (blast intro: prefix_order.trans)

lemma steps_settle:
  assumes "settling os ph s" "set ls \<subseteq> set (all_loops s)" and uc: "local_user uc"
    and os: "epoll_wait_documented os" "short_messages os" "new_fds_documented os"
  shows "\<exists>ph' s'. thread_steps os uc d ls (ph, s) = Inr (ph', s') \<and> settling os ph' s' \<and> all_loops s' = all_loops s \<and>
    work_of (wakeups s') ph' s' \<le> work_of (wakeups s) ph s \<and>
    (\<forall>l \<in> set ls. loop_work (wakeups s) (queued_in s l) (ph l) \<noteq> 0 \<longrightarrow> work_of (wakeups s') ph' s' < work_of (wakeups s) ph s)"
  using assms(1,2)
proof (induction ls arbitrary: ph s)
  case Nil
  then show ?case by simp
next
  case (Cons l ls)
  have st: "steps_inv os (ph, s)" "serving ph s" "only_wakeups os s" "nextConnId (srv s) + int (work_of (wakeups s) ph s) \<le> INT_MAX"
    using Cons.prems(1) by (simp_all add: settling_def)
  have l: "l \<in> set (all_loops s)" using Cons.prems(2) by simp
  have id: "nextConnId (srv s) + accepting ph l s \<le> INT_MAX" using st(4) accepting_work [OF st(1) l] by simp
  from step_runs [OF st(1) l uc id os, of d] obtain ph1 s1 where
    s1: "thread_step os uc d l (ph, s) = Inr (ph1, s1)" "steps_inv os (ph1, s1)" "step_kept (accepting ph l s) s s1" by blast
  have L: "all_loops s1 = all_loops s" using s1(3) by (simp add: step_kept_def)
  have W: "wakeups s1 = wakeups s" by (rule wakeups_same [OF L]) (use s1(3) in \<open>simp add: step_kept_def\<close>)
  have se: "settles (nat (accepting ph l s)) l ph s ph1 s1" by (rule step_settles [OF st(1,2) l uc id os st(3) s1(1) L])
  have "nextConnId (srv s1) + int (work_of (wakeups s1) ph1 s1) \<le> INT_MAX"
    using se s1(3) st(4) accepting_bounds(1) [of ph l s] unfolding settles_def W step_kept_def by linarith
  then have "settling os ph1 s1"
    using s1(2) se only_wakeups_later [OF st(3) _ W] by (simp add: settling_def settles_def)
  with Cons.IH [of ph1 s1] Cons.prems(2) obtain ph2 s2 where
    s2: "thread_steps os uc d ls (ph1, s1) = Inr (ph2, s2)" "settling os ph2 s2" "all_loops s2 = all_loops s1"
      "work_of (wakeups s2) ph2 s2 \<le> work_of (wakeups s1) ph1 s1"
      "\<forall>j \<in> set ls. loop_work (wakeups s1) (queued_in s1 j) (ph1 j) \<noteq> 0 \<longrightarrow> work_of (wakeups s2) ph2 s2 < work_of (wakeups s1) ph1 s1"
    by (auto simp: L)
  have "work_of (wakeups s2) ph2 s2 < work_of (wakeups s) ph s"
    if j: "j \<in> set (l # ls)" "loop_work (wakeups s) (queued_in s j) (ph j) \<noteq> 0" for j
  proof (cases "j = l")
    case True
    with se j(2) s2(4) show ?thesis unfolding settles_def W by auto
  next
    case False
    with j Cons.prems(2) have "j \<in> set ls" "j \<in> set (all_loops s)" by auto
    with False se j(2) s2(5) show ?thesis unfolding settles_def W by fastforce
  qed
  moreover have "work_of (wakeups s2) ph2 s2 \<le> work_of (wakeups s) ph s" using se s2(4) unfolding settles_def W by linarith
  ultimately show ?case using s1(1) s2(1,2,3) L by auto
qed

lemma rounds_settle:
  assumes "settling os ph s" "\<forall>r \<in> set rs. set r = set (all_loops s)" and uc: "local_user uc"
    and os: "epoll_wait_documented os" "short_messages os" "new_fds_documented os"
  shows "\<exists>ph' s'. thread_steps os uc d (concat rs) (ph, s) = Inr (ph', s') \<and> settling os ph' s' \<and> all_loops s' = all_loops s \<and>
    work_of (wakeups s') ph' s' \<le> work_of (wakeups s) ph s - length rs"
  using assms(1,2)
proof (induction rs arbitrary: ph s)
  case Nil
  then show ?case by simp
next
  case (Cons r rs)
  have r: "set r = set (all_loops s)" using Cons.prems(2) by simp
  from steps_settle [OF Cons.prems(1) _ uc os, of r d] r obtain ph1 s1 where
    s1: "thread_steps os uc d r (ph, s) = Inr (ph1, s1)" "settling os ph1 s1" "all_loops s1 = all_loops s"
      "work_of (wakeups s1) ph1 s1 \<le> work_of (wakeups s) ph s"
      "\<forall>l \<in> set r. loop_work (wakeups s) (queued_in s l) (ph l) \<noteq> 0 \<longrightarrow> work_of (wakeups s1) ph1 s1 < work_of (wakeups s) ph s"
    by blast
  have "\<exists>l \<in> set (all_loops s). loop_work (wakeups s) (queued_in s l) (ph l) \<noteq> 0" if "work_of (wakeups s) ph s \<noteq> 0"
    using that by (auto simp: work_of_def sum_list_nonneg_eq_0_iff)
  then have less: "work_of (wakeups s1) ph1 s1 \<le> work_of (wakeups s) ph s - 1" using s1(4,5) r by (cases "work_of (wakeups s) ph s = 0") fastforce+
  from Cons.IH [OF s1(2)] Cons.prems(2) s1(3) obtain ph2 s2 where
    "thread_steps os uc d (concat rs) (ph1, s1) = Inr (ph2, s2)" "settling os ph2 s2" "all_loops s2 = all_loops s"
      "work_of (wakeups s2) ph2 s2 \<le> work_of (wakeups s1) ph1 s1 - length rs" by auto
  with s1(1) less show ?case by (auto simp: thread_steps_append)
qed

text \<open>No work: nothing is queued, nothing is held.\<close>

lemma no_work:
  assumes "work_of W ph s = 0" "l \<in> set (all_loops s)" shows "queued_in s l = []" "thread_holds ph s l = {}"
proof -
  have "loop_work W (queued_in s l) (ph l) = 0" using work_ge [OF assms(2), of W ph] assms(1) by simp
  then have n: "queued_in s l = []" "content W (ph l) = 0" by (simp_all add: loop_work_0)
  show "queued_in s l = []" by (rule n(1))
  show "thread_holds ph s l = {}" using n by (cases "ph l") (simp_all add: thread_holds_def owners_def)
qed

subsection \<open>A start for examples\<close>

text \<open>The first thing that the kernel \<open>one_event_os\<close> reports is the only one.\<close>

lemma one_event_start:
  assumes inv: "running_inv one_event_os no_batch {} {} {} {} s" and l: "l \<in> set (all_loops s)"
    and empty: "\<forall>j \<in> set (all_loops s). queued_in s j = []"
  shows "\<exists>ph s'. thread_steps one_event_os uc d [l, l] (\<lambda>_. Entering, s) = Inr (ph, s') \<and> only_wakeups one_event_os s' \<and>
    work_of (wakeups s') ph s' \<le> 174"
proof -
  from running_loop [OF inv l] obtain lp where lp: "loops s l = Some lp" by metis
  let ?lp = "lp\<lparr>looping := True, quit_flag := False\<rparr>" and ?ph = "(\<lambda>_. Entering)(l := Polling)"
  let ?s = "put_loop l ?lp s"
  have i: "running_inv one_event_os no_batch {} {} {} {} ?s" "stays s ?s"
    by (rule running_loop_update [OF inv lp, where B' = no_batch]; simp add: loop_update_def loop_sig_def)+
  have L: "all_loops ?s = all_loops s" by (simp add: server_loops_def)
  have docs: "epoll_wait_documented one_event_os" using one_event_os_documented by (simp add: kernel_documented_def)
  have l': "l \<in> set (all_loops ?s)" using l L by simp
  from poll_runs [OF i(1) l' docs, where me = "thread_of ?s l"] obtain active now s' where
    s': "poll_phase one_event_os (thread_of ?s l) l ?s = Inr (active, now, s')" "stays ?s s'" "distinct active" by blast
  let ?ph' = "?ph(l := Handling active now)"
  have "thread_step one_event_os uc d l (\<lambda>_. Entering, s) = Inr (?ph, ?s)" using lp by (simp add: thread_step_def loop_enter_def)
  moreover have "thread_step one_event_os uc d l (?ph, ?s) = Inr (?ph', s')" using s'(1) by (simp add: thread_step_def)
  ultimately have run: "thread_steps one_event_os uc d [l, l] (\<lambda>_. Entering, s) = Inr (?ph', s')" by simp
  from poll_phase_trace [OF s'(1)] obtain ep n r r2 where
    "io_trace s' = io_trace ?s @ [(thread_of ?s l, EpollWait ep n kPollTimeMS, r), (thread_of ?s l, TimeNow, r2)]" by blast
  then have "(thread_of ?s l, EpollWait ep n kPollTimeMS, r) \<in> set (io_trace s')" by simp
  then have "\<exists>(_, k, _) \<in> set tr. \<exists>e n t. k = EpollWait e n t" if "prefix (io_trace s') tr" for tr
    using set_mono_prefix [OF that] by (intro bexI [of _ "(thread_of ?s l, EpollWait ep n kPollTimeMS, r)"]) auto
  then have "only_wakeups one_event_os s'" unfolding only_wakeups_def by (simp add: one_event_os_def picking_os_def ret_val_def)
  moreover have "work_of (wakeups s') ?ph' s' \<le> 174"
  proof -
    from poll_reports [OF s'(1)] obtain ep n where rev: "set active \<subseteq> fst ` set (revs (one_event_os (io_trace ?s) (EpollWait ep n kPollTimeMS)))" by blast
    then have "\<exists>x. set active \<subseteq> {x}"
      by (auto simp: one_event_os_def picking_os_def ret_val_def split: if_splits prod.splits)
    then have "p = q" if "p \<in> set active" "q \<in> set active" for p q using that by blast
    then have len: "length active \<le> 1" using s'(3) by (rule all_same_length)
    have q: "queued_in s' j = []" if j: "j \<in> set (all_loops s)" for j
    proof -
      from poll_adds [OF s'(1), of "[j]"] obtain new where new: "pushed new ?s s'" "worth (new j) \<le> 0" unfolding adds_def by auto
      have "queued_in ?s j = []" using empty j lp by (auto simp: queued_in_def)
      moreover obtain kp where "loops ?s j = Some kp" using running_loop [OF i(1)] j L by metis
      ultimately show ?thesis using pushed_queued(1) [OF new(1)] new(2) by simp
    qed
    have L': "all_loops s' = all_loops s" using s'(2) L by (simp add: stays_def)
    have d: "distinct (all_loops s)" using running_invD(2) [OF inv] by (simp add: loops_wf_def)
    let ?f = "\<lambda>j. loop_work (wakeups s') (queued_in s' j) (?ph' j)" and ?g = "\<lambda>j. if j = l then 6 else 0 :: nat"
    have "length (filter (\<lambda>p. p \<notin> wakeups s') active) \<le> 1" using len length_filter_le [of _ active] le_trans by blast
    then have "?f l + 0 \<le> 0 + 29 * ?g l" using q [OF l] len by (simp add: loop_work_def Let_def)
    moreover have "?f j \<le> 0 + 29 * ?g j" if "j \<in> set (all_loops s)" "j \<noteq> l" for j using q [OF that(1)] that(2) by (simp add: loop_work_def)
    moreover have "(\<Sum>j\<leftarrow>all_loops s. ?g j) \<le> 6" using d by (simp add: sum_list_distinct_conv_sum_set)
    ultimately have "(\<Sum>j\<leftarrow>all_loops s. ?f j) + 0 \<le> (\<Sum>j\<leftarrow>all_loops s. 0) + 29 * 6" by (intro sum_step [OF d l])
    then show ?thesis by (simp add: work_of_def L')
  qed
  ultimately show ?thesis using run by blast
qed

end
