(* ===== verification/TestProgram.thy ===== *)
theory TestProgram
  imports Acceptor
begin

section \<open>The test program (example/test.cpp)\<close>

text \<open>
  A program without the library: it binds a socket to port 1999 of the loopback interface, listens
  and closes it again. What \<open>perror\<close> prints is left out; \<open>exit(-1)\<close> and \<open>return 0\<close> are the exit code.
\<close>

definition test_main :: "os \<Rightarrow> (string \<Rightarrow> 32 word) \<Rightarrow> tid \<Rightarrow> 'a io_scheme \<Rightarrow> int \<times> 'a io_scheme" where
  "test_main os inet_addr me s =
     (let (r, s) = do_call os me SocketPlain s;
          fd = ret r;
          inet = \<lparr>sin_family = AF_INET, sin_port = htons 1999, sin_addr = inet_addr ''127.0.0.1''\<rparr>;
          (r, s) = do_call os me (Bind fd (sockaddr_bytes inet)) s in
      if ret r \<noteq> 0 then (-1, s)
      else let s = snd (do_call os me (Listen fd 3) s);
               s = snd (do_call os me (CloseFd fd) s) in
           (0, s))"

lemma test_main_succeeds_iff:
  "fst (test_main os ia me s) = 0 \<longleftrightarrow>
   (let tr = io_trace s; r = os tr SocketPlain in
    ret (os (tr @ [(me, SocketPlain, r)])
      (Bind (ret r) (sockaddr_bytes (mkInetAddress ia 1999 ''127.0.0.1'')))) = 0)"
  by (simp add: test_main_def mkInetAddress_def Let_def split_beta)

text \<open>A run that ends with 0 leaves no descriptor behind, and the other descriptors as they were.\<close>

lemma test_main_closes:
  assumes os: "new_fds_documented os" and run: "test_main os ia me s = (0, s')"
  shows "open_fds (io_trace s') = open_fds (io_trace s)"
proof -
  let ?fd = "ret (os (io_trace s) SocketPlain)"
  have "?fd \<notin> open_fds (io_trace s)" using os by (simp add: new_fds_documented_def)
  moreover from run have "s' = snd (test_main os ia me s)" "fst (test_main os ia me s) = 0" by simp_all
  ultimately show ?thesis
    by (auto simp: test_main_def Let_def split_beta split: if_splits)
qed

lemma test_main_closes_example:
  "open_fds (io_trace (snd (test_main plain_os (\<lambda>_. 0x0100007F) 1 \<lparr>io_trace = []\<rparr>))) = {}"
  by (simp add: test_main_def Let_def split_beta plain_os_def ret_val_def open_fds_def)

end
