(* ===== verification/Timestamp.thy ===== *)
theory Timestamp
  imports Sys
begin

section \<open>Times (Timestamp.h, TimeStamp.cpp)\<close>

text \<open>
  A time is one 64-bit number, and \<open>toString\<close> prints it through \<open>localtime\<close>, which is not code of the
  repository: it is a parameter, as documented a null pointer (\<open>None\<close>) or the broken-down time,
  whose year counts from 1900.
\<close>

subsection \<open>Times and their construction\<close>

record timestamp =
  microSecondsSinceEpoch :: "64 word"

definition mkTimestamp :: "64 word \<Rightarrow> timestamp" where
  "mkTimestamp t = \<lparr>microSecondsSinceEpoch = t\<rparr>"

definition mkTimestamp0 :: timestamp where
  "mkTimestamp0 = mkTimestamp 0"

text \<open>\<open>now\<close>: what \<open>time\<close> returns, a number of seconds.\<close>

definition timestamp_now :: "os \<Rightarrow> tid \<Rightarrow> 'a io_scheme \<Rightarrow> timestamp \<times> 'a io_scheme" where
  "timestamp_now os me s = (let (r, s) = do_call os me TimeNow s in (mkTimestamp (of_int (ret r)), s))"

subsection \<open>Printing\<close>

record tm =
  tm_year :: int
  tm_mon :: int
  tm_mday :: int
  tm_hour :: int
  tm_min :: int
  tm_sec :: int

text \<open>\<open>%<w>d\<close> fills with blanks before the sign, \<open>%0<w>d\<close> with zeros behind it.\<close>

definition pad_to :: "char \<Rightarrow> nat \<Rightarrow> string \<Rightarrow> string" where
  "pad_to c w s = replicate (w - length s) c @ s"

definition fmt_d :: "nat \<Rightarrow> int \<Rightarrow> string" where
  "fmt_d w i = pad_to (CHR '' '') w (show_int i)"

definition fmt_0d :: "nat \<Rightarrow> int \<Rightarrow> string" where
  "fmt_0d w i = (if i < 0 then CHR ''-'' # pad_to (CHR ''0'') (w - 1) (show_nat (nat (- i)))
     else pad_to (CHR ''0'') w (show_nat (nat i)))"

definition int_add :: "int \<Rightarrow> int \<Rightarrow> int res" where
  "int_add a b = (if - (2 ^ 31) \<le> a + b \<and> a + b < 2 ^ 31 then Inr (a + b) else Inl SignedOverflow)"

definition toString :: "(int \<Rightarrow> tm option) \<Rightarrow> timestamp \<Rightarrow> string res" where
  "toString localtime t =
     (case localtime (sint (microSecondsSinceEpoch t)) of
        None \<Rightarrow> Inl NullDeref
      | Some b \<Rightarrow>
          rbind (int_add (tm_year b) 1990) (\<lambda>year.
          rbind (int_add (tm_mon b) 1) (\<lambda>mon.
          Inr (c_str (snprintf_buf 128
            (fmt_d 4 year @ ''/'' @ fmt_0d 2 mon @ ''/'' @ fmt_0d 2 (tm_mday b) @ '' '' @
             fmt_0d 2 (tm_hour b) @ '':'' @ fmt_0d 2 (tm_min b) @ '':'' @ fmt_0d 2 (tm_sec b)))))))"

text \<open>A broken-down time as \<open>localtime(3)\<close> describes it, in the years 1000 to 9909.\<close>

definition tm_ok :: "tm \<Rightarrow> bool" where
  "tm_ok b \<longleftrightarrow> 1000 \<le> tm_year b + 1900 \<and> tm_year b + 1900 \<le> 9909 \<and> 0 \<le> tm_mon b \<and> tm_mon b \<le> 11 \<and>
     1 \<le> tm_mday b \<and> tm_mday b \<le> 31 \<and> 0 \<le> tm_hour b \<and> tm_hour b \<le> 23 \<and>
     0 \<le> tm_min b \<and> tm_min b \<le> 59 \<and> 0 \<le> tm_sec b \<and> tm_sec b \<le> 60"

subsection \<open>Fields\<close>

lemma read_nat_append_zero: "read_nat (CHR ''0'' # s) = read_nat s"
  by (simp add: read_nat_def digit_val_def)

lemma two_digits:
  assumes "0 \<le> i" "i < 100"
  shows "length (fmt_0d 2 i) = 2" "read_nat (fmt_0d 2 i) = nat i" "CHR 0x00 \<notin> set (fmt_0d 2 i)"
proof -
  define n where "n = nat i"
  have f: "fmt_0d 2 i = pad_to (CHR ''0'') 2 (show_nat n)" using assms by (simp add: fmt_0d_def n_def)
  have n: "n < 100" using assms by (simp add: n_def)
  have "length (show_nat n) \<le> 2" by (rule show_nat_length) (use n in simp_all)
  moreover have "length (show_nat n) \<noteq> 0" by simp
  ultimately consider "length (show_nat n) = 1" | "length (show_nat n) = 2" by linarith
  then have "length (pad_to (CHR ''0'') 2 (show_nat n)) = 2 \<and> read_nat (pad_to (CHR ''0'') 2 (show_nat n)) = n"
    by cases (simp_all add: pad_to_def read_nat_append_zero read_show_nat)
  with f show "length (fmt_0d 2 i) = 2" "read_nat (fmt_0d 2 i) = nat i" by (simp_all add: n_def)
  show "CHR 0x00 \<notin> set (fmt_0d 2 i)" unfolding f using show_nat_no_zero by (auto simp: pad_to_def)
qed

lemma four_digits:
  assumes "1000 \<le> i" "i \<le> 9999"
  shows "fmt_d 4 i = show_nat (nat i)" "length (show_nat (nat i)) = 4"
proof -
  have two: "length (show_nat m) = 2" if "10 \<le> m" "m < 100" for m
    using that by (subst show_nat.simps, subst show_nat.simps) simp
  have four: "length (show_nat m) = 4" if "1000 \<le> m" "m < 10000" for m
  proof -
    have "10 \<le> m div 10 div 10" "m div 10 div 10 < 100" using that by (simp_all add: div_mult2_eq [symmetric])
    from two [OF this] that show ?thesis by (subst show_nat.simps, subst show_nat.simps) simp
  qed
  have "1000 \<le> nat i" "nat i < 10000" using assms by simp_all
  from four [OF this] show l: "length (show_nat (nat i)) = 4" .
  with assms show "fmt_d 4 i = show_nat (nat i)" by (simp add: fmt_d_def show_int_def pad_to_def)
qed

subsection \<open>Properties\<close>

text \<open>
  C40: what \<open>toString\<close> prints for a time in the years 1000 to 9909: always nineteen characters, nothing
  is cut off; month, day, hour, minute and second at their places; and a year that is 90 too
  high, because the code adds 1990 to a number that counts from 1900.
\<close>

theorem toString_year_90_high:
  assumes "localtime (sint (microSecondsSinceEpoch t)) = Some b" "tm_ok b"
  shows "\<exists>text. toString localtime t = Inr text \<and> length text = 19 \<and>
    int (read_nat (take 4 text)) = (tm_year b + 1900) + 90 \<and>
    int (read_nat (take 2 (drop 5 text))) = tm_mon b + 1 \<and>
    int (read_nat (take 2 (drop 8 text))) = tm_mday b \<and>
    int (read_nat (take 2 (drop 11 text))) = tm_hour b \<and>
    int (read_nat (take 2 (drop 14 text))) = tm_min b \<and>
    int (read_nat (drop 17 text)) = tm_sec b"
proof -
  let ?y = "tm_year b + 1990" and ?m = "tm_mon b + 1"
  have r: "1000 \<le> ?y" "?y \<le> 9999" "0 \<le> ?m" "?m < 100" "0 \<le> tm_mday b" "tm_mday b < 100"
    "0 \<le> tm_hour b" "tm_hour b < 100" "0 \<le> tm_min b" "tm_min b < 100" "0 \<le> tm_sec b" "tm_sec b < 100"
    using assms(2) by (simp_all add: tm_ok_def)
  note f = two_digits [OF r(3,4)] two_digits [OF r(5,6)] two_digits [OF r(7,8)] two_digits [OF r(9,10)]
    two_digits [OF r(11,12)] four_digits [OF r(1,2)]
  let ?text = "show_nat (nat ?y) @ ''/'' @ fmt_0d 2 ?m @ ''/'' @ fmt_0d 2 (tm_mday b) @ '' '' @
             fmt_0d 2 (tm_hour b) @ '':'' @ fmt_0d 2 (tm_min b) @ '':'' @ fmt_0d 2 (tm_sec b)"
  have len: "length ?text = 19" using f by simp
  have "CHR 0x00 \<notin> set ?text" using f show_nat_no_zero by simp
  then have "c_str ?text = ?text" by (rule c_str_id)
  moreover have "snprintf_buf 128 ?text = ?text" by (rule snprintf_buf_id) (use len in linarith)
  ultimately have "c_str (snprintf_buf 128 ?text) = ?text" by simp
  moreover have "int_add (tm_year b) 1990 = Inr ?y" "int_add (tm_mon b) 1 = Inr ?m" using r by (simp_all add: int_add_def)
  ultimately have "toString localtime t = Inr ?text" using assms(1) f by (simp add: toString_def)
  moreover have "int (read_nat (take 4 ?text)) = (tm_year b + 1900) + 90" using f r by (simp add: read_show_nat)
  moreover have "int (read_nat (take 2 (drop 5 ?text))) = ?m" "int (read_nat (take 2 (drop 8 ?text))) = tm_mday b"
    "int (read_nat (take 2 (drop 11 ?text))) = tm_hour b" "int (read_nat (take 2 (drop 14 ?text))) = tm_min b"
    "int (read_nat (drop 17 ?text)) = tm_sec b" using f r by simp_all
  ultimately show ?thesis using len by blast
qed

theorem toString_year_90_high_witness:
  "\<exists>text. toString (\<lambda>_. Some \<lparr>tm_year = 124, tm_mon = 1, tm_mday = 29, tm_hour = 12, tm_min = 0, tm_sec = 5\<rparr>)
      mkTimestamp0 = Inr text \<and> length text = 19 \<and> read_nat (take 4 text) = 2114"
proof -
  have "tm_ok \<lparr>tm_year = 124, tm_mon = 1, tm_mday = 29, tm_hour = 12, tm_min = 0, tm_sec = 5\<rparr>"
    by (simp add: tm_ok_def)
  from toString_year_90_high [OF refl this, of "mkTimestamp0"] show ?thesis by auto
qed

end
