(* ===== verification/Logger.thy ===== *)
theory Logger
  imports Sys
begin

section \<open>The logger (Logger.h, Logger.cc)\<close>

text \<open>
  One logger for the whole process: its level is a member that every macro sets before it calls
  \<open>log\<close>. A macro is therefore two steps, and other threads may come between them.
\<close>

subsection \<open>State and operations\<close>

datatype LogLevel = INFO | ERROR | FATAL | DEBUG

text \<open>\<open>LogLevel_\<close> is an \<open>int\<close> that the constructor leaves uninitialised; \<open>out\<close> is \<open>std::cout\<close>.\<close>

record logger =
  logLevel :: int
  out :: string

fun level_code :: "LogLevel \<Rightarrow> int" where
  "level_code INFO = 0"
| "level_code ERROR = 1"
| "level_code FATAL = 2"
| "level_code DEBUG = 3"

definition setLogLevel :: "int \<Rightarrow> logger \<Rightarrow> logger" where
  "setLogLevel l lg = lg\<lparr>logLevel := l\<rparr>"

definition level_tag :: "int \<Rightarrow> string" where
  "level_tag l = (if l = level_code INFO then ''[INFO]'' else if l = level_code ERROR then ''[ERROR]''
     else if l = level_code FATAL then ''[FATAL]'' else if l = level_code DEBUG then ''[DEBUG]'' else [])"

definition log_line :: "int \<Rightarrow> string \<Rightarrow> string" where
  "log_line l msg = level_tag l @ ''print time'' @ '' : '' @ msg @ [CHR 0x0A]"

definition log_msg :: "string \<Rightarrow> logger \<Rightarrow> logger" where
  "log_msg msg lg = lg\<lparr>out := out lg @ log_line (logLevel lg) msg\<rparr>"

text \<open>The message: \<open>char buf[1024]\<close> filled by \<open>snprintf\<close>, passed on as a C string.\<close>

definition log_text :: "string \<Rightarrow> string" where
  "log_text formatted = c_str (snprintf_buf 1024 formatted)"

definition LOG_INFO :: "string \<Rightarrow> logger \<Rightarrow> logger" where
  "LOG_INFO m lg = log_msg (log_text m) (setLogLevel (level_code INFO) lg)"

definition LOG_ERROR :: "string \<Rightarrow> logger \<Rightarrow> logger" where
  "LOG_ERROR m lg = log_msg (log_text m) (setLogLevel (level_code ERROR) lg)"

text \<open>\<open>LOG_FATAL\<close> also ends the process; the fault \<open>FatalExit\<close> of the other theories is its \<open>exit(-1)\<close>.\<close>

definition LOG_FATAL :: "string \<Rightarrow> logger \<Rightarrow> logger \<times> fault" where
  "LOG_FATAL m lg = (log_msg (log_text m) (setLogLevel (level_code FATAL) lg), FatalExit)"

subsection \<open>Threads that log\<close>

text \<open>The two steps of a macro, and a thread as the list of the messages it logs.\<close>

datatype log_step = SetLevel LogLevel | Put string

definition macro_steps :: "LogLevel \<times> string \<Rightarrow> log_step list" where
  "macro_steps e = [SetLevel (fst e), Put (snd e)]"

fun run_log_step :: "log_step \<Rightarrow> logger \<Rightarrow> logger" where
  "run_log_step (SetLevel l) lg = setLogLevel (level_code l) lg"
| "run_log_step (Put m) lg = log_msg (log_text m) lg"

definition run_log :: "log_step list \<Rightarrow> logger \<Rightarrow> logger" where
  "run_log steps lg = fold run_log_step steps lg"

text \<open>The lines that a thread would print alone.\<close>

definition lines_alone :: "(LogLevel \<times> string) list \<Rightarrow> string list" where
  "lines_alone es = map (\<lambda>(l, m). log_line (level_code l) (log_text m)) es"

lemma run_log_append: "run_log (xs @ ys) lg = run_log ys (run_log xs lg)"
  by (simp add: run_log_def)

lemma one_macro: "run_log (macro_steps (l, m)) lg =
    lg\<lparr>logLevel := level_code l, out := out lg @ log_line (level_code l) (log_text m)\<rparr>"
  by (simp add: run_log_def macro_steps_def log_msg_def setLogLevel_def)

lemma log_text_bound: "length (log_text m) \<le> 1023"
proof -
  have "length (c_str s) \<le> length s" for s unfolding c_str_def by (rule length_takeWhile_le)
  from this [of "snprintf_buf 1024 m"] show ?thesis by (simp add: log_text_def snprintf_buf_def)
qed

lemma macros_alone:
  "out (run_log (concat (map macro_steps es)) lg) = out lg @ concat (lines_alone es)"
proof (induction es arbitrary: lg)
  case Nil
  then show ?case by (simp add: run_log_def lines_alone_def)
next
  case (Cons e es)
  obtain l m where e: "e = (l, m)" by (cases e)
  have "concat (map macro_steps (e # es)) = macro_steps (l, m) @ concat (map macro_steps es)" by (simp add: e)
  then show ?case using Cons.IH by (simp add: run_log_append one_macro lines_alone_def e)
qed

subsection \<open>Properties\<close>

text \<open>
  The level of a log line. If no other thread comes between the two steps of a macro, the output is
  one line per message, each with the level of its macro and at most 1023 characters of the
  message. But nothing prevents it: between the two steps of an error message another thread can
  log an information, and then both lines carry the tag \<open>[INFO]\<close>.
\<close>

theorem log_levels:
  "out (run_log (concat (map macro_steps es)) lg) = out lg @ concat (lines_alone es) \<and>
   length (log_text m) \<le> 1023 \<and>
   out (run_log [SetLevel ERROR, SetLevel INFO, Put m', Put m] lg) =
     out lg @ log_line (level_code INFO) (log_text m') @ log_line (level_code INFO) (log_text m)"
  using macros_alone log_text_bound by (simp add: run_log_def log_msg_def setLogLevel_def)

end
