(* ===== verification/Spec2Isabelle.thy ===== *)
theory Spec2Isabelle
  imports LoopThreads ServerSettles TestProgram Timestamp Logger
begin

text \<open>
  A model of mymuduo, a TCP network library in C++ after muduo: one event loop per thread, epoll
  underneath, callbacks above, and of the echo server that ships with it as an example.

  \<^bold>\<open>The program.\<close> A \<open>TcpServer\<close> listens through an \<open>Acceptor\<close> in its base loop. Every accepted socket
  becomes a \<open>TcpConnection\<close> in one of the loops that an \<open>EventLoopThreadPool\<close> has started, each in an
  \<open>EventLoopThread\<close> of its own. An \<open>EventLoop\<close> polls its \<open>EpollPoller\<close>, dispatches to the \<open>Channel\<close>s that
  have events, and runs the functors that other threads queued; the write to an eventfd wakes it.
  Connections read into and write out of a \<open>Buffer\<close>.

  \<^bold>\<open>Conventions.\<close> Operations pass the state explicitly and return a fault or a result (\<open>res\<close>, \<open>rbind\<close>).
  A fault is an uncaught exception, the \<open>exit(-1)\<close> of \<open>LOG_FATAL\<close>, or undefined behaviour that the
  code runs into: an access outside a vector, a dangling pointer, an overflow. Objects with an
  identity (channels, loops, connections, strings whose address is passed on) live in stores;
  reading a freed one is \<open>UseAfterFree\<close>. The state is one extensible record: \<open>io\<close> (the trace of
  system calls), \<open>chan_io\<close>, \<open>reactor\<close>, \<open>net\<close>, \<open>server_net\<close>; an operation is polymorphic in what lies above
  it. \<open>me\<close> is the thread that executes an operation. The kernel is the parameter \<open>os\<close>, any function
  from the trace so far and the next call to an answer; what a theorem needs of it is a hypothesis
  that states its manual page (\<open>epoll_ctl_documented\<close>, \<open>epoll_wait_documented\<close>, \<open>write_documented\<close>)
  or that it has descriptors, memory and the port to give (\<open>loop_fds_given\<close>, \<open>sockets_given\<close>, and
  \<open>new_fds_documented\<close>: a new descriptor is not one that is open). \<open>kernel_documented\<close> puts these together;
  \<open>short_messages\<close> bounds what one read returns. \<open>localtime\<close> and \<open>inet_addr\<close> are parameters as well.
  User code is any function from what a callback is given to the calls it makes (\<open>user_code\<close>,
  \<open>user_call\<close>); \<open>local_user\<close> says that a callback only uses the connection it is called for and takes
  all of the input. Where objects end up in memory is a parameter too (\<open>places_differ\<close>, \<open>fresh_process\<close>).

  \<^bold>\<open>Theories and sources.\<close>
  \<^item> \<open>Prelude\<close>: faults, results, loops over lists, decimal printing, memory as lists, 64-bit sums.
  \<^item> \<open>Sys\<close>: system calls, their trace, what epoll registers.
  \<^item> \<open>Buffer\<close> (Buffer.h, Buffer.cpp): \<open>buf_wf\<close>, the abstraction \<open>contents\<close>, \<open>append\<close>, \<open>retrieve\<close>,
    \<open>makespace\<close>, \<open>readFd\<close>, \<open>writeFd\<close> with \<open>size_t\<close> as a 64-bit word.
  \<^item> \<open>Callback\<close> (the \<open>std::bind\<close> closures of the library), \<open>Channel\<close> (Channel.h, Channel.cpp),
    \<open>Poller\<close> (Poller.h, EpollPoller.cpp, DefaultPoller.cpp): channel map, kernel and channel state
    agree (\<open>poller_inv\<close>).
  \<^item> \<open>EventLoop\<close> (Eventloop.h, Eventloop.cpp): the loop's operations, \<open>loop_turn\<close> and \<open>loop\<close>; the locale
    \<open>registry\<close> is the contract of registering channels, interpreted on the model.
  \<^item> \<open>LoopThreads\<close>: the loop against other threads that queue and quit, as a step relation.
  \<^item> \<open>InetAddress\<close> (InetAddress.h, InetAddress.cpp): the structure's memory and its printing.
  \<^item> \<open>TcpConnection\<close> (TcpConnection.h, TcpConnection.cpp): the state machine, sending, closing; the
    locale \<open>net_relation\<close> says which relations all operations respect, interpreted for the order of the
    states and for what lies above the connections.
  \<^item> \<open>LoopTurns\<close>: the same for whole turns of a loop, with the locale \<open>net_ident_relation\<close>.
  \<^item> \<open>Threads\<close> (Thread.h, Thread.cpp, CurrentThread), \<open>EventLoopThread\<close> (the handshake of \<open>startLoop\<close> and
    \<open>threadFunc\<close> and the destructor, interleaved), \<open>EventLoopThreadPool\<close> (starting, naming, taking turns
    by the locale \<open>turn_taking\<close>).
  \<^item> \<open>Acceptor\<close> (Socket.h, Socket.cpp, Acceptor.h, Acceptor.cpp).
  \<^item> \<open>TcpServer\<close> (TcpServer.h, TcpServer.cpp): starting, new connections and their names, removal, who
    holds a reference to a connection and when it is freed.
  \<^item> \<open>EchoServer\<close> (example/testserver.cc), \<open>Timestamp\<close> (Timestamp.h, TimeStamp.cpp), \<open>Logger\<close> (Logger.h,
    Logger.cc).
  \<^item> Whole servers: \<open>ServerInv\<close> defines the invariant of a running server, a conjunction of one predicate
    for the loops and the kernel, one for the channels, the connections, the queues, the lifetimes and
    the listening channel (\<open>running_inv\<close>), and shows what the single operations do to it. \<open>ServerRuns\<close>:
    every functor, every event and every turn keeps it and does not fault. \<open>ServerStart\<close>: construction
    and \<open>start\<close> establish it. \<open>ServerSteps\<close>: the loops run in threads of their own, whose calls
    interleave (\<open>thread_step\<close>, \<open>steps_inv\<close>). \<open>ServerMain\<close>: from the first statement of \<open>main\<close> on; kernels
    and a process for examples. \<open>ServerEnd\<close>: the destructor of a server with live connections.
    \<open>ServerSettles\<close>: a measure of the work that is left in the queues, batches and active channels
    (\<open>work_of\<close>), which every step of a busy thread lowers once the peers are silent.
    \<open>TestProgram\<close> is \<open>example/test.cpp\<close>, which uses sockets without the library.

  \<^bold>\<open>What is shown.\<close> For whole servers (this theory): from \<open>main\<close> on, with any number of workers, in any
  interleaving of the threads, with any peers and user code as above, no step faults; no connection is
  leaked: it is in the map, or some thread still holds a closure with it, and when all threads are
  idle the live connections are those of the map, established and watched by epoll; the listening
  socket is watched all along; once the peers fall silent the server comes to rest under every fair
  schedule, so that no closed connection stays; the destructor hands every connection to its worker;
  and the turn of a loop as one operation is what the steps of its thread do. For single components: the buffer is a FIFO as long as no unchecked copy faults, and
  its indices are never broken; registering channels refines a map from channels to masks; a poll
  reports only what was asked for; functors run exactly once and in order and no wakeup is lost;
  \<open>startLoop\<close> returns and returns a live loop; loops are handed out evenly; the bytes written to a socket
  are those sent, in order, and the writing side is shut down only after the last; a connection's
  state only advances. Across components: the server starts its threads and only then listens; a new
  connection is placed in the loop whose turn it is, under a name nobody else has; in every run no
  connection in the map is freed and all buffers stay well-formed; a closed connection leaves the
  kernel, the map and the store, in this order and across two threads. The theorems also pin
  down where the code is wrong: unchecked copies in \<open>append\<close> and \<open>readFd\<close> (so that the echo server
  returns only the first eight bytes of a longer first message), output dropped by \<open>sendInLoop\<close>,
  strings and \<open>this\<close> passed to other threads, a \<open>quit\<close> that is lost, a printed address that is not the
  address, a year 90 too high.

  \<^bold>\<open>Bounds.\<close> \<open>loop\<close> and \<open>echo_main\<close> take a bound on the number of turns; \<open>None\<close> says that the bound was used up,
  and \<open>loop_returns_after_quit\<close> gives a bound that is enough. \<open>startLoop_terminates\<close> bounds the steps of
  the handshake. \<open>thread_steps\<close> runs a finite schedule, one entry for each step; the theorems of this
  theory hold for schedules shorter than \<open>INT_MAX\<close>, so that the counter of connections, an \<open>int\<close> that
  grows by at most one in a step, does not overflow (when the peers are silent the schedule may have any
  length, and as many rounds as \<open>work_of\<close> counts are enough to come to rest), and for reads of at most 1024 bytes, what an
  empty buffer takes without the overflow of \<open>readFd_overruns\<close>. Everything else is structural recursion or a fold over a finite list.

  \<^bold>\<open>Not modelled.\<close> In \<open>thread_step\<close> the poll, one active channel or one functor of a thread is one step:
  what runs inside a callback is not interleaved with the other threads. (Inside \<open>queueInLoop\<close>, \<open>quit\<close>
  and the wakeup it is: \<open>LoopThreads\<close>; and inside the start of a thread: \<open>EventLoopThread\<close>.) What threads
  share without a lock, the state of a connection and the flags of a loop, is atomic in the code;
  any other unsynchronised access is taken as atomic too. Log output is left out of the other theories, except that
  \<open>LOG_FATAL\<close> ends the process. The memory allocator never fails except by \<open>length_error\<close>. The
  iteration order of \<open>unordered_map\<close> is the order of the model's list. Not modelled at all: \<open>nocopyable\<close>
  (compile time only), the build files and the
  compiler probes that CMake generated under \<open>build\<close>.

  \<^bold>\<open>Plan.\<close> The library is modelled completely. What could follow: whole servers whose user code leaves
  input in the buffer or keeps connections for later; what the workers do with the connections of a
  server that is gone.
\<close>

section \<open>Properties of whole servers\<close>

text \<open>
  C1: a server with \<open>n\<close> worker threads and any user code whose callbacks only use their own connection and
  take all of the input, from \<open>main\<close> on: it comes up, and however its threads interleave, whatever the
  kernel reports and the peers send (at most 1024 bytes at a time), no step ever faults: no exception,
  no use of a freed connection, channel or string, no access outside a buffer, no registration that
  epoll refuses; up to a run so long that the number of connections overflows.
\<close>

theorem server_never_faults:
  assumes "places_differ me l p place n" "fresh_process p place n s" "0 < n" "local_user uc"
    "kernel_documented os" "short_messages os"
    "set ls \<subseteq> set (l # worker_loops place n)" "int (length ls) < INT_MAX"
  shows "\<exists>s1 ph s2. server_setup os me uc n addr name reuse l p place s = Inr s1 \<and>
    thread_steps os uc d ls (\<lambda>_. Entering, s1) = Inr (ph, s2)"
  using server_runs [OF assms(1,2,5,3,4,6-8)] by blast

theorem server_never_faults_witness:
  "\<exists>s1 ph s2. server_setup busy_os 1 greeting_user 2 (mkInetAddress (\<lambda>_. 0) 80 ''0.0.0.0'') ''srv'' True 0 0 example_places
      empty_process = Inr s1 \<and>
    thread_steps busy_os greeting_user (mkInetAddress (\<lambda>_. 0) 0 ''0.0.0.0'') (in_turn 2 300) (\<lambda>_. Entering, s1) =
      Inr (ph, s2)"
proof -
  have n: "(2 :: nat) < 9" "(0 :: nat) < 2" "(300 :: nat) * Suc 2 < 1000000" by simp_all
  show ?thesis
    by (rule server_never_faults [OF example_places_differ example_process [OF n(1)] n(2) greeting_user_local busy_os_documented
          in_turn_loops in_turn_length [OF n(3)]])
qed

text \<open>
  C2: the echo server of the repository, from \<open>main\<close> on, with its three workers, in any interleaving of its
  threads: it comes up and runs on without a fault. In every state it reaches, the connections in
  the map are alive; a live connection belongs to a worker; it is in the map unless it is closed,
  and otherwise a closure in the queue or in the batch of some thread holds it, so that none is
  leaked; a new one waits for its worker to establish it, and an established one is registered for
  reading with the epoll of its loop; the listening socket stays registered for reading with that of
  the base loop. Whenever all threads wait for events with empty queues, the
  live connections are exactly those in the map, all of them established and watched.
\<close>

theorem echo_server_serves:
  assumes "places_differ me l p place 3" "fresh_process p place 3 s" "kernel_documented os" "short_messages os"
    "set ls \<subseteq> set (l # worker_loops place 3)" "int (length ls) < INT_MAX"
  shows "\<exists>s1 ph s2. echo_setup os me False inet_addr l p place s = Inr s1 \<and>
    thread_steps os echo_user d ls (\<lambda>_. Entering, s1) = Inr (ph, s2) \<and>
    accepts_connections s2 \<and> members s2 \<subseteq> dom (conns s2) \<and>
    (\<forall>k cn. conns s2 k = Some cn \<longrightarrow> conn_loop cn \<in> set (worker_loops place 3) \<and>
       (conn_state cn = kDisconnected \<or> k \<in> members s2) \<and>
       (k \<in> members s2 \<or> (\<exists>j \<in> set (l # worker_loops place 3). k \<in> thread_holds ph s2 j)) \<and>
       (conn_state cn = kConnecting \<longrightarrow> k \<in> thread_holds ph s2 (conn_loop cn)) \<and>
       (is_up cn \<longrightarrow> registered_for_reading s2 cn)) \<and>
    (quiet ph s2 \<longrightarrow> dom (conns s2) = members s2 \<and> (\<forall>k cn. conns s2 k = Some cn \<longrightarrow> is_up cn))"
proof -
  have "(0 :: nat) < 3" by simp
  from server_runs [OF assms(1,2,3) this echo_user_local assms(4-6),
      of "mkInetAddress inet_addr 1997 ''127.0.0.1''" "''EchoServer-01''" False d]
  obtain s1 ph s2 where s: "echo_setup os me False inet_addr l p place s = Inr s1"
      "thread_steps os echo_user d ls (\<lambda>_. Entering, s1) = Inr (ph, s2)" "steps_inv os (ph, s2)"
      "all_loops s2 = l # worker_loops place 3" "listenning (srv_acceptor (srv s2))" unfolding echo_setup_eq by blast
  have "workers s2 = worker_loops place 3" using s(4) by (simp add: server_loops_def)
  with s steps_holders [OF s(3)] steps_quiet [OF s(3)] steps_members [OF s(3)] steps_connecting [OF s(3)] steps_registered [OF s(3)]
    steps_listening [OF s(3,5)]
  show ?thesis by metis
qed

theorem echo_server_serves_witness:
  "\<exists>s1 ph s2. echo_setup busy_os 1 False (\<lambda>_. 0) 0 0 example_places empty_process = Inr s1 \<and>
    thread_steps busy_os echo_user (mkInetAddress (\<lambda>_. 0) 0 ''0.0.0.0'') (in_turn 3 300) (\<lambda>_. Entering, s1) = Inr (ph, s2) \<and>
    accepts_connections s2 \<and> members s2 \<subseteq> dom (conns s2)"
proof -
  have n: "(3 :: nat) < 9" "(300 :: nat) * Suc 3 < 1000000" by simp_all
  from echo_server_serves [OF example_places_differ example_process [OF n(1)] busy_os_documented in_turn_loops
      in_turn_length [OF n(2)], where inet_addr = "\<lambda>_. 0" and d = "mkInetAddress (\<lambda>_. 0) 0 ''0.0.0.0''"]
  show ?thesis by (elim exE conjE) (intro exI conjI, assumption+)
qed



text \<open>
  C3: a server whose peers have fallen silent comes to rest. From any state that a server reaches, if
  the kernel reports nothing but wakeups from then on and every thread goes on taking steps, then
  after as many rounds as there is work (functors queued or in a batch, active channels, references
  to drop, each with the steps that it takes) all queues are empty and no thread holds a closure:
  every closed connection has been removed, destroyed and freed, every new one is established, and
  the live connections are exactly those of the map. A round is any schedule in which
  every thread takes a step.
\<close>

theorem server_settles:
  assumes "places_differ me l p place n" "fresh_process p place n s" "0 < n" "local_user uc"
    "kernel_documented os" "short_messages os"
    "set ls \<subseteq> set (l # worker_loops place n)" "int (length ls) < INT_MAX"
    "server_setup os me uc n addr name reuse l p place s = Inr s1"
    "thread_steps os uc d ls (\<lambda>_. Entering, s1) = Inr (ph, s2)"
    "only_wakeups os s2" "1 + int (length ls) + int (work_of (wakeups s2) ph s2) \<le> INT_MAX"
    "\<forall>r \<in> set rounds. set r = set (l # worker_loops place n)" "work_of (wakeups s2) ph s2 \<le> length rounds"
  shows "\<exists>ph' s3. thread_steps os uc d (concat rounds) (ph, s2) = Inr (ph', s3) \<and>
    (\<forall>j \<in> set (l # worker_loops place n). queued_in s3 j = [] \<and> thread_holds ph' s3 j = {}) \<and>
    dom (conns s3) = members s3 \<and> (\<forall>k cn. conns s3 k = Some cn \<longrightarrow> is_up cn)"
proof -
  note os = assms(5) [unfolded kernel_documented_def]
  have docs: "epoll_wait_documented os" "new_fds_documented os" using os by simp_all
  from server_setup_runs [OF assms(1,2,5,3), of uc addr name reuse] assms(9)
  have s1: "running_inv os no_batch {} {} {} {} s1" "all_loops s1 = l # worker_loops place n" "nextConnId (srv s1) = 1" by auto
  note inv1 = all_entering [OF s1(1)]
  have ls: "set ls \<subseteq> set (all_loops s1)" "nextConnId (srv s1) + int (length ls) \<le> INT_MAX" using assms(7,8) s1 by simp_all
  from steps_run [OF inv1 ls(1) assms(4) ls(2) docs(1) assms(6) docs(2), of d] assms(10)
  have s2: "steps_inv os (ph, s2)" "all_loops s2 = l # worker_loops place n" "nextConnId (srv s2) \<le> 1 + int (length ls)" using s1 by auto
  have "serving ph s2"
    by (rule steps_serving [OF inv1 _ ls assms(10,4) docs(1) assms(6) docs(2)]) (simp add: serving_def)
  with s2 assms(11,12) have st: "settling os ph s2" by (simp add: settling_def)
  have "\<forall>r \<in> set rounds. set r = set (all_loops s2)" using assms(13) unfolding s2(2) .
  from rounds_settle [OF st this assms(4) docs(1) assms(6) docs(2), of d, unfolded s2(2)] obtain ph' s3 where
    s3: "thread_steps os uc d (concat rounds) (ph, s2) = Inr (ph', s3)" "settling os ph' s3" "all_loops s3 = l # worker_loops place n"
      "work_of (wakeups s3) ph' s3 \<le> work_of (wakeups s2) ph s2 - length rounds"
    by (elim exE conjE) (rule that)
  have "work_of (wakeups s3) ph' s3 = 0" using s3(4) assms(14) by simp
  note rest = no_work [OF this]
  have inv3: "steps_inv os (ph', s3)" using s3(2) by (simp add: settling_def)
  have alive: "dom (conns s3) = members s3" "\<And>k cn. conns s3 k = Some cn \<Longrightarrow> is_up cn"
    by (rule steps_at_rest [OF inv3]; simp only: rest(2))+
  show ?thesis by (intro exI [of _ ph'] exI [of _ s3] conjI ballI allI impI) (simp_all only: s3(1,3) rest alive)
qed

theorem server_settles_witness:
  "\<exists>s1 ph s2 ph' s3. server_setup one_event_os 1 greeting_user 2 (mkInetAddress (\<lambda>_. 0) 80 ''0.0.0.0'') ''srv'' True 0 0 example_places
      empty_process = Inr s1 \<and>
    thread_steps one_event_os greeting_user (mkInetAddress (\<lambda>_. 0) 0 ''0.0.0.0'') [0, 0] (\<lambda>_. Entering, s1) = Inr (ph, s2) \<and>
    thread_steps one_event_os greeting_user (mkInetAddress (\<lambda>_. 0) 0 ''0.0.0.0'') (concat (replicate 174 [0, 1, 2])) (ph, s2) = Inr (ph', s3) \<and>
    dom (conns s3) = members s3"
proof -
  have n: "(2 :: nat) < 9" "(0 :: nat) < 2" "set [0, 0] \<subseteq> set (0 # worker_loops example_places 2)" "int (length [0 :: loop_id, 0]) < INT_MAX"
    "\<forall>r \<in> set (replicate 174 [0, 1, 2]). set r = set (0 # worker_loops example_places 2)"
    by (simp_all add: INT_MAX_def example_loops upt_rec numeral_2_eq_2)
  note args = example_places_differ example_process [OF n(1)]
  from server_setup_runs [OF args one_event_os_documented(1) n(2)] obtain s1 where
    s1: "server_setup one_event_os 1 greeting_user 2 (mkInetAddress (\<lambda>_. 0) 80 ''0.0.0.0'') ''srv'' True 0 0 example_places empty_process = Inr s1"
      "running_inv one_event_os no_batch {} {} {} {} s1" "all_loops s1 = 0 # worker_loops example_places 2"
      "\<forall>j \<in> set (all_loops s1). queued_in s1 j = []" by blast
  have "0 \<in> set (all_loops s1)" by (simp add: s1(3))
  from one_event_start [OF s1(2) this s1(4)] obtain ph s2 where
    s2: "thread_steps one_event_os greeting_user (mkInetAddress (\<lambda>_. 0) 0 ''0.0.0.0'') [0, 0] (\<lambda>_. Entering, s1) = Inr (ph, s2)"
      "only_wakeups one_event_os s2" "work_of (wakeups s2) ph s2 \<le> 174" by blast
  have w: "1 + int (length [0 :: loop_id, 0]) + int (work_of (wakeups s2) ph s2) \<le> INT_MAX" "work_of (wakeups s2) ph s2 \<le> length (replicate 174 [0, 1, 2 :: loop_id])"
    using s2(3) by (simp_all add: INT_MAX_def)
  from server_settles [OF args n(2) greeting_user_local one_event_os_documented n(3,4) s1(1) s2(1,2) w(1) n(5) w(2)] s1(1) s2(1)
  show ?thesis by (elim exE conjE) (intro exI conjI, assumption+)
qed



end
